(* ===== verification/Luce_Prelude.thy ===== *)
theory Luce_Prelude
  imports Main "HOL-Library.Word"
begin

text \<open>
  Shared material of the luce development: machine types and their byte images, the
  two framing interfaces that several components implement (\<open>reachability\<close> of a step
  relation and in-place list \<open>swap\<close>), and generic lemmas on lists and words.

  Bytes are \<^typ>\<open>8 word\<close>; C++ \<open>char\<close> buffers of the codec and of the network layer are
  lists of bytes, the text handling layers (HTTP, JSON, string utilities) use
  \<^typ>\<open>string\<close>. The host is little-endian (the Linux/x86-64 target of the build), so the
  object representation of an unsigned integer is its byte list, least significant byte
  first.
\<close>

unbundle bit_operations_syntax

named_theorems codec_simps \<open>byte images of the arithmetic types\<close>
named_theorems step_inv \<open>single steps preserve component invariants\<close>

type_synonym byte = "8 word"
type_synonym bytes = "byte list"
type_synonym u16 = "16 word"
type_synonym u32 = "32 word"
type_synonym u64 = "64 word"

section \<open>Byte images of words\<close>

definition bytes_of_string :: "string \<Rightarrow> bytes" where
  "bytes_of_string s = map of_char s"

definition le_bytes :: "'a::len word \<Rightarrow> bytes" where
  "le_bytes w = map (\<lambda>i. ucast (drop_bit (8 * i) w)) [0..<LENGTH('a) div 8]"

fun le_word :: "bytes \<Rightarrow> 'a::len word" where
  "le_word [] = 0"
| "le_word (b # bs) = ucast b OR push_bit 8 (le_word bs)"

lemma length_le_bytes [simp, codec_simps]:
  "length (le_bytes (w :: 'a::len word)) = LENGTH('a) div 8"
  by (simp add: le_bytes_def)

lemma bit_le_word:
  "bit (le_word bs :: 'a::len word) n \<longleftrightarrow>
     n < LENGTH('a) \<and> n div 8 < length bs \<and> bit (bs ! (n div 8)) (n mod 8)"
proof (induction bs arbitrary: n)
  case Nil
  then show ?case by simp
next
  case (Cons b bs)
  show ?case
  proof (cases "n < 8")
    case True
    then show ?thesis by (auto simp: bit_or_iff bit_push_bit_iff bit_ucast_iff)
  next
    case False
    then obtain m where m: "n = 8 + m" by (metis le_iff_add not_less)
    have "\<not> bit b n" using False by (auto dest: bit_imp_le_length)
    moreover have "(8 + m) div 8 = Suc (m div 8)" by simp
    ultimately show ?thesis
      using Cons.IH [of m] by (simp add: m bit_or_iff bit_push_bit_iff bit_ucast_iff) auto
  qed
qed

lemma le_word_le_bytes [simp, codec_simps]:
  assumes "8 dvd LENGTH('a)"
  shows "le_word (le_bytes (w :: 'a::len word)) = w"
proof (rule bit_word_eqI)
  fix n assume n: "n < LENGTH('a)"
  then have "n div 8 < LENGTH('a) div 8"
    using assms by (auto elim!: dvdE)
  then show "bit (le_word (le_bytes w) :: 'a word) n = bit w n"
    using n by (simp add: bit_le_word, simp add: le_bytes_def bit_ucast_iff bit_drop_bit_eq)
qed

lemma le_bytes_le_word:
  assumes "length bs = LENGTH('a) div 8" "8 dvd LENGTH('a)"
  shows "le_bytes (le_word bs :: 'a::len word) = bs"
proof (rule nth_equalityI)
  show "length (le_bytes (le_word bs :: 'a word)) = length bs" by (simp add: assms)
  fix i assume "i < length (le_bytes (le_word bs :: 'a word))"
  then have i: "i < length bs" by (simp add: assms)
  show "le_bytes (le_word bs :: 'a word) ! i = bs ! i"
  proof (rule bit_word_eqI)
    fix n assume n: "n < LENGTH(8)"
    have "8 * i + n < LENGTH('a)" using i n assms by (auto elim!: dvdE)
    moreover have "(8 * i + n) div 8 = i" "(8 * i + n) mod 8 = n" using n by simp_all
    ultimately show "bit (le_bytes (le_word bs :: 'a word) ! i) n = bit (bs ! i) n"
      using i n assms(1)
      by (simp add: le_bytes_def bit_ucast_iff bit_drop_bit_eq bit_le_word add.commute)
  qed
qed

lemma sint_of_nat_u31: "n < 2 ^ 31 \<Longrightarrow> sint (of_nat n :: 32 word) = int n"
  by (simp add: sint_uint signed_take_bit_eq_if_positive uint_nat unat_of_nat
      signed_take_bit_int_eq_self)

lemma scast_of_nat_u31:
  "n < 2 ^ 31 \<Longrightarrow> (scast (of_nat n :: 32 word) :: u64) = of_nat n"
  by (metis of_int_sint of_int_of_nat_eq sint_of_nat_u31)

lemma scast_32_64_inject: "(scast (a :: 32 word) :: u64) = scast b \<longleftrightarrow> a = b"
proof -
  have "scast (scast w :: u64) = w" for w :: "32 word"
    by (rule scast_up_scast_id) (simp add: is_up source_size_def target_size_def word_size)
  then show ?thesis by metis
qed

lemma word_less_succ:
  assumes "w \<noteq> - 1"
  shows "(w :: 'a::len word) < w + 1"
proof -
  have "1 + w \<noteq> 0" using assms by (metis add.commute max_word_wrap)
  then have "unat (1 + w) = Suc (unat w)" by (rule unatSuc)
  then show ?thesis by (simp add: word_less_nat_alt add.commute)
qed

text \<open>A byte buffer read back as text.\<close>

definition string_of_bytes :: "bytes \<Rightarrow> string" where
  "string_of_bytes bs = map (\<lambda>b. char_of (unat b)) bs"

lemma string_of_bytes_of_string [simp]: "string_of_bytes (bytes_of_string s) = s"
proof -
  have "char_of (unat (of_char c :: byte)) = c" for c
  proof -
    have "(of_char c :: byte) = of_nat (of_char c)" by (simp only: of_nat_of_char)
    moreover have "of_char c < (256 :: nat)" by simp
    ultimately have "unat (of_char c :: byte) = of_char c" by (simp only: unat_of_nat) simp
    then show ?thesis by simp
  qed
  then show ?thesis by (simp add: string_of_bytes_def bytes_of_string_def comp_def)
qed

lemma bytes_of_string_Nil_iff [simp]: "bytes_of_string s = [] \<longleftrightarrow> s = []"
  by (simp add: bytes_of_string_def)

section \<open>Numbers as text\<close>

text \<open>\<open>std::to_string\<close> on \<open>int\<close>.\<close>

fun show_nat :: "nat \<Rightarrow> string" where
  "show_nat n = (if n < 10 then [char_of (48 + n)] else show_nat (n div 10) @ [char_of (48 + n mod 10)])"

declare show_nat.simps [simp del]

definition to_string :: "int \<Rightarrow> string" where
  "to_string i = (if i < 0 then CHR ''-'' # show_nat (nat (- i)) else show_nat (nat i))"

text \<open>Character classes of the C locale, and the value of a string of digits.\<close>

definition is_digit :: "char \<Rightarrow> bool" where
  "is_digit c \<longleftrightarrow> of_char c \<in> {48 .. 57 :: nat}"

definition is_space :: "char \<Rightarrow> bool" where
  "is_space c \<longleftrightarrow> of_char c \<in> {9 .. 13 :: nat} \<or> c = CHR '' ''"

definition digits_value :: "string \<Rightarrow> int" where
  "digits_value ds = foldl (\<lambda>n c. 10 * n + (of_char c - 48)) 0 ds"

lemma is_digit_char: "(d :: nat) < 10 \<Longrightarrow> is_digit (char_of (48 + d))"
  by (simp add: is_digit_def)

lemma digit_char_value: "(d :: nat) < 10 \<Longrightarrow> (of_char (char_of (48 + d)) :: int) = 48 + int d"
  using of_nat_of_char [of "char_of (48 + d)", where 'a = int] by simp

lemma digits_value_snoc: "digits_value (ds @ [c]) = 10 * digits_value ds + (of_char c - 48)"
  by (simp add: digits_value_def)

lemma show_nat_digits: "(\<forall>c \<in> set (show_nat n). is_digit c) \<and> show_nat n \<noteq> [] \<and> digits_value (show_nat n) = int n"
proof (induction n rule: show_nat.induct)
  case (1 n)
  show ?case
  proof (cases "n < 10")
    case True
    then show ?thesis
      using digit_char_value [OF True] by (subst (1 2 3) show_nat.simps) (auto simp: is_digit_char digits_value_def)
  next
    case False
    have "10 * int (n div 10) + int (n mod 10) = int n" by (simp add: zdiv_int zmod_int)
    then show ?thesis
      using 1 False is_digit_char [of "n mod 10"] digit_char_value [of "n mod 10"]
      by (subst (1 2 3) show_nat.simps) (simp add: digits_value_snoc)
  qed
qed

section \<open>Results that may be errors\<close>

text \<open>
  Code that throws, exits or runs into undefined behaviour returns \<open>Inl\<close> of an error.
  \<open>try_bind m f\<close> continues with \<open>f\<close> on a value and stops at the first error.
\<close>

definition try_bind :: "'e + 'a \<Rightarrow> ('a \<Rightarrow> 'e + 'b) \<Rightarrow> 'e + 'b" where
  "try_bind m f = (case m of Inl e \<Rightarrow> Inl e | Inr x \<Rightarrow> f x)"

lemma try_bind_simps [simp]:
  "try_bind (Inl e) f = Inl e"
  "try_bind (Inr x) f = f x"
  by (simp_all add: try_bind_def)

lemma try_bind_eq_Inr:
  "try_bind m f = Inr y \<longleftrightarrow> (\<exists>x. m = Inr x \<and> f x = Inr y)"
  by (cases m) auto

lemma try_bind_eq_Inl:
  "try_bind m f = Inl e \<longleftrightarrow> m = Inl e \<or> (\<exists>x. m = Inr x \<and> f x = Inl e)"
  by (cases m) auto

lemma try_bind_cong [fundef_cong]:
  "m = m' \<Longrightarrow> (\<And>x. m' = Inr x \<Longrightarrow> f x = f' x) \<Longrightarrow> try_bind m f = try_bind m' f'"
  by (cases m') auto

section \<open>Maps\<close>

lemma map_add_Cons_rev: "m(k \<mapsto> v) ++ map_of (rev xs) = m ++ map_of (rev ((k, v) # xs))"
  by (rule ext) (simp add: map_add_def split: option.splits)

text \<open>
  Tables: an entry that is registered is found again and later registrations win. \<open>ok\<close>
  says for which keys the provider promises it.
\<close>

locale key_table =
  fixes ok :: "'k \<Rightarrow> bool"
    and insert_entry :: "'k \<Rightarrow> 'v \<Rightarrow> 't \<Rightarrow> 't"
    and find_entry :: "'t \<Rightarrow> 'k \<Rightarrow> 'v option"
  assumes find_insert: "ok k \<Longrightarrow> ok k' \<Longrightarrow>
      find_entry (insert_entry k v t) k' = (if k' = k then Some v else find_entry t k')"
begin

lemma find_fold:
  assumes "ok k" "\<forall>(k, v) \<in> set kvs. ok k"
  shows "find_entry (fold (\<lambda>(k, v). insert_entry k v) kvs t) k =
    (case map_of (rev kvs) k of Some v \<Rightarrow> Some v | None \<Rightarrow> find_entry t k)"
  using assms(2)
proof (induction kvs arbitrary: t)
  case (Cons kv kvs)
  obtain k1 v1 where "kv = (k1, v1)" by (cases kv)
  with Cons assms(1) show ?case by (auto simp: find_insert map_add_def split: option.splits)
qed simp

end

section \<open>Exchanging two elements of a vector\<close>

definition swap_at :: "'a list \<Rightarrow> nat \<Rightarrow> nat \<Rightarrow> 'a list" where
  "swap_at xs i j = xs[i := xs ! j, j := xs ! i]"

lemma length_swap_at [simp]: "length (swap_at xs i j) = length xs"
  by (simp add: swap_at_def)

lemma swap_at_same [simp]: "swap_at xs i i = xs"
  by (simp add: swap_at_def)

lemma nth_swap_at:
  assumes "i < length xs" "j < length xs" "k < length xs"
  shows "swap_at xs i j ! k = (if k = i then xs ! j else if k = j then xs ! i else xs ! k)"
  using assms by (auto simp: swap_at_def nth_list_update)

text \<open>A sum over a vector after the update of one element.\<close>

lemma sum_list_map_update:
  fixes f :: "'a \<Rightarrow> 'b::comm_monoid_add"
  shows "i < length xs \<Longrightarrow> sum_list (map f (xs[i := y])) + f (xs ! i) = sum_list (map f xs) + f y"
proof (induction xs arbitrary: i)
  case (Cons x xs)
  show ?case
  proof (cases i)
    case (Suc j)
    then show ?thesis using Cons.IH [of j] Cons.prems by (simp add: add.commute add.left_commute add.assoc)
  qed (simp add: add.commute add.left_commute)
qed simp

section \<open>Reachable states of a step relation\<close>

text \<open>
  Every component with interleaved operations is a step relation. The interface says what
  a provider proves (the initial state satisfies the invariant, one step keeps it); the
  client's lemma is the invariant in every reachable state.
\<close>

locale step_system =
  fixes init :: "'s \<Rightarrow> bool"
    and step :: "'s \<Rightarrow> 's \<Rightarrow> bool"
    and inv :: "'s \<Rightarrow> bool"
  assumes inv_init: "init s \<Longrightarrow> inv s"
    and inv_step: "step s t \<Longrightarrow> inv s \<Longrightarrow> inv t"
begin

lemma inv_steps: "step\<^sup>*\<^sup>* s t \<Longrightarrow> inv s \<Longrightarrow> inv t"
  by (induction rule: rtranclp_induct) (auto intro: inv_step)

lemma inv_reachable: "init s \<Longrightarrow> step\<^sup>*\<^sup>* s t \<Longrightarrow> inv t"
  by (blast intro: inv_init inv_steps)

end

text \<open>
  A refinement map: every step of the detailed relation is a step of the abstract one, or
  none, between the images of its states. Then runs are mapped to runs, and the invariants
  of the abstract relation hold of the images.
\<close>

locale refinement_map =
  fixes step :: "'s \<Rightarrow> 's \<Rightarrow> bool"
    and abs_step :: "'a \<Rightarrow> 'a \<Rightarrow> bool"
    and img :: "'s \<Rightarrow> 'a"
  assumes img_step: "step s t \<Longrightarrow> abs_step\<^sup>=\<^sup>= (img s) (img t)"
begin

lemma img_steps: "step\<^sup>*\<^sup>* s t \<Longrightarrow> abs_step\<^sup>*\<^sup>* (img s) (img t)"
  by (induction rule: rtranclp_induct) (auto dest!: img_step intro: rtranclp.rtrancl_into_rtrancl)

end

section \<open>Fair runs\<close>

text \<open>
  An infinite run is a function from the natural numbers. An action is weakly fair in it if
  again and again it is disabled or taken: an action that stays enabled is taken.
\<close>

definition weakly_fair :: "('s \<Rightarrow> 's \<Rightarrow> bool) \<Rightarrow> (nat \<Rightarrow> 's) \<Rightarrow> bool" where
  "weakly_fair act rs \<longleftrightarrow> (\<forall>k. \<exists>j \<ge> k. (\<nexists>s. act (rs j) s) \<or> act (rs j) (rs (Suc j)))"

text \<open>The rule for weak fairness: a condition that enables the action and ends only by it leads
  to the action.\<close>

lemma weakly_fair_taken:
  assumes fair: "weakly_fair act rs" and k: "P (rs k)"
    and en: "\<And>j. k \<le> j \<Longrightarrow> P (rs j) \<Longrightarrow> \<exists>s. act (rs j) s"
    and keep: "\<And>j. k \<le> j \<Longrightarrow> P (rs j) \<Longrightarrow> \<not> act (rs j) (rs (Suc j)) \<Longrightarrow> P (rs (Suc j))"
  obtains j where "k \<le> j" "P (rs j)" "act (rs j) (rs (Suc j))"
proof (rule ccontr)
  assume no: "\<not> thesis"
  have P: "P (rs (k + d))" for d
  proof (induction d)
    case (Suc d)
    have "\<not> act (rs (k + d)) (rs (Suc (k + d)))" using no that [OF _ Suc.IH] by auto
    from keep [OF _ Suc.IH this] show ?case by simp
  qed (simp add: k)
  obtain j where j: "k \<le> j" "(\<nexists>s. act (rs j) s) \<or> act (rs j) (rs (Suc j))" using fair unfolding weakly_fair_def by blast
  then have "P (rs j)" using P [of "j - k"] by simp
  from j(2) en [OF j(1) this] that [OF j(1) this] no show False by blast
qed

text \<open>A bounded quantity that never decreases is constant from some point on.\<close>

lemma mono_bounded_stable:
  fixes f :: "nat \<Rightarrow> nat"
  assumes "mono f" "\<And>k. f k \<le> b"
  obtains j where "k \<le> j" "\<forall>i \<ge> j. f i = f j"
proof -
  obtain j where j: "k \<le> j" "\<forall>i. k \<le> i \<longrightarrow> f i \<le> f j"
    using ex_has_greatest_nat [of "\<lambda>j. k \<le> j" k f "Suc b"] assms(2) by (auto simp: less_Suc_eq_le)
  show ?thesis
  proof (rule that [OF j(1)])
    show "\<forall>i \<ge> j. f i = f j" using j monoD [OF assms(1)] by (metis le_trans le_antisym)
  qed
qed

text \<open>Finitely many conditions that hold from some point on hold together from some point on.\<close>

lemma eventually_all:
  assumes "finite S" "\<And>x. x \<in> S \<Longrightarrow> \<exists>j \<ge> k. Q x j" "\<And>x i j. i \<le> j \<Longrightarrow> Q x i \<Longrightarrow> Q x j"
  shows "\<exists>j \<ge> k. \<forall>x \<in> S. Q x (j :: nat)"
  using assms(1,2)
proof (induction S rule: finite_induct)
  case (insert a S)
  then obtain i j where "k \<le> i" "Q a i" "k \<le> j" "\<forall>x \<in> S. Q x j" by blast
  then show ?case using assms(3) [of i "max i j"] assms(3) [of j "max i j"] by (intro exI [of _ "max i j"]) auto
qed auto

text \<open>A finite run is continued by resting in its last state.\<close>

lemma rests_forever:
  assumes "step\<^sup>*\<^sup>* a b"
  shows "\<exists>rs m. rs 0 = a \<and> (\<forall>k. step\<^sup>=\<^sup>= (rs k) (rs (Suc k))) \<and> (\<forall>k \<ge> m. rs k = b)"
  using assms
proof (induction rule: converse_rtranclp_induct)
  case base
  then show ?case by (intro exI [of _ "\<lambda>_. b"]) simp
next
  case (step a c)
  then obtain rs m where "rs 0 = c" "\<forall>k. step\<^sup>=\<^sup>= (rs k) (rs (Suc k))" "\<forall>k \<ge> m. rs k = b" by blast
  then show ?case using step.hyps(1)
    by (intro exI [of _ "case_nat a rs"] exI [of _ "Suc m"]) (auto split: nat.splits)
qed

lemma weakly_fair_rest: "(\<And>k. m \<le> k \<Longrightarrow> rs k = r) \<Longrightarrow> \<nexists>s. act r s \<Longrightarrow> weakly_fair act rs"
  unfolding weakly_fair_def by (metis nat_le_linear)

end
