(* ===== verification/TinyPB.thy ===== *)
theory TinyPB
  imports Luce_Prelude
begin

text \<open>
  The TinyPB frame codec: \<open>luce/codec/tinypb_protocol.{h,cpp}\<close>,
  \<open>luce/codec/tinypb_coder.{h,cpp}\<close> and the byte order helpers of \<open>luce/net/util.h\<close>.

  \<open>int32_t\<close> fields are 32-bit words read through \<open>sint\<close>; the decoder's indices are
  \<open>size_t\<close>, i.e. 64-bit words, and a 32-bit length added to one is sign-extended, as in
  C++. The decoder copies lengths it read from the frame into fixed arrays on its stack;
  every copy that leaves its source or its target is an error value of the model.
\<close>

datatype pb_error = NullDeref | BadAlloc | HeapOverrun | ReadOverrun | StackOverrun
  | SignedOverflow | LengthError

section \<open>Byte order\<close>

definition byteswap32 :: "32 word \<Rightarrow> 32 word" where
  "byteswap32 w = le_word (rev (le_bytes w))"

definition GetNetInt32 :: "32 word \<Rightarrow> 32 word" where
  "GetNetInt32 num = byteswap32 num"

definition GetInt32ForNetByte :: "bytes \<Rightarrow> 32 word" where
  "GetInt32ForNetByte buf = byteswap32 (le_word (take 4 buf))"

section \<open>Protocol record\<close>

definition PB_START :: byte where "PB_START = 2"
definition PB_END :: byte where "PB_END = 3"

record tinypb =
  msg_id :: bytes
  pk_len :: "32 word"
  msg_id_len :: "32 word"
  method_name_len :: "32 word"
  method_name :: bytes
  err_code :: "32 word"
  err_info_len :: "32 word"
  err_info :: bytes
  pb_data :: bytes
  check_sum :: "32 word"
  parse_success :: bool

definition new_tinypb :: tinypb where
  "new_tinypb = \<lparr>msg_id = [], pk_len = 0, msg_id_len = 0, method_name_len = 0, method_name = [],
     err_code = 0, err_info_len = 0, err_info = [], pb_data = [], check_sum = 0,
     parse_success = False\<rparr>"

section \<open>Encoding\<close>

definition net32 :: "32 word \<Rightarrow> bytes" where
  "net32 w = le_bytes (GetNetInt32 w)"

text \<open>
  \<open>EncodeTinyPB\<close> allocates \<open>pk_len\<close> bytes, where \<open>pk_len\<close> is the sum of the lengths cut
  to \<open>int\<close>, and writes the fields one after another through a moving pointer; the
  result is the written buffer and the updated message.
\<close>

definition EncodeTinyPB :: "tinypb \<Rightarrow> pb_error + bytes \<times> tinypb" where
  "EncodeTinyPB message =
     (let message = (if msg_id message = [] then message\<lparr>msg_id := bytes_of_string ''123456789''\<rparr> else message);
          pk = (of_nat (2 + 24 + length (msg_id message) + length (method_name message) +
                 length (err_info message) + length (pb_data message)) :: 32 word);
          id_len = (of_nat (length (msg_id message)) :: 32 word);
          name_len = (of_nat (length (method_name message)) :: 32 word);
          info_len = (of_nat (length (err_info message)) :: 32 word);
          buf = [PB_START] @ net32 pk @ net32 id_len @ msg_id message @
                net32 name_len @ method_name message @ net32 (err_code message) @
                net32 info_len @ err_info message @ pb_data message @ net32 1 @ [PB_END]
      in if sint pk < 0 then Inl BadAlloc
         else if nat (sint pk) < length buf then Inl HeapOverrun
         else Inr (buf, message\<lparr>pk_len := pk, msg_id_len := id_len, method_name_len := name_len,
                err_info_len := info_len, parse_success := True\<rparr>))"

text \<open>\<open>Encode\<close>: \<open>in_message\<close> is \<open>None\<close> when the dynamic cast to the protocol type fails.\<close>

definition Encode :: "tinypb option \<Rightarrow> bytes \<Rightarrow> pb_error + bytes \<times> tinypb" where
  "Encode in_message out_buffer =
     (case in_message of
        None \<Rightarrow> Inl NullDeref
      | Some msg \<Rightarrow> try_bind (EncodeTinyPB msg) (\<lambda>(buf, msg'). Inr (out_buffer @ buf, msg')))"

section \<open>Decoding\<close>

text \<open>Reading \<open>n\<close> bytes of the frame from index \<open>i\<close>.\<close>

definition slice :: "bytes \<Rightarrow> u64 \<Rightarrow> u64 \<Rightarrow> pb_error + bytes" where
  "slice buf i n =
     (if unat i < length buf \<and> unat i + unat n \<le> length buf
      then Inr (take (unat n) (drop (unat i) buf)) else Inl ReadOverrun)"

definition get_int32 :: "bytes \<Rightarrow> u64 \<Rightarrow> pb_error + 32 word" where
  "get_int32 buf i = try_bind (slice buf i 4) (\<lambda>bs. Inr (GetInt32ForNetByte bs))"

text \<open>
  \<open>char a[cap] = {0}; memcpy(a, &in_buffer[i], len); std::string(a)\<close>: the length is
  sign-extended to \<open>size_t\<close>, and the string ends at the first zero byte of the array.
\<close>

definition copy_cstring :: "nat \<Rightarrow> bytes \<Rightarrow> u64 \<Rightarrow> 32 word \<Rightarrow> pb_error + bytes" where
  "copy_cstring cap buf i len =
     (let n = (scast len :: u64)
      in if cap < unat n then Inl StackOverrun
         else try_bind (slice buf i n) (\<lambda>bs.
           let arr = bs @ replicate (cap - unat n) 0
           in if 0 \<in> set arr then Inr (takeWhile (\<lambda>b. b \<noteq> 0) arr) else Inl StackOverrun))"

definition Decode :: "bytes \<Rightarrow> pb_error + tinypb option" where
  "Decode in_buffer =
   (let buffer_size = (of_nat (length in_buffer) :: u64) in
    if buffer_size \<le> 0 \<or> in_buffer ! 0 \<noteq> PB_START then Inr None
    else try_bind (get_int32 in_buffer 1) (\<lambda>pk.
    if sint pk = - (2 ^ 31) then Inl SignedOverflow else
    let end_index = (scast (pk - 1) :: u64) in
    if buffer_size - 1 \<noteq> end_index \<or> in_buffer ! unat end_index \<noteq> PB_END then Inr None
    else let msg_id_len_index = (5 :: u64) in
    if end_index \<le> msg_id_len_index then Inr None
    else try_bind (get_int32 in_buffer msg_id_len_index) (\<lambda>id_len.
    let msg_id_index = msg_id_len_index + 4 in
    try_bind (copy_cstring 100 in_buffer msg_id_index id_len) (\<lambda>id.
    let method_name_len_index = msg_id_index + scast id_len in
    if end_index \<le> method_name_len_index then Inr None
    else try_bind (get_int32 in_buffer method_name_len_index) (\<lambda>name_len.
    let method_name_index = method_name_len_index + 4 in
    try_bind (copy_cstring 512 in_buffer method_name_index name_len) (\<lambda>name.
    let err_code_index = method_name_index + scast name_len in
    if end_index \<le> err_code_index then Inr None
    else try_bind (get_int32 in_buffer err_code_index) (\<lambda>code.
    let err_info_len_index = err_code_index + 4 in
    if end_index \<le> err_info_len_index then Inr None
    else try_bind (get_int32 in_buffer err_info_len_index) (\<lambda>info_len.
    let err_info_index = err_info_len_index + 4 in
    try_bind (copy_cstring 512 in_buffer err_info_index info_len) (\<lambda>info.
    let pb_data_len = pk - name_len - id_len - info_len - 2 - 24;
        pb_data_index = err_info_index + scast info_len in
    if sint pb_data_len < 0 then Inl LengthError
    else try_bind (slice in_buffer pb_data_index (scast pb_data_len)) (\<lambda>data.
    Inr (Some (new_tinypb\<lparr>pk_len := pk, msg_id_len := id_len, msg_id := id,
      method_name_len := name_len, method_name := name, err_code := code,
      err_info_len := info_len, err_info := info, pb_data := data,
      parse_success := True\<rparr>))))))))))))"

section \<open>Byte order lemmas\<close>

lemma byteswap32_byteswap32 [simp]: "byteswap32 (byteswap32 w) = w"
  by (simp add: byteswap32_def le_bytes_le_word)

lemma length_net32 [simp]: "length (net32 w) = 4"
  by (simp add: net32_def)

lemma net32_not_Nil [simp]: "net32 w \<noteq> []"
  using length_net32 [of w] by (metis list.size(3) zero_neq_numeral)

lemma GetInt32ForNetByte_net32 [simp]: "GetInt32ForNetByte (net32 w) = w"
  by (simp add: GetInt32ForNetByte_def net32_def GetNetInt32_def)

lemma net32_eq: "net32 w = rev (le_bytes w)"
  by (simp add: net32_def GetNetInt32_def byteswap32_def le_bytes_le_word)

section \<open>Reading the fields of a frame\<close>

lemma slice_at:
  assumes "buf = pre @ bs @ post" "unat i = length pre" "unat n = length bs" "bs @ post \<noteq> []"
  shows "slice buf i n = Inr bs"
  using assms by (auto simp: slice_def)

lemma get_int32_at:
  assumes "buf = pre @ net32 w @ post" "unat i = length pre"
  shows "get_int32 buf i = Inr w"
proof -
  have "slice buf i 4 = Inr (net32 w)"
    using assms by (intro slice_at [where pre = pre and post = post]) (auto dest: arg_cong [where f = length])
  then show ?thesis by (simp add: get_int32_def)
qed

lemma unat_of_nat_u64: "n < 2 ^ 63 \<Longrightarrow> unat (of_nat n :: u64) = n"
  by (simp add: unat_of_nat)

lemma copy_cstring_at:
  assumes "buf = pre @ bs @ post" "unat i = length pre" "len = of_nat (length bs)"
    and "length bs < cap" "length bs < 2 ^ 31" "0 \<notin> set bs" "post \<noteq> []"
  shows "copy_cstring cap buf i len = Inr bs"
proof -
  have n: "unat (scast len :: u64) = length bs"
    using assms(3,5) by (simp add: scast_of_nat_u31 unat_of_nat_u64)
  then have "slice buf i (scast len) = Inr bs"
    using assms(1,2,7) by (intro slice_at [where pre = pre and post = post]) auto
  moreover have "takeWhile (\<lambda>b. b \<noteq> 0) (bs @ replicate (cap - length bs) 0) = bs"
    using assms(4,6) by (cases "cap - length bs") (auto simp: takeWhile_tail takeWhile_eq_all_conv)
  ultimately show ?thesis
    using n assms(4) by (simp add: copy_cstring_def Let_def)
qed

section \<open>Frames\<close>

text \<open>The layout of a frame, as \<open>EncodeTinyPB\<close> writes it.\<close>

definition frame :: "bytes \<Rightarrow> bytes \<Rightarrow> 32 word \<Rightarrow> bytes \<Rightarrow> bytes \<Rightarrow> bytes" where
  "frame mid name code info data =
     [PB_START] @ net32 (of_nat (26 + length mid + length name + length info + length data)) @
     net32 (of_nat (length mid)) @ mid @ net32 (of_nat (length name)) @ name @ net32 code @
     net32 (of_nat (length info)) @ info @ data @ net32 1 @ [PB_END]"

lemma length_frame:
  "length (frame mid name code info data) = 26 + length mid + length name + length info + length data"
  by (simp add: frame_def)

lemma frame_indices:
  assumes "26 + a + b + c < (2::nat) ^ 31"
  shows "unat (5 + 4 + of_nat a :: u64) = 9 + a"
    and "unat (5 + 4 + of_nat a + 4 :: u64) = 13 + a"
    and "unat (5 + 4 + of_nat a + 4 + of_nat b :: u64) = 13 + a + b"
    and "unat (5 + 4 + of_nat a + 4 + of_nat b + 4 :: u64) = 17 + a + b"
    and "unat (5 + 4 + of_nat a + 4 + of_nat b + 4 + 4 :: u64) = 21 + a + b"
    and "unat (5 + 4 + of_nat a + 4 + of_nat b + 4 + 4 + of_nat c :: u64) = 21 + a + b + c"
proof -
  have key: "unat (of_nat k :: u64) = k" if "k < 2 ^ 31" for k
    using that by (intro unat_of_nat_u64) simp
  show "unat (5 + 4 + of_nat a :: u64) = 9 + a" using key [of "9 + a"] assms by simp
  show "unat (5 + 4 + of_nat a + 4 :: u64) = 13 + a" using key [of "13 + a"] assms by simp
  show "unat (5 + 4 + of_nat a + 4 + of_nat b :: u64) = 13 + a + b"
    using key [of "13 + a + b"] assms by (simp add: algebra_simps)
  show "unat (5 + 4 + of_nat a + 4 + of_nat b + 4 :: u64) = 17 + a + b"
    using key [of "17 + a + b"] assms by (simp add: algebra_simps)
  show "unat (5 + 4 + of_nat a + 4 + of_nat b + 4 + 4 :: u64) = 21 + a + b"
    using key [of "21 + a + b"] assms by (simp add: algebra_simps)
  show "unat (5 + 4 + of_nat a + 4 + of_nat b + 4 + 4 + of_nat c :: u64) = 21 + a + b + c"
    using key [of "21 + a + b + c"] assms by (simp add: algebra_simps)
qed

lemma frame_end:
  assumes "length (frame mid name code info data) < 2 ^ 31"
  shows "0 < (of_nat (length (frame mid name code info data)) :: u64)"
    and "(of_nat (length (frame mid name code info data)) :: u64) - 1 =
      scast ((of_nat (length (frame mid name code info data)) :: 32 word) - 1)"
    and "unat (scast ((of_nat (length (frame mid name code info data)) :: 32 word) - 1) :: u64) =
      length (frame mid name code info data) - 1"
    and "sint (of_nat (length (frame mid name code info data)) :: 32 word) \<noteq> - (2 ^ 31)"
proof -
  let ?n = "length (frame mid name code info data)"
  have n0: "1 \<le> ?n" by (simp only: length_frame)
  have p: "(of_nat ?n :: 32 word) - 1 = of_nat (?n - 1)" "(of_nat ?n :: u64) - 1 = of_nat (?n - 1)"
    by (simp_all only: of_nat_diff [OF n0] of_nat_1)
  have sc: "(scast ((of_nat ?n :: 32 word) - 1) :: u64) = of_nat (?n - 1)"
    unfolding p(1) using assms by (intro scast_of_nat_u31) simp
  show "0 < (of_nat ?n :: u64)"
    using assms n0 by (auto simp: word_less_nat_alt unat_of_nat_u64 Suc_le_length_iff)
  show "(of_nat ?n :: u64) - 1 = scast ((of_nat ?n :: 32 word) - 1)"
    by (simp only: sc p(2))
  show "unat (scast ((of_nat ?n :: 32 word) - 1) :: u64) = ?n - 1"
    unfolding sc using assms by (intro unat_of_nat_u64) simp
  show "sint (of_nat ?n :: 32 word) \<noteq> - (2 ^ 31)"
    using assms by (simp add: sint_of_nat_u31)
qed

lemma frame_nth:
  "frame mid name code info data ! 0 = PB_START"
  "frame mid name code info data ! (length (frame mid name code info data) - 1) = PB_END"
  by (simp_all add: frame_def nth_append)

lemma frame_data_len:
  "(of_nat (length (frame mid name code info data)) :: 32 word) - of_nat (length name) -
     of_nat (length mid) - of_nat (length info) - 2 - 24 = of_nat (length data)"
  by (simp add: length_frame)

text \<open>Every read of the decoder at its place in a buffer laid out like a frame.\<close>

lemma frame_reads:
  fixes mid name info data :: bytes and pk code :: "32 word"
  assumes buf: "buf = [PB_START] @ net32 pk @ net32 (of_nat (length mid)) @ mid @
      net32 (of_nat (length name)) @ name @ net32 code @ net32 (of_nat (length info)) @ info @
      data @ net32 1 @ [PB_END]"
    and small: "length mid < 100" "length name < 512" "length info < 512"
    and no0: "0 \<notin> set mid" "0 \<notin> set name" "0 \<notin> set info"
    and short: "length data < 2 ^ 31" "26 + length mid + length name + length info < 2 ^ 31"
  shows "get_int32 buf 1 = Inr pk"
    and "get_int32 buf 5 = Inr (of_nat (length mid))"
    and "copy_cstring 100 buf (5 + 4) (of_nat (length mid)) = Inr mid"
    and "get_int32 buf (5 + 4 + of_nat (length mid)) = Inr (of_nat (length name))"
    and "copy_cstring 512 buf (5 + 4 + of_nat (length mid) + 4) (of_nat (length name)) = Inr name"
    and "get_int32 buf (5 + 4 + of_nat (length mid) + 4 + of_nat (length name)) = Inr code"
    and "get_int32 buf (5 + 4 + of_nat (length mid) + 4 + of_nat (length name) + 4) =
      Inr (of_nat (length info))"
    and "copy_cstring 512 buf (5 + 4 + of_nat (length mid) + 4 + of_nat (length name) + 4 + 4)
      (of_nat (length info)) = Inr info"
    and "slice buf (5 + 4 + of_nat (length mid) + 4 + of_nat (length name) + 4 + 4 +
      of_nat (length info)) (of_nat (length data)) = Inr data"
proof -
  note ix = frame_indices [OF short(2)]
  let ?p1 = "[PB_START] @ net32 pk"
  let ?p2 = "?p1 @ net32 (of_nat (length mid))"
  let ?p4 = "?p2 @ mid @ net32 (of_nat (length name))"
  let ?p7 = "?p4 @ name @ net32 code"
  let ?p8 = "?p7 @ net32 (of_nat (length info))"
  show "get_int32 buf 1 = Inr pk"
    by (rule get_int32_at [where pre = "[PB_START]"]) (simp_all add: buf)
  show "get_int32 buf 5 = Inr (of_nat (length mid))"
    by (rule get_int32_at [where pre = ?p1]) (simp_all add: buf)
  show "copy_cstring 100 buf (5 + 4) (of_nat (length mid)) = Inr mid"
    by (rule copy_cstring_at [where pre = ?p2], simp only: buf append_assoc) (use small no0 in simp_all)
  show "get_int32 buf (5 + 4 + of_nat (length mid)) = Inr (of_nat (length name))"
    by (rule get_int32_at [where pre = "?p2 @ mid"]) (simp only: buf append_assoc, simp only: ix, simp)
  show "copy_cstring 512 buf (5 + 4 + of_nat (length mid) + 4) (of_nat (length name)) = Inr name"
    by (rule copy_cstring_at [where pre = ?p4], simp only: buf append_assoc, simp only: ix)
      (use small no0 in simp_all)
  show "get_int32 buf (5 + 4 + of_nat (length mid) + 4 + of_nat (length name)) = Inr code"
    by (rule get_int32_at [where pre = "?p4 @ name"]) (simp only: buf append_assoc, simp only: ix, simp)
  show "get_int32 buf (5 + 4 + of_nat (length mid) + 4 + of_nat (length name) + 4) =
      Inr (of_nat (length info))"
    by (rule get_int32_at [where pre = ?p7]) (simp only: buf append_assoc, simp only: ix, simp)
  show "copy_cstring 512 buf (5 + 4 + of_nat (length mid) + 4 + of_nat (length name) + 4 + 4)
      (of_nat (length info)) = Inr info"
    by (rule copy_cstring_at [where pre = ?p8], simp only: buf append_assoc, simp only: ix)
      (use small no0 in simp_all)
  show "slice buf (5 + 4 + of_nat (length mid) + 4 + of_nat (length name) + 4 + 4 +
      of_nat (length info)) (of_nat (length data)) = Inr data"
    by (rule slice_at [where pre = "?p8 @ info"], simp only: buf append_assoc, simp only: ix)
      (use short in \<open>simp_all add: unat_of_nat_u64\<close>)
qed

lemma Decode_frame:
  assumes "length mid < 100" "length name < 512" "length info < 512"
    and "0 \<notin> set mid" "0 \<notin> set name" "0 \<notin> set info"
    and short: "length (frame mid name code info data) < 2 ^ 31"
  shows "Decode (frame mid name code info data) =
    Inr (Some (new_tinypb\<lparr>pk_len := of_nat (length (frame mid name code info data)),
      msg_id_len := of_nat (length mid), msg_id := mid,
      method_name_len := of_nat (length name), method_name := name, err_code := code,
      err_info_len := of_nat (length info), err_info := info, pb_data := data,
      parse_success := True\<rparr>))"
proof -
  let ?a = "length mid" and ?b = "length name" and ?c = "length info" and ?d = "length data"
  let ?buf = "frame mid name code info data"
  define pk where "pk = (of_nat (length ?buf) :: 32 word)"
  have n: "26 + ?a + ?b + ?c + ?d < 2 ^ 31" using short by (simp only: length_frame)
  have small: "26 + ?a + ?b + ?c < 2 ^ 31" "?d < 2 ^ 31" using n by linarith+
  note ix = frame_indices [OF small(1)]
  have sc: "(scast (of_nat k :: 32 word) :: u64) = of_nat k" if "k \<in> {?a, ?b, ?c, ?d}" for k
    using that n by (intro scast_of_nat_u31) auto
  have before_end: "\<not> (scast (pk - 1) :: u64) \<le> i" if "unat i < length ?buf - 1" for i
    using that frame_end(3) [OF short] by (simp add: word_le_nat_alt pk_def)
  have buf: "?buf = [PB_START] @ net32 pk @ net32 (of_nat ?a) @ mid @ net32 (of_nat ?b) @ name @
      net32 code @ net32 (of_nat ?c) @ info @ data @ net32 1 @ [PB_END]"
    unfolding pk_def length_frame by (simp only: frame_def)
  note r = frame_reads [OF buf assms(1-6) small(2,1)]
  have data_len: "pk - of_nat ?b - of_nat ?a - of_nat ?c - 2 - 24 = of_nat ?d"
    unfolding pk_def by (rule frame_data_len)
  have "\<not> sint (of_nat ?d :: 32 word) < 0" using small by (simp add: sint_of_nat_u31)
  moreover have "\<not> (scast (pk - 1) :: u64) \<le> 5"
    "\<not> (scast (pk - 1) :: u64) \<le> 5 + 4 + of_nat ?a"
    "\<not> (scast (pk - 1) :: u64) \<le> 5 + 4 + of_nat ?a + 4 + of_nat ?b"
    "\<not> (scast (pk - 1) :: u64) \<le> 5 + 4 + of_nat ?a + 4 + of_nat ?b + 4"
    by (rule before_end; simp only: ix length_frame; simp)+
  ultimately show ?thesis
    using frame_end [OF short, folded pk_def] frame_nth [of mid name code info data]
    by (simp only: Decode_def Let_def r try_bind_simps sc insert_iff simp_thms data_len
        if_True if_False not_le [symmetric]) (simp add: pk_def)
qed

section \<open>Properties\<close>

text \<open>What the encoder writes and records, once the message has an id.\<close>

lemma EncodeTinyPB_frame:
  assumes "msg_id m \<noteq> []"
    and "length (frame (msg_id m) (method_name m) (err_code m) (err_info m) (pb_data m)) < 2 ^ 31"
  shows "EncodeTinyPB m = Inr (frame (msg_id m) (method_name m) (err_code m) (err_info m) (pb_data m),
    m\<lparr>pk_len := of_nat (length (frame (msg_id m) (method_name m) (err_code m) (err_info m) (pb_data m))),
      msg_id_len := of_nat (length (msg_id m)), method_name_len := of_nat (length (method_name m)),
      err_info_len := of_nat (length (err_info m)), parse_success := True\<rparr>)"
proof -
  let ?n = "26 + length (msg_id m) + length (method_name m) + length (err_info m) + length (pb_data m)"
  have "?n < 2 ^ 31" using assms(2) by (simp only: length_frame)
  then have "sint (of_nat ?n :: 32 word) = int ?n" by (rule sint_of_nat_u31)
  moreover have "2 + 24 + length (msg_id m) + length (method_name m) + length (err_info m) +
      length (pb_data m) = ?n" by simp
  ultimately show ?thesis
    unfolding EncodeTinyPB_def Let_def if_not_P [OF assms(1)] length_frame frame_def
    by (simp only:) simp
qed

definition fits_decoder :: "tinypb \<Rightarrow> bool" where
  "fits_decoder m \<longleftrightarrow> msg_id m \<noteq> [] \<and> length (msg_id m) < 100 \<and> length (method_name m) < 512 \<and>
     length (err_info m) < 512 \<and> 0 \<notin> set (msg_id m) \<and> 0 \<notin> set (method_name m) \<and>
     0 \<notin> set (err_info m) \<and>
     26 + length (msg_id m) + length (method_name m) + length (err_info m) + length (pb_data m) < 2 ^ 31"

text \<open>
  Claim C16. Decoding an encoded message returns it: for a message with a non-empty id whose id,
  method name and error text are free of zero bytes and fit the decoder's stack arrays (99, 511
  and 511 bytes) and whose frame is shorter than 2^31 bytes, \<open>Encode\<close> into an empty buffer followed by \<open>Decode\<close> yields all
  the fields, and the lengths the encoder recorded in the message.
\<close>

theorem tinypb_roundtrip:
  assumes "fits_decoder m"
  shows "\<exists>buf m'. Encode (Some m) [] = Inr (buf, m') \<and>
    Decode buf = Inr (Some (m'\<lparr>check_sum := 0\<rparr>)) \<and>
    msg_id m' = msg_id m \<and> method_name m' = method_name m \<and> err_code m' = err_code m \<and>
    err_info m' = err_info m \<and> pb_data m' = pb_data m"
proof -
  let ?f = "frame (msg_id m) (method_name m) (err_code m) (err_info m) (pb_data m)"
  have short: "length ?f < 2 ^ 31" using assms by (simp add: fits_decoder_def length_frame)
  have enc: "Encode (Some m) [] = Inr (?f, m\<lparr>pk_len := of_nat (length ?f),
      msg_id_len := of_nat (length (msg_id m)), method_name_len := of_nat (length (method_name m)),
      err_info_len := of_nat (length (err_info m)), parse_success := True\<rparr>)"
    using assms short by (simp add: Encode_def EncodeTinyPB_frame fits_decoder_def)
  have "Decode ?f = Inr (Some (m\<lparr>pk_len := of_nat (length ?f),
      msg_id_len := of_nat (length (msg_id m)), method_name_len := of_nat (length (method_name m)),
      err_info_len := of_nat (length (err_info m)), parse_success := True, check_sum := 0\<rparr>))"
    using assms short by (simp add: fits_decoder_def Decode_frame new_tinypb_def)
  with enc show ?thesis by simp
qed

theorem tinypb_roundtrip_witness:
  "\<exists>buf m'. Encode (Some (new_tinypb\<lparr>msg_id := [49, 50], method_name := [97], pb_data := [0, 7]\<rparr>)) [] =
      Inr (buf, m') \<and>
    Decode buf = Inr (Some (m'\<lparr>check_sum := 0\<rparr>)) \<and>
    msg_id m' = msg_id (new_tinypb\<lparr>msg_id := [49, 50], method_name := [97], pb_data := [0, 7]\<rparr>) \<and>
    method_name m' = method_name (new_tinypb\<lparr>msg_id := [49, 50], method_name := [97], pb_data := [0, 7]\<rparr>) \<and>
    err_code m' = err_code (new_tinypb\<lparr>msg_id := [49, 50], method_name := [97], pb_data := [0, 7]\<rparr>) \<and>
    err_info m' = err_info (new_tinypb\<lparr>msg_id := [49, 50], method_name := [97], pb_data := [0, 7]\<rparr>) \<and>
    pb_data m' = pb_data (new_tinypb\<lparr>msg_id := [49, 50], method_name := [97], pb_data := [0, 7]\<rparr>)"
  by (rule tinypb_roundtrip) (simp add: fits_decoder_def new_tinypb_def)

lemma get_int32_frame:
  assumes "length (frame mid name code info data) < 2 ^ 31"
  shows "get_int32 (frame mid name code info data) 1 = Inr (of_nat (length (frame mid name code info data)))"
    and "get_int32 (frame mid name code info data) 5 = Inr (of_nat (length mid))"
proof -
  let ?pk = "of_nat (length (frame mid name code info data)) :: 32 word"
  have "frame mid name code info data = [PB_START] @ net32 ?pk @ net32 (of_nat (length mid)) @ mid @
      net32 (of_nat (length name)) @ name @ net32 code @ net32 (of_nat (length info)) @ info @
      data @ net32 1 @ [PB_END]"
    unfolding length_frame by (simp only: frame_def)
  then show "get_int32 (frame mid name code info data) 1 = Inr ?pk"
    "get_int32 (frame mid name code info data) 5 = Inr (of_nat (length mid))"
    by (auto intro: get_int32_at [where pre = "[PB_START]"] get_int32_at [where pre = "[PB_START] @ net32 ?pk"])
qed

text \<open>
  The decoder trusts the id length of the frame: a message whose id is longer than
  the 100-byte array is encoded without complaint, and decoding the encoder's own output
  overruns the array on the stack.
\<close>

theorem tinypb_long_id_overruns:
  assumes "100 < length (msg_id m)"
    and "26 + length (msg_id m) + length (method_name m) + length (err_info m) + length (pb_data m) < 2 ^ 31"
  shows "\<exists>buf m'. Encode (Some m) [] = Inr (buf, m') \<and> Decode buf = Inl StackOverrun"
proof -
  let ?f = "frame (msg_id m) (method_name m) (err_code m) (err_info m) (pb_data m)"
  have short: "length ?f < 2 ^ 31" using assms by (simp add: length_frame)
  have id: "msg_id m \<noteq> []" using assms(1) by auto
  have enc: "\<exists>m'. Encode (Some m) [] = Inr (?f, m')"
    using EncodeTinyPB_frame [OF id short] by (simp add: Encode_def)
  have "\<not> (scast ((of_nat (length ?f) :: 32 word) - 1) :: u64) \<le> 5"
    using frame_end(3) [OF short] assms(1) by (simp add: word_le_nat_alt length_frame)
  moreover have "100 < unat (scast (of_nat (length (msg_id m)) :: 32 word) :: u64)"
    using assms by (simp add: scast_of_nat_u31 unat_of_nat_u64)
  ultimately have "Decode ?f = Inl StackOverrun"
    using frame_end [OF short] frame_nth [of "msg_id m"] get_int32_frame [OF short]
    by (simp add: Decode_def Let_def copy_cstring_def)
  with enc show ?thesis by blast
qed

theorem tinypb_long_id_overruns_witness:
  "\<exists>buf m'. Encode (Some (new_tinypb\<lparr>msg_id := replicate 101 65\<rparr>)) [] = Inr (buf, m') \<and>
     Decode buf = Inl StackOverrun"
  by (rule tinypb_long_id_overruns) (simp_all add: new_tinypb_def)

text \<open>
  A frame whose length field does not state the number of bytes received is
  dropped: the decoder returns without a message, whatever the other bytes are.
\<close>

theorem tinypb_wrong_length_rejected:
  assumes "length rest + 5 < 2 ^ 31" "pk \<noteq> of_nat (length rest + 5)" "sint pk \<noteq> - (2 ^ 31)"
  shows "Decode ([PB_START] @ net32 pk @ rest) = Inr None"
proof -
  let ?buf = "[PB_START] @ net32 pk @ rest"
  have r: "get_int32 ?buf 1 = Inr pk"
    by (rule get_int32_at [where pre = "[PB_START]"]) simp_all
  have "(of_nat (length ?buf) :: u64) - 1 = of_nat (length rest + 4)"
    by simp
  also have "\<dots> = scast (of_nat (length rest + 4) :: 32 word)"
    using assms(1) by (intro scast_of_nat_u31 [symmetric]) simp
  finally have "(of_nat (length ?buf) :: u64) - 1 = scast (of_nat (length rest + 4) :: 32 word)" .
  moreover have "scast (of_nat (length rest + 4) :: 32 word) \<noteq> (scast (pk - 1) :: u64)"
  proof
    assume "scast (of_nat (length rest + 4) :: 32 word) = (scast (pk - 1) :: u64)"
    then have "of_nat (length rest + 4) = pk - 1"
      by (simp only: scast_32_64_inject)
    then have "pk = of_nat (length rest + 5)" by (simp add: algebra_simps)
    with assms(2) show False by simp
  qed
  ultimately show ?thesis
    using r assms(3) by (simp add: Decode_def Let_def)
qed

theorem tinypb_wrong_length_rejected_witness:
  "Decode ([PB_START] @ net32 12 @ [3]) = Inr None"
  by (rule tinypb_wrong_length_rejected) simp_all

end
