(* ===== verification/String_Util.thy ===== *)
theory String_Util
  imports Luce_Prelude "HOL-Library.Sublist"
begin

text \<open>
  \<open>luce/common/string_util.{h,cpp}\<close> on \<^typ>\<open>string\<close>.

  \<open>std::string_view::find\<close> and its relatives are modelled as index-valued searches
  (\<open>None\<close> is \<open>npos\<close>). The loop of \<open>Split\<close> is a partial function: with an empty delimiter
  it never ends, which is the value \<open>None\<close>. The reference \<open>split_parts\<close> cuts a string at
  the successive leftmost occurrences of a delimiter.
\<close>

section \<open>Searching\<close>

fun find_sub :: "string \<Rightarrow> string \<Rightarrow> nat option" where
  "find_sub pat [] = (if pat = [] then Some 0 else None)"
| "find_sub pat (c # s) = (if prefix pat (c # s) then Some 0 else map_option Suc (find_sub pat s))"

definition find_from :: "string \<Rightarrow> string \<Rightarrow> nat \<Rightarrow> nat option" where
  "find_from pat s p = (if length s < p then None else map_option ((+) p) (find_sub pat (drop p s)))"

fun find_first_not_of :: "char \<Rightarrow> string \<Rightarrow> nat option" where
  "find_first_not_of c [] = None"
| "find_first_not_of c (x # s) = (if x \<noteq> c then Some 0 else map_option Suc (find_first_not_of c s))"

definition find_last_not_of :: "char \<Rightarrow> string \<Rightarrow> nat option" where
  "find_last_not_of c s = map_option (\<lambda>i. length s - 1 - i) (find_first_not_of c (rev s))"

definition substr :: "string \<Rightarrow> nat \<Rightarrow> nat \<Rightarrow> string" where
  "substr s pos n = take n (drop pos s)"

section \<open>The operations\<close>

definition join_append :: "string \<Rightarrow> bool \<times> string \<Rightarrow> string \<Rightarrow> bool \<times> string" where
  "join_append delim = (\<lambda>(first, result) item. (False, (if first then result else result @ delim) @ item))"

definition JoinImpl :: "string list \<Rightarrow> string \<Rightarrow> string" where
  "JoinImpl parts delim =
     (let size = sum_list (map (\<lambda>item. length item + length delim) parts)
      in if size = 0 then [] else snd (foldl (join_append delim) (True, []) parts))"

definition Join :: "string list \<Rightarrow> string \<Rightarrow> string" where
  "Join parts delim = JoinImpl parts delim"

definition StartsWith :: "string \<Rightarrow> string \<Rightarrow> bool" where
  "StartsWith s pre \<longleftrightarrow> length pre \<le> length s \<and> substr s 0 (length pre) = pre"

definition EndsWith :: "string \<Rightarrow> string \<Rightarrow> bool" where
  "EndsWith s suf \<longleftrightarrow> length suf \<le> length s \<and> drop (length s - length suf) s = suf"

fun Replace_loop :: "nat \<Rightarrow> nat option \<Rightarrow> string \<Rightarrow> string \<Rightarrow> string \<Rightarrow> string" where
  "Replace_loop count None target from to = target"
| "Replace_loop 0 (Some p) target from to = target"
| "Replace_loop (Suc count) (Some p) target from to =
     (let target' = take p target @ to @ drop (p + length from) target
      in Replace_loop count (find_from from target' (p + length to)) target' from to)"

definition Replace :: "string \<Rightarrow> string \<Rightarrow> string \<Rightarrow> nat \<Rightarrow> string" where
  "Replace target from to count = Replace_loop count (find_sub from target) target from to"

definition Trim :: "string \<Rightarrow> string" where
  "Trim s =
     (if s = [] then []
      else let start = (if hd s = CHR '' '' then find_first_not_of (CHR '' '') s else Some 0)
      in case start of
           None \<Rightarrow> []
         | Some st \<Rightarrow>
             let en = (if last s = CHR '' '' then the (find_last_not_of (CHR '' '') s) else length s)
             in substr s st (en - st + 1))"

partial_function (option) split_loop ::
  "string \<Rightarrow> bool \<Rightarrow> string \<Rightarrow> string list \<Rightarrow> string list option"
where
  "split_loop delim keep_empty current result =
     (let pos = find_sub delim current;
          result1 = (if pos \<noteq> Some 0 \<or> keep_empty
                     then result @ [case pos of None \<Rightarrow> current | Some p \<Rightarrow> take p current]
                     else result)
      in case pos of
           None \<Rightarrow> Some result1
         | Some p \<Rightarrow>
             (let current' = drop (p + length delim) current
              in if current' = [] then Some (if keep_empty then result1 @ [[]] else result1)
                 else split_loop delim keep_empty current' result1))"

definition Split :: "string \<Rightarrow> string \<Rightarrow> bool \<Rightarrow> string list option" where
  "Split s delim keep_empty = (if s = [] then Some [] else split_loop delim keep_empty s [])"

definition Split_char :: "string \<Rightarrow> char \<Rightarrow> bool \<Rightarrow> string list option" where
  "Split_char s delim keep_empty = Split s [delim] keep_empty"

definition Contains :: "string \<Rightarrow> string \<Rightarrow> bool" where
  "Contains s target =
     (if s = target then True else if s = [] then False else if target = [] then True
      else find_sub target s \<noteq> None)"

section \<open>Laws of searching\<close>

lemma find_sub_SomeD:
  "find_sub pat s = Some p \<Longrightarrow> p + length pat \<le> length s \<and> s = take p s @ pat @ drop (p + length pat) s"
proof (induction s arbitrary: p)
  case Nil
  then show ?case by (simp split: if_splits)
next
  case (Cons c s)
  show ?case
  proof (cases "prefix pat (c # s)")
    case True
    then obtain r where "c # s = pat @ r" by (auto elim: prefixE)
    moreover have "p = 0" using Cons.prems True by simp
    ultimately show ?thesis by simp
  next
    case False
    with Cons.prems obtain q where "p = Suc q" "find_sub pat s = Some q" by auto
    then show ?thesis using Cons.IH [of q] by simp
  qed
qed

lemma drop_found_shorter:
  "find_sub d s = Some p \<Longrightarrow> d \<noteq> [] \<Longrightarrow> length (drop (p + length d) s) < length s"
  using find_sub_SomeD [of d s p] by (cases d; cases s) auto

lemma find_sub_None: "find_sub pat s = None \<longleftrightarrow> \<not> sublist pat s"
  by (induction s) (auto simp: sublist_Cons_right)

lemma find_sub_leftmost:
  "find_sub pat s = Some p \<Longrightarrow> q < p \<Longrightarrow> \<not> prefix pat (drop q s)"
proof (induction s arbitrary: p q)
  case (Cons c s)
  then show ?case by (cases q) (auto split: if_splits)
qed (simp split: if_splits)

lemma find_sub_zero: "find_sub pat s = Some 0 \<longleftrightarrow> prefix pat s"
  by (cases s) auto

section \<open>The reference split\<close>

function split_parts :: "string \<Rightarrow> string \<Rightarrow> string list" where
  "split_parts delim s =
     (if delim = [] then [s]
      else case find_sub delim s of
             None \<Rightarrow> [s]
           | Some p \<Rightarrow> take p s # split_parts delim (drop (p + length delim) s))"
  by pat_completeness auto
termination
  by (relation "measure (\<lambda>(d, s). length s)") (auto dest: drop_found_shorter)

declare split_parts.simps [simp del]

lemma split_parts_not_Nil [simp]: "split_parts d s \<noteq> []"
  by (subst split_parts.simps) (simp split: option.splits)

lemma split_parts_empty [simp]: "split_parts d [] = [[]]"
  by (subst split_parts.simps) simp

lemma split_loop_split_parts:
  assumes "d \<noteq> []" "s \<noteq> []"
  shows "split_loop d keep s acc =
    Some (acc @ (if keep then split_parts d s else filter (\<lambda>x. x \<noteq> []) (split_parts d s)))"
  using assms(2)
proof (induction "length s" arbitrary: s acc rule: less_induct)
  case less
  show ?case
  proof (cases "find_sub d s")
    case None
    then show ?thesis
      using assms(1) less.prems by (simp add: split_loop.simps [of d keep s acc] split_parts.simps [of d s])
  next
    case (Some p)
    let ?r = "drop (p + length d) s"
    have parts: "split_parts d s = take p s # split_parts d ?r"
      using Some assms(1) by (simp add: split_parts.simps [of d s])
    have p: "p = 0 \<longleftrightarrow> take p s = []" using less.prems by auto
    show ?thesis
    proof (cases "?r = []")
      case True
      then show ?thesis
        using Some p parts less.prems by (simp add: split_loop.simps [of d keep s acc])
    next
      case False
      have "length ?r < length s" using Some assms(1) by (rule drop_found_shorter)
      note less.hyps [OF this False]
      then show ?thesis
        using Some p parts False by (simp add: split_loop.simps [of d keep s acc])
    qed
  qed
qed

lemma Split_split_parts:
  "d \<noteq> [] \<Longrightarrow> Split s d keep =
     Some (if s = [] then [] else if keep then split_parts d s
           else filter (\<lambda>x. x \<noteq> []) (split_parts d s))"
  by (simp add: Split_def split_loop_split_parts)

lemma split_loop_diverges:
  assumes "split_loop d keep s acc = Some r"
  shows "\<not> (d = [] \<and> s \<noteq> [])"
proof (rule split_loop.raw_induct [where P = "\<lambda>d keep s acc r. \<not> (d = [] \<and> s \<noteq> [])", OF _ assms])
  fix f d keep s acc r
  assume IH: "\<And>d keep s acc r. f d keep s acc = Some r \<Longrightarrow> \<not> (d = [] \<and> s \<noteq> [])"
    and eq: "(let pos = find_sub d s;
          result1 = (if pos \<noteq> Some 0 \<or> keep
                     then acc @ [case pos of None \<Rightarrow> s | Some p \<Rightarrow> take p s] else acc)
      in case pos of None \<Rightarrow> Some result1
         | Some p \<Rightarrow> (let current' = drop (p + length d) s
              in if current' = [] then Some (if keep then result1 @ [[]] else result1)
                 else f d keep current' result1)) = Some r"
  show "\<not> (d = [] \<and> s \<noteq> [])"
  proof
    assume ds: "d = [] \<and> s \<noteq> []"
    then have "find_sub d s = Some 0" by (simp add: find_sub_zero)
    with eq ds IH show False by (fastforce split: if_splits)
  qed
qed

section \<open>Joining\<close>

fun join_ref :: "string \<Rightarrow> string list \<Rightarrow> string" where
  "join_ref d [] = []"
| "join_ref d [p] = p"
| "join_ref d (p # q # ps) = p @ d @ join_ref d (q # ps)"

lemma join_ref_Cons: "ps \<noteq> [] \<Longrightarrow> join_ref d (p # ps) = p @ d @ join_ref d ps"
  by (cases ps) auto

lemma foldl_join_append:
  "snd (foldl (join_append d) (False, acc) ps) = (if ps = [] then acc else acc @ d @ join_ref d ps)"
  by (induction ps arbitrary: acc) (auto simp: join_append_def join_ref_Cons)

lemma Join_eq: "Join ps d = join_ref d ps"
proof (cases ps)
  case (Cons p qs)
  show ?thesis
  proof (cases "sum_list (map (\<lambda>item. length item + length d) ps) = 0")
    case True
    then have "d = []" "\<forall>p \<in> set ps. p = []" by (auto simp: Cons)
    then have "join_ref d ps = []" by (induction d ps rule: join_ref.induct) auto
    with True show ?thesis by (simp add: Join_def JoinImpl_def)
  next
    case False
    have "snd (foldl (join_append d) (True, []) ps) = snd (foldl (join_append d) (False, p) qs)"
      by (simp add: Cons join_append_def)
    then show ?thesis
      using False by (simp only: Join_def JoinImpl_def Let_def if_False foldl_join_append)
        (simp add: Cons join_ref_Cons)
  qed
qed (simp add: Join_def JoinImpl_def)

lemma join_split_parts: "d \<noteq> [] \<Longrightarrow> join_ref d (split_parts d s) = s"
proof (induction d s rule: split_parts.induct)
  case (1 d s)
  then show ?case
    using find_sub_SomeD [of d s]
    by (subst split_parts.simps) (auto simp: join_ref_Cons split: option.splits)
qed

lemma split_parts_no_delim: "d \<noteq> [] \<Longrightarrow> x \<in> set (split_parts d s) \<Longrightarrow> \<not> sublist d x"
proof (induction d s rule: split_parts.induct)
  case (1 d s)
  show ?case
  proof (cases "find_sub d s")
    case None
    then have "split_parts d s = [s]" "\<not> sublist d s"
      by (simp add: split_parts.simps [of d s]) (simp add: None flip: find_sub_None)
    then show ?thesis using "1.prems" by simp
  next
    case (Some p)
    have "\<not> sublist d (take p s)"
    proof
      assume "sublist d (take p s)"
      then obtain a b where ab: "take p s = a @ d @ b" by (auto simp: sublist_def)
      have "length a < p" using arg_cong [OF ab, of length] "1.prems"(1) by (cases d) (auto simp: min_def split: if_splits)
      moreover have "prefix d (drop (length a) s)"
        by (rule prefixI [of _ _ "b @ drop p s"]) (metis ab append_take_drop_id append_assoc append_eq_conv_conj)
      ultimately show False using find_sub_leftmost [OF Some] by blast
    qed
    then show ?thesis
      using "1.IH" "1.prems" Some by (auto simp: split_parts.simps [of d s])
  qed
qed

lemma find_sub_char: "c \<notin> set x \<Longrightarrow> find_sub [c] (x @ c # y) = Some (length x)"
  by (induction x) auto

lemma find_sub_char_None: "find_sub [c] x = None \<longleftrightarrow> c \<notin> set x"
  by (induction x) auto

lemma split_parts_join_char:
  "ps \<noteq> [] \<Longrightarrow> \<forall>p \<in> set ps. c \<notin> set p \<Longrightarrow> split_parts [c] (join_ref [c] ps) = ps"
proof (induction "[c]" ps rule: join_ref.induct)
  case (2 p)
  then have "find_sub [c] p = None" by (simp add: find_sub_char_None)
  then show ?case by (subst split_parts.simps) simp
next
  case (3 p q ps)
  then show ?case
    by (subst split_parts.simps) (simp add: find_sub_char)
qed simp

section \<open>Replacing\<close>

lemma Replace_loop_prefix:
  assumes "from \<noteq> []" "length s \<le> count"
  shows "Replace_loop count (map_option ((+) (length pre)) (find_sub from s)) (pre @ s) from to =
    pre @ join_ref to (split_parts from s)"
  using assms(2)
proof (induction count arbitrary: pre s)
  case 0
  then show ?case using assms(1) by simp
next
  case (Suc count)
  show ?case
  proof (cases "find_sub from s")
    case None
    then show ?thesis using assms(1) by (simp add: split_parts.simps [of "from" s])
  next
    case (Some p)
    let ?r = "drop (p + length from) s"
    let ?pre = "pre @ take p s @ to"
    have p: "p + length from \<le> length s" using find_sub_SomeD [OF Some] by simp
    have "length ?pre = length pre + p + length to" using p by simp
    then have "find_from from (?pre @ ?r) (length pre + p + length to) =
        map_option ((+) (length ?pre)) (find_sub from ?r)"
      by (metis append_eq_conv_conj find_from_def le_add1 length_append not_less)
    moreover have "length ?r \<le> count"
      using drop_found_shorter [OF Some assms(1)] Suc.prems by simp
    note Suc.IH [OF this, of ?pre]
    ultimately show ?thesis
      using Some p assms(1) by (simp add: split_parts.simps [of "from" s] join_ref_Cons)
  qed
qed

section \<open>Trimming\<close>

lemma find_first_not_of_eq:
  "find_first_not_of c s = (if \<forall>x \<in> set s. x = c then None else Some (length (takeWhile (\<lambda>x. x = c) s)))"
  by (induction s) auto

lemma dropWhile_drop: "dropWhile P s = drop (length (takeWhile P s)) s"
  by (metis append_eq_conv_conj takeWhile_dropWhile_id)

lemma rev_dropWhile_rev: "rev (dropWhile P (rev y)) = take (length y - length (takeWhile P (rev y))) y"
  by (simp add: dropWhile_drop rev_drop)

lemma Trim_eq: "Trim s = rev (dropWhile (\<lambda>x. x = CHR '' '') (rev (dropWhile (\<lambda>x. x = CHR '' '') s)))"
proof (cases "\<forall>x \<in> set s. x = CHR '' ''")
  case True
  then have "dropWhile (\<lambda>x. x = CHR '' '') s = []" by simp
  moreover have "s \<noteq> [] \<Longrightarrow> hd s = CHR '' ''" using True by simp
  ultimately show ?thesis using True by (simp only: Trim_def) (auto simp: find_first_not_of_eq)
next
  case False
  let ?P = "\<lambda>x. x = CHR '' ''"
  let ?st = "length (takeWhile ?P s)" and ?k = "length (takeWhile ?P (rev s))"
  have ne: "s \<noteq> []" using False by auto
  let ?y = "drop ?st s"
  obtain x where x: "x \<in> set ?y" "\<not> ?P x"
    using False by (metis (mono_tags, lifting) dropWhile_drop dropWhile_eq_Nil_conv hd_dropWhile hd_in_set)
  have "takeWhile ?P (rev s) = takeWhile ?P (rev ?y @ rev (take ?st s))"
    by (metis append_take_drop_id rev_append)
  also have "\<dots> = takeWhile ?P (rev ?y)" using x by (intro takeWhile_append1) auto
  finally have k: "takeWhile ?P (rev ?y) = takeWhile ?P (rev s)" ..
  have kl: "?k < length ?y"
  proof -
    have "takeWhile ?P (rev ?y) \<noteq> rev ?y" using x by (metis set_rev set_takeWhileD)
    then have "length (takeWhile ?P (rev ?y)) \<noteq> length (rev ?y)"
      by (metis append_Nil2 append_eq_conv_conj append_eq_append_conv takeWhile_dropWhile_id)
    then show ?thesis using k length_takeWhile_le [of ?P "rev ?y"] by simp
  qed
  have st: "(if hd s = CHR '' '' then find_first_not_of (CHR '' '') s else Some 0) = Some ?st"
    using False ne by (cases s) (auto simp: find_first_not_of_eq)
  have "take ((if last s = CHR '' '' then the (find_last_not_of (CHR '' '') s) else length s) - ?st + 1) ?y =
      take (length ?y - ?k) ?y"
  proof (cases "last s = CHR '' ''")
    case True
    have "find_last_not_of (CHR '' '') s = Some (length s - 1 - ?k)"
      using False by (auto simp: find_last_not_of_def find_first_not_of_eq)
    moreover have "(length s - 1 - ?k) - ?st + 1 = length ?y - ?k" using kl by simp
    ultimately show ?thesis using True by (simp only: if_True option.sel simp_thms)
  next
    case nsp: False
    then have "takeWhile ?P (rev s) = []" using ne by (cases s rule: rev_cases) auto
    then show ?thesis using nsp by simp
  qed
  then have "Trim s = take (length ?y - ?k) ?y"
    unfolding Trim_def Let_def st substr_def using ne by (simp only: if_False option.case)
  also have "\<dots> = rev (dropWhile ?P (rev ?y))"
    unfolding rev_dropWhile_rev k ..
  also have "?y = dropWhile ?P s" by (rule dropWhile_drop [symmetric])
  finally show ?thesis .
qed

lemma Contains_sublist: "Contains s t \<longleftrightarrow> sublist t s"
  using find_sub_None [of t s] by (auto simp: Contains_def)

lemma EndsWith_suffix: "EndsWith s t \<longleftrightarrow> suffix t s"
  by (auto simp: EndsWith_def suffix_def) (metis append_take_drop_id)

section \<open>Properties\<close>

text \<open>
  \<open>Split\<close> with a non-empty delimiter returns; the parts contain no delimiter and
  joining them with it gives the string back, and dropping the empty parts is the only
  effect of \<open>keep_empty = false\<close>.
\<close>

theorem Split_correct:
  assumes "delim \<noteq> []"
  shows "\<exists>parts. Split s delim True = Some parts \<and> Split s delim False = Some (filter (\<lambda>p. p \<noteq> []) parts) \<and>
    Join parts delim = s \<and> (\<forall>p \<in> set parts. \<not> sublist delim p)"
  using assms by (cases "s = []")
    (auto simp: Split_split_parts Join_eq join_split_parts split_parts_no_delim)

theorem Split_correct_witness:
  "\<exists>parts. Split ''a=1&&b=2'' ''&'' True = Some parts \<and>
    Split ''a=1&&b=2'' ''&'' False = Some (filter (\<lambda>p. p \<noteq> []) parts) \<and>
    Join parts ''&'' = ''a=1&&b=2'' \<and> (\<forall>p \<in> set parts. \<not> sublist ''&'' p)"
  by (rule Split_correct) simp

text \<open>
  Splitting at a character undoes joining with it, for a non-empty list of parts
  that do not contain the character (a single empty part excepted: it joins to the empty
  string, which splits into no parts).
\<close>

theorem Split_Join:
  assumes "\<forall>p \<in> set parts. c \<notin> set p" "parts \<noteq> [[]]"
  shows "Split_char (Join parts [c]) c True = Some parts"
proof (cases "parts = []")
  case True
  then show ?thesis by (simp add: Split_char_def Split_def Join_eq)
next
  case False
  have "join_ref [c] parts \<noteq> []"
    using False assms(2) by (cases parts rule: remdups_adj.cases) auto
  then show ?thesis
    using split_parts_join_char [OF False assms(1)] by (simp add: Split_char_def Join_eq Split_split_parts)
qed

theorem Split_Join_witness:
  "Split_char (Join [''GET'', ''/ping/'', ''HTTP/1.1''] [CHR '' '']) (CHR '' '') True =
     Some [''GET'', ''/ping/'', ''HTTP/1.1'']"
  by (rule Split_Join) simp_all

text \<open>
  With an empty delimiter \<open>Split\<close> never returns on a non-empty string.
\<close>

theorem Split_empty_delim_diverges:
  assumes "s \<noteq> []"
  shows "Split s [] keep_empty = None"
  using assms split_loop_diverges [of "[]" keep_empty s "[]"]
  by (cases "split_loop [] keep_empty s []") (auto simp: Split_def)

theorem Split_empty_delim_diverges_witness: "Split ''ab'' [] False = None"
  by (rule Split_empty_delim_diverges) simp

text \<open>
  \<open>Trim\<close> removes the leading and the trailing spaces and nothing else.
\<close>

theorem Trim_correct:
  "Trim s = rev (dropWhile (\<lambda>c. c = CHR '' '') (rev (dropWhile (\<lambda>c. c = CHR '' '') s)))"
  by (rule Trim_eq)

text \<open>
  Claim C30. \<open>Replace\<close> with a count that is not exhausted replaces every occurrence, left to
  right and without rescanning the replacement: it joins the parts between the
  occurrences with the replacement.
\<close>

theorem Replace_all:
  assumes "from \<noteq> []" "length target \<le> count"
  shows "Replace target from to count = Join (split_parts from target) to"
  using Replace_loop_prefix [OF assms, of "[]" to]
  by (simp add: Replace_def Join_eq option.map_ident [unfolded id_def] cong: option.map_cong)

theorem Replace_all_witness:
  "Replace ''aXbX'' ''X'' ''XX'' 10 = Join (split_parts ''X'' ''aXbX'') ''XX''"
  by (rule Replace_all) simp_all

text \<open>
  The predicates decide what their names say: prefix, suffix, and contiguous
  substring (the empty string is contained in every string).
\<close>

theorem string_predicates:
  "(StartsWith s t \<longleftrightarrow> prefix t s) \<and> (EndsWith s t \<longleftrightarrow> suffix t s) \<and> (Contains s t \<longleftrightarrow> sublist t s)"
proof (intro conjI)
  show "StartsWith s t \<longleftrightarrow> prefix t s"
    by (auto simp: StartsWith_def substr_def prefix_def) (metis append_take_drop_id)
  show "EndsWith s t \<longleftrightarrow> suffix t s"
    by (rule EndsWith_suffix)
  show "Contains s t \<longleftrightarrow> sublist t s"
    by (rule Contains_sublist)
qed

end
