(* ===== verification/Http_Message.thy ===== *)
theory Http_Message
  imports String_Util "HOL-Library.AList"
begin

text \<open>
  HTTP messages: \<open>luce/net/http/http_request.{h,cpp}\<close> and
  \<open>luce/net/http/http_response.{h,cpp}\<close>.

  A request is parsed in place: each parser takes the request and returns it updated, or
  an error. Indexing a vector of parts outside its size is \<open>OutOfRange\<close>; a \<open>Split\<close> that
  does not return is \<open>Diverges\<close>. The header and parameter tables of a request are maps;
  the header table of a response is an association list in the order in which the hash
  table is iterated when the response is written.
\<close>

datatype http_error = Diverges | OutOfRange

definition crlf :: string where "crlf = [CHR 0x0D, CHR 0x0A]"

section \<open>Requests\<close>

record http_request =
  req_method :: string
  url :: string
  uri :: string
  http_version :: string
  body :: string
  headers :: "string \<rightharpoonup> string"
  url_params :: "string \<rightharpoonup> string"
  body_params :: "string \<rightharpoonup> string"

definition new_request :: http_request where
  "new_request = \<lparr>req_method = [], url = [], uri = [], http_version = [], body = [],
     headers = Map.empty, url_params = Map.empty, body_params = Map.empty\<rparr>"

definition MAX_REQUEST_SIZE :: nat where "MAX_REQUEST_SIZE = 1024 * 64"

definition split_s :: "string \<Rightarrow> string \<Rightarrow> bool \<Rightarrow> http_error + string list" where
  "split_s s delim keep = (case Split s delim keep of None \<Rightarrow> Inl Diverges | Some ps \<Rightarrow> Inr ps)"

definition nth_part :: "string list \<Rightarrow> nat \<Rightarrow> http_error + string" where
  "nth_part ps i = (if i < length ps then Inr (ps ! i) else Inl OutOfRange)"

text \<open>
  \<open>String::Trim\<close> returns the trimmed view and leaves its argument alone; the calls
  \<open>String::Trim(key)\<close> discard the result, so the stored strings are untrimmed.
\<close>

fun ParseHeaders_loop :: "string list \<Rightarrow> http_request \<Rightarrow> http_error + http_request" where
  "ParseHeaders_loop [] req = Inr req"
| "ParseHeaders_loop (h # hs) req =
     (if h \<noteq> [] \<and> Contains h '':''
      then try_bind (split_s h '':'' False) (\<lambda>key_value.
             if length key_value = 2
             then ParseHeaders_loop hs (req\<lparr>headers := (headers req)(key_value ! 0 \<mapsto> key_value ! 1)\<rparr>)
             else ParseHeaders_loop hs req)
      else ParseHeaders_loop hs req)"

definition ParseHeaders :: "string list \<Rightarrow> http_request \<Rightarrow> http_error + http_request" where
  "ParseHeaders hs req = ParseHeaders_loop (tl hs) req"

fun parse_pairs :: "string list \<Rightarrow> (string \<rightharpoonup> string) \<Rightarrow> http_error + (string \<rightharpoonup> string)" where
  "parse_pairs [] m = Inr m"
| "parse_pairs (param # params) m =
     try_bind (split_s param ''='' True) (\<lambda>key_value.
       parse_pairs params (if length key_value = 2 then m(key_value ! 0 \<mapsto> key_value ! 1) else m))"

definition ParseURLParams :: "string \<Rightarrow> http_request \<Rightarrow> http_error + http_request" where
  "ParseURLParams u req =
     try_bind (split_s u ''&'' True) (\<lambda>params.
     try_bind (parse_pairs params (url_params req)) (\<lambda>m. Inr (req\<lparr>url_params := m\<rparr>)))"

definition ParseBody :: "string \<Rightarrow> http_request \<Rightarrow> http_error + http_request" where
  "ParseBody b req =
     try_bind (split_s b ''&'' True) (\<lambda>params.
     try_bind (parse_pairs params (body_params req)) (\<lambda>m. Inr (req\<lparr>body_params := m\<rparr>)))"

definition ParseLine :: "string \<Rightarrow> http_request \<Rightarrow> http_error + http_request" where
  "ParseLine line req =
     try_bind (split_s line '' '' True) (\<lambda>line_datas.
     try_bind (nth_part line_datas 0) (\<lambda>m.
     try_bind (nth_part line_datas 1) (\<lambda>u.
     try_bind (nth_part line_datas 2) (\<lambda>v.
     let req1 = req\<lparr>req_method := m, url := u, http_version := v\<rparr> in
     try_bind (split_s u ''&'' True) (\<lambda>url_datas.
     if length url_datas = 2
     then ParseURLParams (url_datas ! 1) (req1\<lparr>uri := url_datas ! 0\<rparr>)
     else Inr (req1\<lparr>uri := u\<rparr>))))))"

definition Parse :: "string \<Rightarrow> http_request \<Rightarrow> http_error + http_request" where
  "Parse data req =
     try_bind (split_s data (crlf @ crlf) True) (\<lambda>head_and_body.
     try_bind (nth_part head_and_body 1) (\<lambda>b.
     let req1 = (if b \<noteq> [] then req\<lparr>body := b\<rparr> else req) in
     try_bind (nth_part head_and_body 0) (\<lambda>head.
     try_bind (split_s head crlf False) (\<lambda>line_and_head.
     try_bind (nth_part line_and_head 0) (\<lambda>line.
     try_bind (ParseLine line req1) (\<lambda>req2.
     try_bind (ParseHeaders line_and_head req2) (\<lambda>req3.
     ParseBody b req3)))))))"

section \<open>Responses\<close>

record http_response =
  resp_buffer :: string
  status_code :: int
  resp_version :: string
  resp_headers :: "(string \<times> string) list"

definition GetCodeDescript :: "int \<Rightarrow> string" where
  "GetCodeDescript code =
     (if code = 100 then ''Continue''
      else if code = 101 then ''Switching Protocols''
      else if code = 200 then ''OK''
      else if code = 201 then ''Created''
      else if code = 202 then ''Accepted''
      else if code = 203 then ''Non-Authoritative Information''
      else if code = 204 then ''No Content''
      else if code = 205 then ''Reset Content''
      else if code = 206 then ''Partial Content''
      else if code = 300 then ''Multiple Choices''
      else if code = 301 then ''Moved Permanently''
      else if code = 302 then ''Found''
      else if code = 303 then ''See Other''
      else if code = 304 then ''Not Modified''
      else if code = 305 then ''Use Proxy''
      else if code = 306 then ''Unused''
      else if code = 307 then ''Temporary Redirect''
      else if code = 400 then ''Bad Request''
      else if code = 401 then ''Unauthorized''
      else if code = 403 then ''Forbidden''
      else if code = 404 then ''Not Found''
      else if code = 405 then ''Method Not Allowed''
      else if code = 500 then ''Internal Server Error''
      else if code = 501 then ''Not Implemented''
      else if code = 502 then ''Bad Gateway''
      else if code = 503 then ''Service Unavailable''
      else if code = 504 then ''Gateway Time-out''
      else if code = 505 then ''HTTP Version not supported''
      else ''Unknow Code or Unsupported now'')"

definition file_type_of :: "string \<Rightarrow> string" where
  "file_type_of ext =
     (if ext = ''html'' then ''text/html; charset=utf-8''
      else if ext = ''jpg'' then ''image/jpeg''
      else if ext = ''gif'' then ''image/gif''
      else if ext = ''png'' then ''image/png''
      else if ext = ''css'' then ''text/css''
      else if ext = ''au'' then ''audio/basic''
      else if ext = ''wav'' then ''audio/wav''
      else if ext = ''avi'' then ''video/x-msvideo''
      else if ext = ''mov'' then ''video/quicktime''
      else if ext = ''mpeg'' then ''video/mpeg''
      else if ext = ''vrml'' then ''model/vrml''
      else if ext = ''midi'' then ''audio/midi''
      else if ext = ''mp3'' then ''audio/mpeg''
      else if ext = ''ogg'' then ''application/ogg''
      else if ext = ''pac'' then ''application/x-ns-proxy-autoconfig''
      else '''')"

definition GetFileType :: "string \<Rightarrow> http_error + string" where
  "GetFileType file_name =
     try_bind (split_s file_name ''.'' True) (\<lambda>ty.
       Inr (if length ty \<noteq> 2 then ''text/plain;charset=utf-8'' else file_type_of (ty ! 1)))"

definition SetStatusCode :: "int \<Rightarrow> http_response \<Rightarrow> http_response" where
  "SetStatusCode c r = r\<lparr>status_code := c\<rparr>"

text \<open>The headers of a response are a \<open>std::unordered_map\<close>, whose order of iteration C++ leaves open; the
  model iterates in the order of insertion, and what is sent is exact up to the order of the header
  lines.\<close>

definition SetHeader :: "string \<Rightarrow> string \<Rightarrow> http_response \<Rightarrow> http_response" where
  "SetHeader k v r = r\<lparr>resp_headers := AList.update k v (resp_headers r)\<rparr>"

definition SetHTTPVersion :: "string \<Rightarrow> http_response \<Rightarrow> http_response" where
  "SetHTTPVersion v r = r\<lparr>resp_version := v\<rparr>"

definition SetBody :: "string \<Rightarrow> http_response \<Rightarrow> http_response" where
  "SetBody b r = r\<lparr>resp_buffer :=
     resp_version r @ '' '' @ to_string (status_code r) @ '' '' @ GetCodeDescript (status_code r) @ crlf @
     concat (map (\<lambda>(k, v). k @ '':'' @ v @ crlf) (resp_headers r)) @ crlf @ b @ crlf\<rparr>"

definition GetData :: "http_response \<Rightarrow> string" where
  "GetData r = resp_buffer r"

definition resp_clear :: "http_response \<Rightarrow> http_response" where
  "resp_clear r = r\<lparr>resp_buffer := []\<rparr>"

section \<open>Splitting rendered messages\<close>

lemma split_s_eq: "d \<noteq> [] \<Longrightarrow> split_s s d keep =
    Inr (if s = [] then [] else if keep then split_parts d s else filter (\<lambda>x. x \<noteq> []) (split_parts d s))"
  by (simp add: split_s_def Split_split_parts)

lemma split_s_total: "d \<noteq> [] \<Longrightarrow> \<exists>ps. split_s s d keep = Inr ps"
  by (simp add: split_s_eq)

text \<open>Text without the first character of the delimiter is skipped by the search.\<close>

lemma find_sub_skip:
  "c \<notin> set x \<Longrightarrow> find_sub (c # d) (x @ r) = map_option ((+) (length x)) (find_sub (c # d) r)"
  by (cases "find_sub (c # d) r"; induction x) auto

lemma find_sub_here: "find_sub d (d @ r) = Some 0"
  by (simp add: find_sub_zero)

lemma split_parts_hit:
  assumes "find_sub d (x @ d @ r) = Some (length x)" "d \<noteq> []"
  shows "split_parts d (x @ d @ r) = x # split_parts d r"
  using assms by (subst split_parts.simps) simp

lemma split_parts_miss: "find_sub d s = None \<Longrightarrow> split_parts d s = [s]"
  by (subst split_parts.simps) simp

text \<open>Lines of a head: non-empty, without carriage returns and line feeds.\<close>

definition plain_line :: "string \<Rightarrow> bool" where
  "plain_line l \<longleftrightarrow> l \<noteq> [] \<and> CHR 0x0D \<notin> set l \<and> CHR 0x0A \<notin> set l"

lemma find_crlf_after: "CHR 0x0D \<notin> set x \<Longrightarrow> find_sub crlf (x @ crlf @ r) = Some (length x)"
  unfolding crlf_def by (simp add: find_sub_skip)

lemma find_crlf_none: "CHR 0x0D \<notin> set x \<Longrightarrow> find_sub crlf x = None"
  using find_sub_skip [of "CHR 0x0D" x "[CHR 0x0A]" "[]"] by (simp add: crlf_def)

lemma split_crlf_lines:
  "ls \<noteq> [] \<Longrightarrow> \<forall>l \<in> set ls. plain_line l \<Longrightarrow> split_parts crlf (join_ref crlf ls) = ls"
proof (induction crlf ls rule: join_ref.induct)
  case (2 p)
  then show ?case by (simp add: split_parts_miss find_crlf_none plain_line_def)
next
  case (3 p q ps)
  then have "find_sub crlf (p @ crlf @ join_ref crlf (q # ps)) = Some (length p)"
    by (intro find_crlf_after) (simp add: plain_line_def)
  from split_parts_hit [OF this] 3 show ?case by (simp add: crlf_def)
qed simp

lemma find_blank_line:
  "ls \<noteq> [] \<Longrightarrow> \<forall>l \<in> set ls. plain_line l \<Longrightarrow>
   find_sub (crlf @ crlf) (join_ref crlf ls @ (crlf @ crlf) @ b) = Some (length (join_ref crlf ls))"
proof (induction crlf ls rule: join_ref.induct)
  case (2 p)
  then have "CHR 0x0D \<notin> set p" by (simp add: plain_line_def)
  then show ?case using find_sub_skip [of "CHR 0x0D" p] by (simp add: crlf_def)
next
  case (3 p q ps)
  let ?r = "join_ref crlf (q # ps) @ (crlf @ crlf) @ b"
  have p: "CHR 0x0D \<notin> set p" using 3 by (simp add: plain_line_def)
  obtain c cs where q: "q = c # cs" "c \<noteq> CHR 0x0D" using 3 by (cases q) (auto simp: plain_line_def)
  then obtain rs where r: "?r = c # rs" by (cases ps) auto
  have IH: "find_sub (crlf @ crlf) ?r = Some (length (join_ref crlf (q # ps)))" using 3 by simp
  have "find_sub (crlf @ crlf) (crlf @ ?r) = Some (2 + length (join_ref crlf (q # ps)))"
    using IH q unfolding r by (simp add: crlf_def)
  then show ?case
    using find_sub_skip [OF p, of "tl (crlf @ crlf)" "crlf @ ?r"] by (simp add: crlf_def)
qed simp

section \<open>Parsing rendered fields\<close>

abbreviation pair :: "char \<Rightarrow> string \<times> string \<Rightarrow> string" where
  "pair c \<equiv> \<lambda>(k, v). k @ [c] @ v"

lemma split_s_pair:
  assumes "c \<notin> set k" "c \<notin> set v"
  shows "split_s (k @ [c] @ v) [c] True = Inr [k, v]"
  using split_parts_join_char [of "[k, v]" c] assms by (simp add: split_s_eq)

lemma split_s_pair_nonempty:
  assumes "c \<notin> set k" "c \<notin> set v" "k \<noteq> []" "v \<noteq> []"
  shows "split_s (k @ [c] @ v) [c] False = Inr [k, v]"
  using split_parts_join_char [of "[k, v]" c] assms by (simp add: split_s_eq)

lemma parse_pairs_render:
  "\<forall>(k, v) \<in> set ps. CHR ''='' \<notin> set k \<and> CHR ''='' \<notin> set v \<Longrightarrow>
   parse_pairs (map (pair (CHR ''='')) ps) m = Inr (m ++ map_of (rev ps))"
proof (induction ps arbitrary: m)
  case (Cons p ps)
  obtain k v where p: "p = (k, v)" by (cases p)
  have "split_s (k @ [CHR ''=''] @ v) ''='' True = Inr [k, v]"
    using Cons.prems p by (intro split_s_pair) auto
  then have "parse_pairs (map (pair (CHR ''='')) (p # ps)) m = Inr (m(k \<mapsto> v) ++ map_of (rev ps))"
    using Cons p by simp
  then show ?case by (simp only: p map_add_Cons_rev)
qed simp

lemma ParseHeaders_render:
  "\<forall>(k, v) \<in> set hs. CHR '':'' \<notin> set k \<and> CHR '':'' \<notin> set v \<and> k \<noteq> [] \<and> v \<noteq> [] \<Longrightarrow>
   ParseHeaders_loop (map (pair (CHR '':'')) hs) req = Inr (req\<lparr>headers := headers req ++ map_of (rev hs)\<rparr>)"
proof (induction hs arbitrary: req)
  case (Cons p hs)
  obtain k v where p: "p = (k, v)" by (cases p)
  have "split_s (k @ [CHR '':''] @ v) '':'' False = Inr [k, v]"
    using Cons.prems p by (intro split_s_pair_nonempty) auto
  moreover have "Contains (k @ [CHR '':''] @ v) '':''"
    by (simp only: Contains_sublist sublist_def) blast
  ultimately have "ParseHeaders_loop (map (pair (CHR '':'')) (p # hs)) req =
      Inr (req\<lparr>headers := (headers req)(k \<mapsto> v) ++ map_of (rev hs)\<rparr>)"
    using Cons p by simp
  then show ?case by (simp only: p map_add_Cons_rev)
qed simp

lemma ParseLine_render:
  assumes "CHR '' '' \<notin> set m \<union> set u \<union> set v" "CHR ''&'' \<notin> set u"
  shows "ParseLine (m @ '' '' @ u @ '' '' @ v) req =
    Inr (req\<lparr>req_method := m, url := u, http_version := v, uri := u\<rparr>)"
proof -
  have "split_s (m @ '' '' @ u @ '' '' @ v) '' '' True = Inr [m, u, v]"
    using split_parts_join_char [of "[m, u, v]" "CHR '' ''"] assms by (simp add: split_s_eq)
  moreover have "\<exists>ps. split_s u ''&'' True = Inr ps \<and> length ps \<noteq> 2"
    using split_parts_join_char [of "[u]" "CHR ''&''"] assms by (simp add: split_s_eq)
  ultimately show ?thesis by (auto simp: ParseLine_def nth_part_def)
qed

lemma ParseBody_render:
  assumes "\<forall>(k, v) \<in> set ps. {CHR ''='', CHR ''&''} \<inter> (set k \<union> set v) = {}"
  shows "ParseBody (join_ref ''&'' (map (pair (CHR ''='')) ps)) req =
    Inr (req\<lparr>body_params := body_params req ++ map_of (rev ps)\<rparr>)"
proof (cases "ps = []")
  case True
  then show ?thesis by (simp add: ParseBody_def split_s_eq)
next
  case False
  let ?parts = "map (pair (CHR ''='')) ps"
  have "split_parts ''&'' (join_ref ''&'' ?parts) = ?parts"
    by (rule split_parts_join_char) (use False assms in \<open>fastforce+\<close>)
  moreover have "join_ref ''&'' ?parts \<noteq> []"
    using False by (cases ps rule: remdups_adj.cases) auto
  moreover have "parse_pairs ?parts (body_params req) = Inr (body_params req ++ map_of (rev ps))"
    using assms by (intro parse_pairs_render) auto
  ultimately show ?thesis by (simp add: ParseBody_def split_s_eq)
qed

section \<open>Properties\<close>

text \<open>The text of a request with a form body, as the parser's comments and documentation
  describe it.\<close>

definition render_request :: "string \<Rightarrow> string \<Rightarrow> string \<Rightarrow> (string \<times> string) list \<Rightarrow> (string \<times> string) list \<Rightarrow> string" where
  "render_request m u v hs ps =
     Join ((m @ '' '' @ u @ '' '' @ v) # map (pair (CHR '':'')) hs) crlf @ crlf @ crlf @
     Join (map (pair (CHR ''='')) ps) ''&''"

definition plain_text :: "string \<Rightarrow> bool" where
  "plain_text s \<longleftrightarrow> set s \<inter> {CHR 0x0D, CHR 0x0A, CHR '' '', CHR ''&'', CHR ''='', CHR '':''} = {}"

lemma plain_line_pair:
  "plain_text k \<Longrightarrow> plain_text v \<Longrightarrow> plain_line (k @ [CHR '':''] @ v)"
  by (auto simp: plain_line_def plain_text_def)

lemma no_blank_line: "CHR 0x0D \<notin> set x \<Longrightarrow> find_sub (crlf @ crlf) x = None"
  using find_sub_skip [of "CHR 0x0D" x "tl (crlf @ crlf)" "[]"] by (simp add: crlf_def)

lemma set_join_ref: "set (join_ref d ps) \<subseteq> set d \<union> \<Union> (set ` set ps)"
  by (induction d ps rule: join_ref.induct) auto

lemma form_body_plain:
  assumes "\<forall>(k, v) \<in> set ps. plain_text k \<and> plain_text v"
  shows "CHR 0x0D \<notin> set (join_ref ''&'' (map (pair (CHR ''='')) ps))"
proof
  assume "CHR 0x0D \<in> set (join_ref ''&'' (map (pair (CHR ''='')) ps))"
  with set_join_ref obtain p where "p \<in> set ps" "CHR 0x0D \<in> set (pair (CHR ''='') p)"
    by fastforce
  with assms show False by (fastforce simp: plain_text_def)
qed

lemma Parse_rendered:
  assumes "plain_text m" "plain_text u" "plain_text v"
    and "\<forall>(k, w) \<in> set hs. plain_text k \<and> plain_text w \<and> k \<noteq> [] \<and> w \<noteq> []"
    and "\<forall>(k, w) \<in> set ps. plain_text k \<and> plain_text w"
  shows "Parse (render_request m u v hs ps) new_request =
    Inr \<lparr>req_method = m, url = u, uri = u, http_version = v, body = Join (map (pair (CHR ''='')) ps) ''&'',
         headers = map_of (rev hs), url_params = Map.empty, body_params = map_of (rev ps)\<rparr>"
proof -
  let ?line = "m @ '' '' @ u @ '' '' @ v" and ?hs = "map (pair (CHR '':'')) hs"
  let ?b = "join_ref ''&'' (map (pair (CHR ''='')) ps)" and ?head = "join_ref crlf ((m @ '' '' @ u @ '' '' @ v) # map (pair (CHR '':'')) hs)"
  have lines: "\<forall>l \<in> set (?line # ?hs). plain_line l"
    using assms(1-4) by (auto intro!: plain_line_pair [simplified]) (auto simp: plain_line_def plain_text_def)
  have rendered: "render_request m u v hs ps = ?head @ (crlf @ crlf) @ ?b"
    by (simp add: render_request_def Join_eq)
  have "split_parts (crlf @ crlf) (?head @ (crlf @ crlf) @ ?b) = [?head, ?b]"
    using split_parts_hit [OF find_blank_line [OF _ lines]] split_parts_miss [OF no_blank_line [OF form_body_plain]] assms(5)
    by (simp add: crlf_def)
  then have s1: "split_s (render_request m u v hs ps) (crlf @ crlf) True = Inr [?head, ?b]"
    unfolding rendered by (simp add: split_s_eq crlf_def)
  have "?head \<noteq> []" by (cases hs) auto
  then have s2: "split_s ?head crlf False = Inr (?line # ?hs)"
    using split_crlf_lines [OF _ lines] lines by (simp add: split_s_eq crlf_def plain_line_def filter_id_conv)
  have l: "ParseLine ?line req = Inr (req\<lparr>req_method := m, url := u, http_version := v, uri := u\<rparr>)" for req
    using assms(1-3) by (intro ParseLine_render) (auto simp: plain_text_def)
  have h: "ParseHeaders (?line # ?hs) req = Inr (req\<lparr>headers := headers req ++ map_of (rev hs)\<rparr>)" for req
    unfolding ParseHeaders_def list.sel using assms(4) by (intro ParseHeaders_render) (fastforce simp: plain_text_def)
  have b: "ParseBody ?b req = Inr (req\<lparr>body_params := body_params req ++ map_of (rev ps)\<rparr>)" for req
    using assms(5) by (intro ParseBody_render) (fastforce simp: plain_text_def)
  have parts: "nth_part [?head, ?b] 1 = Inr ?b" "nth_part [?head, ?b] 0 = Inr ?head"
    "nth_part (?line # ?hs) 0 = Inr ?line" by (simp_all add: nth_part_def)
  have "Parse (render_request m u v hs ps) new_request = Inr (let r = if ?b \<noteq> [] then new_request\<lparr>body := ?b\<rparr> else new_request
      in r\<lparr>req_method := m, url := u, http_version := v, uri := u, headers := headers r ++ map_of (rev hs),
           body_params := body_params r ++ map_of (rev ps)\<rparr>)"
    by (simp only: Parse_def s1 s2 l h b parts try_bind_simps Let_def http_request.select_convs
        http_request.update_convs http_request.surjective) (simp split: if_split)
  then show ?thesis by (simp add: new_request_def Join_eq)
qed

text \<open>
  Claim C17. Parsing a rendered request returns its method, URL, version, headers, body and
  form parameters, where none of these tokens has a blank, a colon, an ampersand, an equals sign,
  a carriage return or a line feed (so no \<open>Host: a:80\<close>, and headers are rendered as \<open>name:value\<close>
  without a blank) and header names and values are not empty.
\<close>

theorem Parse_render_request:
  assumes "plain_text m" "plain_text u" "plain_text v"
    and "\<forall>(k, w) \<in> set hs. plain_text k \<and> plain_text w \<and> k \<noteq> [] \<and> w \<noteq> []"
    and "\<forall>(k, w) \<in> set ps. plain_text k \<and> plain_text w"
  shows "Parse (render_request m u v hs ps) new_request =
    Inr \<lparr>req_method = m, url = u, uri = u, http_version = v, body = Join (map (pair (CHR ''='')) ps) ''&'',
         headers = map_of (rev hs), url_params = Map.empty, body_params = map_of (rev ps)\<rparr>"
  using assms by (rule Parse_rendered)

theorem Parse_render_request_witness:
  "Parse (render_request ''POST'' ''/login'' ''HTTP/1.1'' [(''Connection'', ''close'')] [(''user'', ''pgj'')]) new_request =
    Inr \<lparr>req_method = ''POST'', url = ''/login'', uri = ''/login'', http_version = ''HTTP/1.1'',
         body = Join [''user=pgj''] ''&'', headers = map_of [(''Connection'', ''close'')],
         url_params = Map.empty, body_params = map_of [(''user'', ''pgj'')]\<rparr>"
  using Parse_render_request [of "''POST''" "''/login''" "''HTTP/1.1''" "[(''Connection'', ''close'')]" "[(''user'', ''pgj'')]"]
  by (simp add: plain_text_def)

text \<open>
  The parsers discard the results of \<open>Trim\<close>: the header line \<open>name: value\<close> of
  every usual client is stored with the blank in front of the value.
\<close>

theorem header_values_untrimmed:
  assumes "CHR '':'' \<notin> set k" "CHR '':'' \<notin> set v" "k \<noteq> []"
  shows "ParseHeaders [line, k @ '': '' @ v] req = Inr (req\<lparr>headers := (headers req)(k \<mapsto> CHR '' '' # v)\<rparr>)"
  using ParseHeaders_render [of "[(k, CHR '' '' # v)]" req] assms by (simp add: ParseHeaders_def)

theorem header_values_untrimmed_witness:
  "ParseHeaders [''GET / HTTP/1.1'', ''Connection: close''] new_request =
    Inr (new_request\<lparr>headers := [''Connection'' \<mapsto> '' close'']\<rparr>)"
  using header_values_untrimmed [of "''Connection''" "''close''" "''GET / HTTP/1.1''" new_request]
  by (simp add: new_request_def)

text \<open>
  The query part of a URL is split off at an ampersand and not at the question
  mark: for a URL with one parameter after \<open>?\<close> the parser finds no parameter and keeps the
  whole URL as the resource, while the same URL written with \<open>&\<close> is taken apart.
\<close>

theorem url_params_need_ampersand:
  assumes "set p \<inter> {CHR '' '', CHR ''&''} = {}" "set k \<inter> {CHR '' '', CHR ''&'', CHR ''=''} = {}"
    "set w \<inter> {CHR '' '', CHR ''&'', CHR ''=''} = {}" "CHR '' '' \<notin> set m \<union> set v"
  shows "ParseLine (m @ '' '' @ (p @ ''?'' @ k @ ''='' @ w) @ '' '' @ v) req =
      Inr (req\<lparr>req_method := m, url := p @ ''?'' @ k @ ''='' @ w, http_version := v, uri := p @ ''?'' @ k @ ''='' @ w\<rparr>) \<and>
    ParseLine (m @ '' '' @ (p @ ''&'' @ k @ ''='' @ w) @ '' '' @ v) req =
      Inr (req\<lparr>req_method := m, url := p @ ''&'' @ k @ ''='' @ w, http_version := v, uri := p,
               url_params := (url_params req)(k \<mapsto> w)\<rparr>)"
proof (rule conjI)
  show "ParseLine (m @ '' '' @ (p @ ''?'' @ k @ ''='' @ w) @ '' '' @ v) req =
      Inr (req\<lparr>req_method := m, url := p @ ''?'' @ k @ ''='' @ w, http_version := v, uri := p @ ''?'' @ k @ ''='' @ w\<rparr>)"
    using assms by (intro ParseLine_render) auto
  let ?u = "p @ ''&'' @ k @ ''='' @ w"
  have line: "split_s (m @ '' '' @ ?u @ '' '' @ v) '' '' True = Inr [m, ?u, v]"
    using split_parts_join_char [of "[m, ?u, v]" "CHR '' ''"] assms by (auto simp: split_s_eq)
  have u: "split_s ?u ''&'' True = Inr [p, k @ ''='' @ w]"
    using split_parts_join_char [of "[p, k @ ''='' @ w]" "CHR ''&''"] assms by (auto simp: split_s_eq)
  have one: "split_s (k @ ''='' @ w) ''&'' True = Inr [k @ ''='' @ w]"
    using split_parts_join_char [of "[k @ ''='' @ w]" "CHR ''&''"] assms by (auto simp: split_s_eq)
  have params: "parse_pairs [k @ ''='' @ w] M = Inr (M(k \<mapsto> w))" for M
    using parse_pairs_render [of "[(k, w)]" M] assms by auto
  have parts: "nth_part [m, ?u, v] 0 = Inr m" "nth_part [m, ?u, v] 1 = Inr ?u" "nth_part [m, ?u, v] 2 = Inr v"
    by (simp_all add: nth_part_def)
  show "ParseLine (m @ '' '' @ ?u @ '' '' @ v) req =
      Inr (req\<lparr>req_method := m, url := ?u, http_version := v, uri := p, url_params := (url_params req)(k \<mapsto> w)\<rparr>)"
    by (simp only: ParseLine_def line parts try_bind_simps Let_def u ParseURLParams_def)
      (simp add: ParseURLParams_def one [simplified] params [simplified])
qed

theorem url_params_need_ampersand_witness:
  "ParseLine ''GET /foo?name=pgj HTTP/1.1'' new_request =
      Inr (new_request\<lparr>req_method := ''GET'', url := ''/foo?name=pgj'', http_version := ''HTTP/1.1'', uri := ''/foo?name=pgj''\<rparr>) \<and>
   ParseLine ''GET /foo&name=pgj HTTP/1.1'' new_request =
      Inr (new_request\<lparr>req_method := ''GET'', url := ''/foo&name=pgj'', http_version := ''HTTP/1.1'', uri := ''/foo'',
           url_params := [''name'' \<mapsto> ''pgj'']\<rparr>)"
  using url_params_need_ampersand [of "''/foo''" "''name''" "''pgj''" "''GET''" "''HTTP/1.1''" new_request]
  by (simp add: new_request_def)

section \<open>Framing of responses\<close>

text \<open>The head of a response, and what a client reads from the bytes of \<open>SetBody\<close>.\<close>

definition status_line :: "http_response \<Rightarrow> string" where
  "status_line r = resp_version r @ '' '' @ to_string (status_code r) @ '' '' @ GetCodeDescript (status_code r)"

definition no_newline :: "string \<Rightarrow> bool" where
  "no_newline s \<longleftrightarrow> CHR 0x0D \<notin> set s \<and> CHR 0x0A \<notin> set s"

lemma digit_no_newline: "(d :: nat) < 10 \<Longrightarrow> char_of (48 + d) \<noteq> CHR 0x0D \<and> char_of (48 + d) \<noteq> CHR 0x0A"
  by (auto dest!: arg_cong [where f = "of_char :: char \<Rightarrow> nat"])

lemma show_nat_no_newline: "no_newline (show_nat n)"
proof (induction n rule: show_nat.induct)
  case (1 n)
  then show ?case
    using digit_no_newline [of n] digit_no_newline [of "n mod 10"]
    by (subst show_nat.simps) (auto simp: no_newline_def)
qed

lemma to_string_no_newline: "no_newline (to_string i)"
  using show_nat_no_newline by (simp add: to_string_def no_newline_def)

lemma GetCodeDescript_no_newline: "no_newline (GetCodeDescript c)"
  by (simp add: GetCodeDescript_def no_newline_def)

lemma status_line_plain: "no_newline (resp_version r) \<Longrightarrow> plain_line (status_line r)"
  using to_string_no_newline [of "status_code r"] GetCodeDescript_no_newline [of "status_code r"]
  by (simp add: plain_line_def status_line_def no_newline_def)

lemma lines_join: "l @ crlf @ concat (map (\<lambda>x. f x @ crlf) xs) = join_ref crlf (l # map f xs) @ crlf"
  by (induction xs arbitrary: l) auto

lemma SetBody_lines:
  "GetData (SetBody b r) =
    join_ref crlf (status_line r # map (pair (CHR '':'')) (resp_headers r)) @ (crlf @ crlf) @ b @ crlf"
proof -
  have "GetData (SetBody b r) =
      (status_line r @ crlf @ concat (map (\<lambda>x. pair (CHR '':'') x @ crlf) (resp_headers r))) @ crlf @ b @ crlf"
    by (simp add: GetData_def SetBody_def status_line_def case_prod_unfold)
  then show ?thesis by (simp only: lines_join append_assoc)
qed

text \<open>
  In the bytes of a response the first blank line is where the head ends: the
  head splits into the status line and one line per header field, and the rest is the body
  followed by one more CRLF, which no \<open>Content-Length\<close> of the body counts.
\<close>

theorem SetBody_framing:
  assumes "no_newline (resp_version r)"
    and "\<forall>(k, v) \<in> set (resp_headers r). no_newline k \<and> no_newline v"
  shows "\<exists>n. find_sub (crlf @ crlf) (GetData (SetBody b r)) = Some n \<and>
    Split (take n (GetData (SetBody b r))) crlf True =
      Some (status_line r # map (\<lambda>(k, v). k @ '':'' @ v) (resp_headers r)) \<and>
    drop (n + 4) (GetData (SetBody b r)) = b @ crlf"
proof -
  let ?ls = "status_line r # map (pair (CHR '':'')) (resp_headers r)"
  have lines: "\<forall>l \<in> set ?ls. plain_line l"
    using assms status_line_plain by (fastforce simp: plain_line_def no_newline_def)
  then have "join_ref crlf ?ls \<noteq> []" by (cases "resp_headers r") (auto simp: plain_line_def)
  then show ?thesis
    using split_crlf_lines [OF _ lines] find_blank_line [OF _ lines, of "b @ crlf"]
    by (intro exI [of _ "length (join_ref crlf ?ls)"]) (simp add: SetBody_lines Split_split_parts crlf_def)
qed

theorem SetBody_framing_witness:
  "\<exists>n. find_sub (crlf @ crlf) (GetData (SetBody ''hi'' \<lparr>resp_buffer = [], status_code = 200,
         resp_version = ''HTTP/1.1'', resp_headers = [(''Content-Type'', ''text/plain'')]\<rparr>)) = Some n \<and>
    Split (take n (GetData (SetBody ''hi'' \<lparr>resp_buffer = [], status_code = 200,
         resp_version = ''HTTP/1.1'', resp_headers = [(''Content-Type'', ''text/plain'')]\<rparr>))) crlf True =
      Some [status_line \<lparr>resp_buffer = [], status_code = 200,
         resp_version = ''HTTP/1.1'', resp_headers = [(''Content-Type'', ''text/plain'')]\<rparr>, ''Content-Type:text/plain''] \<and>
    drop (n + 4) (GetData (SetBody ''hi'' \<lparr>resp_buffer = [], status_code = 200,
         resp_version = ''HTTP/1.1'', resp_headers = [(''Content-Type'', ''text/plain'')]\<rparr>)) = ''hi'' @ crlf"
  using SetBody_framing [of "\<lparr>resp_buffer = [], status_code = 200, resp_version = ''HTTP/1.1'',
      resp_headers = [(''Content-Type'', ''text/plain'')]\<rparr>" "''hi''"]
  by (simp only: http_response.select_convs) (simp add: no_newline_def)

section \<open>Which texts the parser survives\<close>

text \<open>A text with a blank line whose first line has two blanks: the positions the parser indexes exist.\<close>

definition parsable :: "string \<Rightarrow> bool" where
  "parsable data \<longleftrightarrow> (case find_sub (crlf @ crlf) data of
     None \<Rightarrow> False
   | Some i \<Rightarrow> (case filter (\<lambda>l. l \<noteq> []) (split_parts crlf (take i data)) of
       [] \<Rightarrow> False
     | line # _ \<Rightarrow> 2 \<le> count_list line (CHR '' '')))"

lemma ParseHeaders_total: "\<exists>req'. ParseHeaders hs req = Inr req'"
proof -
  have "\<exists>req'. ParseHeaders_loop ls req = Inr req'" for ls
    by (induction ls arbitrary: req) (auto simp: split_s_eq)
  then show ?thesis by (simp add: ParseHeaders_def)
qed

lemma parse_pairs_total: "\<exists>m'. parse_pairs params m = Inr m'"
  by (induction params arbitrary: m) (simp_all add: split_s_eq)

lemma ParseBody_total: "\<exists>req'. ParseBody b req = Inr req'"
proof -
  obtain ps m where "split_s b ''&'' True = Inr ps" "parse_pairs ps (body_params req) = Inr m"
    using split_s_total [of "''&''" b True] parse_pairs_total by blast
  then show ?thesis by (simp add: ParseBody_def)
qed

lemma ParseURLParams_total: "\<exists>req'. ParseURLParams u req = Inr req'"
proof -
  obtain ps m where "split_s u ''&'' True = Inr ps" "parse_pairs ps (url_params req) = Inr m"
    using split_s_total [of "''&''" u True] parse_pairs_total by blast
  then show ?thesis by (simp add: ParseURLParams_def)
qed

lemma length_split_char: "length (split_parts [c] s) = Suc (count_list s c)"
proof (induction "[c]" s rule: split_parts.induct)
  case (1 s)
  show ?case
  proof (cases "find_sub [c] s")
    case None
    then show ?thesis by (simp add: split_parts_miss find_sub_char_None)
  next
    case (Some p)
    let ?r = "drop (p + length [c]) s"
    have s: "s = take p s @ [c] @ ?r" using find_sub_SomeD [OF Some] by simp
    have "c \<notin> set (take p s)"
    proof
      assume "c \<in> set (take p s)"
      then obtain q where "q < p" "q < length s" "s ! q = c" by (auto simp: in_set_conv_nth)
      then have "prefix [c] (drop q s)" by (simp add: Cons_nth_drop_Suc [symmetric])
      with find_sub_leftmost [OF Some \<open>q < p\<close>] show False by simp
    qed
    then have "count_list s c = Suc (count_list ?r c)" by (subst s) simp
    then show ?thesis using 1 Some by (subst split_parts.simps) simp
  qed
qed

lemma ParseLine_outcome:
  assumes "line \<noteq> []"
  shows "if 2 \<le> count_list line (CHR '' '') then \<exists>req'. ParseLine line req = Inr req' else ParseLine line req = Inl OutOfRange"
proof -
  let ?ps = "split_parts '' '' line"
  have s: "split_s line '' '' True = Inr ?ps" using assms by (simp add: split_s_eq)
  have u: "\<exists>ps. split_s x ''&'' True = Inr ps" for x by (rule split_s_total) simp
  show ?thesis
  proof (cases "2 \<le> count_list line (CHR '' '')")
    case True
    then have "nth_part ?ps 0 = Inr (?ps ! 0)" "nth_part ?ps 1 = Inr (?ps ! 1)" "nth_part ?ps 2 = Inr (?ps ! 2)"
      using length_split_char [of "CHR '' ''" line] by (simp_all add: nth_part_def)
    moreover obtain us where "split_s (?ps ! 1) ''&'' True = Inr us" using u by blast
    ultimately show ?thesis using True ParseURLParams_total s by (simp add: ParseLine_def Let_def)
  next
    case False
    then have "length ?ps \<le> 2" using length_split_char [of "CHR '' ''" line] by simp
    then show ?thesis using False s by (simp add: ParseLine_def nth_part_def)
  qed
qed

lemma Parse_outcome:
  "if parsable data then \<exists>req'. Parse data req = Inr req' else Parse data req = Inl OutOfRange"
proof (cases "find_sub (crlf @ crlf) data")
  case None
  then have "length (split_parts (crlf @ crlf) data) = 1" by (simp add: split_parts_miss)
  then show ?thesis using None by (simp add: parsable_def Parse_def split_s_eq nth_part_def crlf_def)
next
  case (Some i)
  let ?r = "split_parts (crlf @ crlf) (drop (i + length (crlf @ crlf)) data)"
  let ?ls = "filter (\<lambda>l. l \<noteq> []) (split_parts crlf (take i data))"
  have "data \<noteq> []" using Some by (auto simp: crlf_def)
  have ne: "crlf @ crlf \<noteq> []" by (simp add: crlf_def)
  then have "split_parts (crlf @ crlf) data = take i data # ?r"
    using Some by (simp only: split_parts.simps [of "crlf @ crlf" data] option.case if_False)
  then have s: "split_s data (crlf @ crlf) True = Inr (take i data # ?r)"
    using \<open>data \<noteq> []\<close> split_s_eq [OF ne, of data True] by simp
  have "?r \<noteq> []" by (subst split_parts.simps) (simp split: option.split)
  then obtain b bs where r: "?r = b # bs" by (cases ?r) auto
  have ls: "split_s (take i data) crlf False = Inr ?ls"
    using split_s_eq [of crlf "take i data" False] split_parts_miss [of crlf "[]"] by (auto simp: crlf_def)
  define req1 where "req1 = (if b \<noteq> [] then req\<lparr>body := b\<rparr> else req)"
  have parts: "nth_part (take i data # b # bs) 1 = Inr b" "nth_part (take i data # b # bs) 0 = Inr (take i data)"
    by (simp_all add: nth_part_def)
  have p: "Parse data req = try_bind (nth_part ?ls 0) (\<lambda>line. try_bind (ParseLine line req1) (\<lambda>req2.
      try_bind (ParseHeaders ?ls req2) (ParseBody b)))"
    by (simp only: Parse_def s r ls parts try_bind_simps Let_def req1_def)
  show ?thesis
  proof (cases ?ls)
    case Nil
    then show ?thesis using Some p by (simp add: parsable_def nth_part_def)
  next
    case (Cons line hs)
    then have "line \<in> set ?ls" by (simp only: list.set_intros)
    then have "line \<noteq> []" by (simp only: set_filter mem_Collect_eq) blast
    note out = ParseLine_outcome [OF this, of req1]
    have ok: "parsable data = (2 \<le> count_list line (CHR '' ''))" using Some Cons by (simp add: parsable_def)
    have p': "Parse data req = try_bind (ParseLine line req1) (\<lambda>req2. try_bind (ParseHeaders ?ls req2) (ParseBody b))"
      using Cons by (simp add: p nth_part_def)
    show ?thesis
    proof (cases "parsable data")
      case True
      then obtain req2 req3 req4 where "ParseLine line req1 = Inr req2" "ParseHeaders ?ls req2 = Inr req3" "ParseBody b req3 = Inr req4"
        using out ok ParseHeaders_total ParseBody_total by metis
      then show ?thesis using True by (simp only: p' try_bind_simps if_True) blast
    next
      case False
      then show ?thesis using out ok by (simp only: p' try_bind_simps if_False)
    qed
  qed
qed

text \<open>
  Claim C18. The parser survives exactly the texts that have a blank line and two blanks in
  their first line: on these it returns a request, whatever else they hold; on every other
  text it reports the error to the log and then indexes past the end of the parts.
\<close>

theorem Parse_survives:
  "(\<exists>req'. Parse data req = Inr req') = parsable data \<and> (Parse data req = Inl OutOfRange) = (\<not> parsable data)"
  using Parse_outcome [of data req] by (cases "parsable data") auto

text \<open>A text cut inside its first blank line has none.\<close>

lemma find_sub_cut:
  assumes "find_sub d s = Some i" "k < i + length d"
  shows "find_sub d (take k s) = None"
proof (cases "find_sub d (take k s)")
  case (Some j)
  from find_sub_SomeD [OF Some] have j: "j + length d \<le> k" and eq: "take k s = take j (take k s) @ d @ drop (j + length d) (take k s)"
    by auto
  have "s = take j (take k s) @ d @ drop (j + length d) (take k s) @ drop k s"
    using eq by (metis append.assoc append_take_drop_id)
  moreover have "length (take j (take k s)) = j" using find_sub_SomeD [OF Some] by simp
  ultimately have "prefix d (drop j s)" by (metis append_eq_conv_conj prefixI)
  moreover have "j < i" using j assms(2) by simp
  ultimately show ?thesis using find_sub_leftmost [OF assms(1)] by blast
qed

end
