(* ===== verification/Http_Router.thy ===== *)
theory Http_Router
  imports Http_Message
begin

text \<open>
  Request contexts and routing: \<open>luce/net/http/http_context.h\<close> and
  \<open>luce/net/http/http_router.h\<close>.

  A handler is application code; it is a function on contexts. \<open>String::Format\<close> belongs to
  the fmt library and is the parameter \<open>fmt\<close>, from a format string and its arguments to text.
\<close>

section \<open>Contexts\<close>

record http_context =
  ctx_req :: http_request
  ctx_res :: http_response
  ctx_path :: string
  ctx_method :: string
  ctx_status_code :: int

type_synonym handle_func = "http_context \<Rightarrow> http_context"
type_synonym formatter = "string \<Rightarrow> string list \<Rightarrow> string"

definition new_context :: "http_request \<Rightarrow> http_response \<Rightarrow> http_context" where
  "new_context req res = \<lparr>ctx_req = req, ctx_res = res, ctx_path = url req, ctx_method = req_method req,
     ctx_status_code = 500\<rparr>"

definition QueryURL :: "string \<Rightarrow> http_context \<Rightarrow> string" where
  "QueryURL key ctx = (case url_params (ctx_req ctx) key of Some v \<Rightarrow> v | None \<Rightarrow> [])"

definition QueryBody :: "string \<Rightarrow> http_context \<Rightarrow> string" where
  "QueryBody key ctx = (case body_params (ctx_req ctx) key of Some v \<Rightarrow> v | None \<Rightarrow> [])"

definition ctx_SetHeader :: "string \<Rightarrow> string \<Rightarrow> http_context \<Rightarrow> http_context" where
  "ctx_SetHeader key v ctx = ctx\<lparr>ctx_res := SetHeader key v (ctx_res ctx)\<rparr>"

definition Status :: "int \<Rightarrow> http_context \<Rightarrow> http_context" where
  "Status code ctx = ctx\<lparr>ctx_status_code := code, ctx_res := SetStatusCode code (ctx_res ctx)\<rparr>"

definition ctx_SetBody :: "string \<Rightarrow> http_context \<Rightarrow> http_context" where
  "ctx_SetBody b ctx = ctx\<lparr>ctx_res := SetBody b (ctx_res ctx)\<rparr>"

definition ctx_String :: "formatter \<Rightarrow> int \<Rightarrow> string \<Rightarrow> string list \<Rightarrow> http_context \<Rightarrow> http_context" where
  "ctx_String fmt code f args ctx =
     ctx_SetBody (fmt f args) (Status code (ctx_SetHeader ''Content-Type'' ''text/plain'' ctx))"

definition JSON :: "int \<Rightarrow> http_context \<Rightarrow> http_context" where
  "JSON code ctx = Status code (ctx_SetHeader ''Content-Type'' ''application/json'' ctx)"

definition HTML :: "int \<Rightarrow> string \<Rightarrow> http_context \<Rightarrow> http_context" where
  "HTML code html ctx = ctx_SetBody html (Status code (ctx_SetHeader ''Content-Type'' ''text/html'' ctx))"

lemmas ctx_defs = ctx_SetHeader_def Status_def ctx_SetBody_def ctx_String_def JSON_def HTML_def

section \<open>The router\<close>

record router =
  handlers :: "string \<rightharpoonup> handle_func"

definition new_router :: router where
  "new_router = \<lparr>handlers = Map.empty\<rparr>"

definition AddRouter :: "string \<Rightarrow> string \<Rightarrow> handle_func \<Rightarrow> router \<Rightarrow> router" where
  "AddRouter m u handler r =
     (if m = ''DELETE'' then r
      else if \<not> EndsWith u ''/'' then r
      else r\<lparr>handlers := (handlers r)(Join [m, u] ''-'' \<mapsto> handler)\<rparr>)"

definition not_found :: string where
  "not_found = ''404 Not Found: {} not at {}'' @ [CHR 0x0A]"

definition Handle :: "formatter \<Rightarrow> http_context \<Rightarrow> router \<Rightarrow> http_context" where
  "Handle fmt ctx r = (case handlers r (Join [ctx_method ctx, ctx_path ctx] ''-'') of
     Some handler \<Rightarrow> handler ctx
   | None \<Rightarrow> HTML 404 (fmt not_found [ctx_method ctx, ctx_path ctx]) ctx)"

definition GET :: "string \<Rightarrow> handle_func \<Rightarrow> router \<Rightarrow> router" where
  "GET = AddRouter ''GET''"

definition POST :: "string \<Rightarrow> handle_func \<Rightarrow> router \<Rightarrow> router" where
  "POST = AddRouter ''POST''"

definition PUT :: "string \<Rightarrow> handle_func \<Rightarrow> router \<Rightarrow> router" where
  "PUT = AddRouter ''PUT''"

definition DELETE :: "string \<Rightarrow> handle_func \<Rightarrow> router \<Rightarrow> router" where
  "DELETE = AddRouter ''DELETE''"

section \<open>Routes as a table\<close>

text \<open>The key joins method and URL with a dash: it identifies the pair when the method has
  no dash.\<close>

definition routable :: "string \<times> string \<Rightarrow> bool" where
  "routable = (\<lambda>(m, u). m \<noteq> ''DELETE'' \<and> CHR ''-'' \<notin> set m \<and> EndsWith u ''/'')"

definition add_route :: "string \<times> string \<Rightarrow> handle_func \<Rightarrow> router \<Rightarrow> router" where
  "add_route = (\<lambda>(m, u). AddRouter m u)"

definition find_route :: "router \<Rightarrow> string \<times> string \<Rightarrow> handle_func option" where
  "find_route r = (\<lambda>(m, u). handlers r (Join [m, u] ''-''))"

lemma Handle_find_route:
  "Handle fmt ctx r = (case find_route r (ctx_method ctx, ctx_path ctx) of Some h \<Rightarrow> h ctx
     | None \<Rightarrow> HTML 404 (fmt not_found [ctx_method ctx, ctx_path ctx]) ctx)"
  by (simp add: Handle_def find_route_def)

lemma route_key_inject:
  assumes "c \<notin> set m" "c \<notin> set m'"
  shows "m @ c # u = m' @ c # u' \<longleftrightarrow> m = m' \<and> u = u'"
proof
  have "takeWhile (\<lambda>x. x \<noteq> c) (k @ c # v) = k" if "c \<notin> set k" for k v
    using that by (induction k) auto
  moreover assume eq: "m @ c # u = m' @ c # u'"
  ultimately have "m = m'" using assms arg_cong [OF eq, of "takeWhile (\<lambda>x. x \<noteq> c)"] by metis
  with eq show "m = m' \<and> u = u'" by simp
qed simp

interpretation routes: key_table routable add_route find_route
proof
  fix k k' :: "string \<times> string" and v :: handle_func and t :: router
  assume "routable k" "routable k'"
  then show "find_route (add_route k v t) k' = (if k' = k then Some v else find_route t k')"
    by (auto simp: find_route_def add_route_def AddRouter_def routable_def Join_eq route_key_inject split: if_splits)
qed

text \<open>Every registered key ends with the slash of its URL.\<close>

definition slash_keys :: "router \<Rightarrow> bool" where
  "slash_keys r \<longleftrightarrow> (\<forall>key h. handlers r key = Some h \<longrightarrow> suffix ''/'' key)"

lemma slash_keys_AddRouter: "slash_keys r \<Longrightarrow> slash_keys (AddRouter m u h r)"
  by (auto simp: slash_keys_def AddRouter_def EndsWith_suffix Join_eq suffix_def)

lemma slash_keys_fold: "slash_keys r \<Longrightarrow> slash_keys (fold (\<lambda>(m, u, h). AddRouter m u h) regs r)"
  by (induction regs arbitrary: r) (auto simp: slash_keys_AddRouter)

lemma slash_keys_new: "slash_keys new_router"
  by (simp add: slash_keys_def new_router_def)

lemma fold_add_route:
  "fold (\<lambda>(m, u, h). AddRouter m u h) regs = fold (\<lambda>(k, h). add_route k h) (map (\<lambda>(m, u, h). ((m, u), h)) regs)"
  by (induction regs) (auto simp: add_route_def)

section \<open>Properties\<close>

text \<open>
  Claim C29. A request is handled by the last handler registered for its method and URL, and
  answered with the 404 page when there is none; for methods without a dash and URLs that
  end with a slash.
\<close>

theorem Handle_last_registration:
  assumes "routable (ctx_method ctx, ctx_path ctx)" "\<forall>(m, u, h) \<in> set regs. routable (m, u)"
  shows "Handle fmt ctx (fold (\<lambda>(m, u, h). AddRouter m u h) regs new_router) =
    (case map_of (rev (map (\<lambda>(m, u, h). ((m, u), h)) regs)) (ctx_method ctx, ctx_path ctx) of
       Some h \<Rightarrow> h ctx
     | None \<Rightarrow> HTML 404 (fmt not_found [ctx_method ctx, ctx_path ctx]) ctx)"
proof -
  have "find_route new_router k = None" for k by (simp add: find_route_def new_router_def split_beta)
  moreover have "\<forall>(k, h) \<in> set (map (\<lambda>(m, u, h). ((m, u), h)) regs). routable k" using assms(2) by auto
  ultimately show ?thesis
    using routes.find_fold [OF assms(1), of "map (\<lambda>(m, u, h). ((m, u), h)) regs" new_router]
    by (simp add: Handle_find_route fold_add_route split: option.splits)
qed

definition example_ctx :: http_context where
  "example_ctx = new_context (new_request\<lparr>req_method := ''GET'', url := ''/a/''\<rparr>)
     \<lparr>resp_buffer = [], status_code = 0, resp_version = ''HTTP/1.1'', resp_headers = []\<rparr>"

theorem Handle_last_registration_witness:
  "Handle (\<lambda>f args. f) example_ctx (fold (\<lambda>(m, u, h). AddRouter m u h) [(''GET'', ''/a/'', Status 201), (''GET'', ''/a/'', Status 202)] new_router) =
    Status 202 example_ctx"
  using Handle_last_registration [of example_ctx "[(''GET'', ''/a/'', Status 201), (''GET'', ''/a/'', Status 202)]" "\<lambda>f args. f"]
  by (simp add: example_ctx_def new_context_def routable_def EndsWith_def new_request_def)

text \<open>
  The router looks the whole URL up, parameters included. As every registered URL
  ends with a slash, a URL that does not (one with a parameter value, say) is never routed:
  whatever was registered, the answer is the 404 page.
\<close>

theorem url_with_params_not_routed:
  assumes "\<not> EndsWith (ctx_path ctx) ''/''"
  shows "Handle fmt ctx (fold (\<lambda>(m, u, h). AddRouter m u h) regs new_router) =
    HTML 404 (fmt not_found [ctx_method ctx, ctx_path ctx]) ctx"
proof -
  have "\<not> suffix ''/'' (Join [ctx_method ctx, ctx_path ctx] ''-'')"
    using assms by (cases "ctx_path ctx" rule: rev_cases) (auto simp: EndsWith_suffix Join_eq suffix_def)
  then show ?thesis
    using slash_keys_fold [OF slash_keys_new, of regs]
    by (auto simp: Handle_def slash_keys_def split: option.splits)
qed

theorem url_with_params_not_routed_witness:
  "Handle (\<lambda>f args. f) (example_ctx\<lparr>ctx_path := ''/a/&name=pgj''\<rparr>) (fold (\<lambda>(m, u, h). AddRouter m u h) [(''GET'', ''/a/'', Status 201)] new_router) =
    HTML 404 not_found (example_ctx\<lparr>ctx_path := ''/a/&name=pgj''\<rparr>)"
  using url_with_params_not_routed [of "example_ctx\<lparr>ctx_path := ''/a/&name=pgj''\<rparr>" "\<lambda>f args. f" "[(''GET'', ''/a/'', Status 201)]"]
  by (simp add: EndsWith_def)

end
