(* ===== verification/Event_Manager.thy ===== *)
theory Event_Manager
  imports Luce_Prelude
begin

text \<open>
  Sockets and the epoll manager: \<open>luce/net/socket.h\<close>, \<open>luce/net/event_manager.{h,cpp}\<close> and
  the connection object of \<open>luce/net/tcp/tcp_connection.{h,cpp}\<close>.

  The epoll instance belongs to the operating system. Its calls are parameters: \<open>ctl\<close> is
  \<open>epoll_ctl\<close> (true for success), \<open>kclose\<close> is what closing a descriptor does to the
  instance; \<open>interest\<close> is its interest list. What the code relies on is the predicate
  \<open>epoll_laws\<close>. \<open>LOG_FATAL\<close> ends the process: it is the error \<open>Fatal\<close>. A coroutine that
  is suspended and not resumed yet is \<open>Suspended\<close>, resuming a null handle is \<open>NullHandle\<close>.
\<close>

datatype net_stop = Fatal | Suspended | NullHandle

datatype epoll_op = CTL_ADD | CTL_MOD | CTL_DEL

definition EPOLLIN :: u32 where "EPOLLIN = 1"
definition EPOLLOUT :: u32 where "EPOLLOUT = 4"
definition EPOLLET :: u32 where "EPOLLET = 0x80000000"

section \<open>Sockets\<close>

record 'h socket =
  sock_fd :: int
  io_state :: u32
  detached :: bool
  sock_is_closed :: bool
  recv_coro :: "'h option"
  send_coro :: "'h option"

definition new_socket :: "int \<Rightarrow> 'h socket" where
  "new_socket fd = \<lparr>sock_fd = fd, io_state = 0, detached = True, sock_is_closed = False,
     recv_coro = None, send_coro = None\<rparr>"

definition SetIOState :: "u32 \<Rightarrow> 'h socket \<Rightarrow> 'h socket" where
  "SetIOState st s = s\<lparr>io_state := st\<rparr>"

definition EventAttach :: "'h socket \<Rightarrow> 'h socket" where
  "EventAttach s = s\<lparr>detached := False\<rparr>"

definition EventDetach :: "'h socket \<Rightarrow> 'h socket" where
  "EventDetach s = s\<lparr>detached := True\<rparr>"

definition Attached :: "'h socket \<Rightarrow> bool" where
  "Attached s \<longleftrightarrow> \<not> detached s"

definition SetRecvCoro :: "'h \<Rightarrow> 'h socket \<Rightarrow> 'h socket" where
  "SetRecvCoro h s = s\<lparr>recv_coro := Some h\<rparr>"

definition DelRecvCoro :: "'h socket \<Rightarrow> 'h socket" where
  "DelRecvCoro s = s\<lparr>recv_coro := None\<rparr>"

definition SetSendCoro :: "'h \<Rightarrow> 'h socket \<Rightarrow> 'h socket" where
  "SetSendCoro h s = s\<lparr>send_coro := Some h\<rparr>"

definition DelSendCoro :: "'h socket \<Rightarrow> 'h socket" where
  "DelSendCoro s = s\<lparr>send_coro := None\<rparr>"

section \<open>The event manager\<close>

record 'k event_manager =
  is_shutdown :: bool
  epfd :: 'k
  events_size :: nat

type_synonym 'k ctl = "epoll_op \<Rightarrow> int \<Rightarrow> u32 \<Rightarrow> 'k \<Rightarrow> bool \<times> 'k"
type_synonym ('h, 'k) net = "'h socket \<times> 'k event_manager"

definition new_event_manager :: "'k \<Rightarrow> nat \<Rightarrow> 'k event_manager" where
  "new_event_manager k init_size = \<lparr>is_shutdown = False, epfd = k, events_size = init_size\<rparr>"

definition em_Shutdown :: "'k event_manager \<Rightarrow> 'k event_manager" where
  "em_Shutdown em = em\<lparr>is_shutdown := True\<rparr>"

definition epoll_call :: "'k ctl \<Rightarrow> epoll_op \<Rightarrow> u32 \<Rightarrow> ('h, 'k) net \<Rightarrow> net_stop + ('h, 'k) net" where
  "epoll_call ctl op ev = (\<lambda>(s, em). case ctl op (sock_fd s) ev (epfd em) of
     (ok, k) \<Rightarrow> if ok then Inr (s, em\<lparr>epfd := k\<rparr>) else Inl Fatal)"

definition Attach :: "'k ctl \<Rightarrow> u32 \<Rightarrow> ('h, 'k) net \<Rightarrow> net_stop + ('h, 'k) net" where
  "Attach ctl events = (\<lambda>(s, em). epoll_call ctl CTL_ADD events (EventAttach (SetIOState events s), em))"

definition Detach :: "'k ctl \<Rightarrow> ('h, 'k) net \<Rightarrow> net_stop + ('h, 'k) net" where
  "Detach ctl = (\<lambda>(s, em). epoll_call ctl CTL_DEL 0 (EventDetach s, em))"

definition UpdateEvent :: "'k ctl \<Rightarrow> u32 \<Rightarrow> ('h, 'k) net \<Rightarrow> net_stop + ('h, 'k) net" where
  "UpdateEvent ctl new_state = epoll_call ctl CTL_MOD new_state"

definition AddRecv :: "'k ctl \<Rightarrow> 'h \<Rightarrow> ('h, 'k) net \<Rightarrow> net_stop + ('h, 'k) net" where
  "AddRecv ctl h = (\<lambda>(s, em).
     if is_shutdown em then Inr (s, em)
     else try_bind (if \<not> Attached s then Attach ctl (EPOLLIN OR EPOLLET) (s, em) else Inr (s, em)) (\<lambda>(s1, em1).
       let s2 = SetRecvCoro h s1; new_state = io_state s2 OR EPOLLIN in
       UpdateEvent ctl new_state (SetIOState new_state s2, em1)))"

definition DelRecv :: "'k ctl \<Rightarrow> ('h, 'k) net \<Rightarrow> net_stop + ('h, 'k) net" where
  "DelRecv ctl = (\<lambda>(s, em).
     if is_shutdown em then Inr (s, em)
     else let s1 = DelRecvCoro s; new_state = io_state s1 AND NOT EPOLLIN in
       UpdateEvent ctl new_state (SetIOState new_state s1, em))"

definition AddSend :: "'k ctl \<Rightarrow> 'h \<Rightarrow> ('h, 'k) net \<Rightarrow> net_stop + ('h, 'k) net" where
  "AddSend ctl h = (\<lambda>(s, em).
     if is_shutdown em then Inr (s, em)
     else try_bind (if \<not> Attached s then Attach ctl (EPOLLOUT OR EPOLLET) (s, em) else Inr (s, em)) (\<lambda>(s1, em1).
       let s2 = SetSendCoro h s1; new_state = io_state s2 OR EPOLLOUT in
       UpdateEvent ctl new_state (SetIOState new_state s2, em1)))"

definition DelSend :: "'k ctl \<Rightarrow> ('h, 'k) net \<Rightarrow> net_stop + ('h, 'k) net" where
  "DelSend ctl = (\<lambda>(s, em).
     if is_shutdown em then Inr (s, em)
     else let s1 = DelSendCoro s; new_state = io_state s1 AND NOT EPOLLOUT in
       UpdateEvent ctl new_state (SetIOState new_state s1, em))"

text \<open>
  \<open>Start\<close>: the results of \<open>epoll_wait\<close> are given as a list; each event carries its mask and
  the address of a socket's handle. What a resumed coroutine does to the program state is
  the parameter \<open>resume\<close>. Without a worker pool the handle is read and resumed at once; with
  one (\<open>pool\<close>) a task is committed that reads the handle when it runs.
\<close>

datatype wait_result = WaitError bool | WaitEvents "(u32 \<times> nat) list"

datatype 'h resumption = ResumeRecv nat 'h | ResumeSend nat 'h | CommitRecv nat | CommitSend nat

datatype direction = ToRecv | ToSend

definition event_direction :: "u32 \<Rightarrow> direction option" where
  "event_direction ev =
     (if ev AND EPOLLIN \<noteq> 0 then Some ToRecv
      else if ev AND EPOLLOUT \<noteq> 0 then Some ToSend
      else None)"

definition resume_event :: "bool \<Rightarrow> ('s \<Rightarrow> nat \<Rightarrow> 'h socket) \<Rightarrow> ('h resumption \<Rightarrow> 's \<Rightarrow> 's) \<Rightarrow> u32 \<times> nat \<Rightarrow> 's \<Rightarrow> net_stop + 's" where
  "resume_event pool socks resume = (\<lambda>(ev, ptr) st. case event_direction ev of
     None \<Rightarrow> Inr st
   | Some ToRecv \<Rightarrow>
       if pool then Inr (resume (CommitRecv ptr) st)
       else (case recv_coro (socks st ptr) of None \<Rightarrow> Inl NullHandle | Some h \<Rightarrow> Inr (resume (ResumeRecv ptr h) st))
   | Some ToSend \<Rightarrow>
       if pool then Inr (resume (CommitSend ptr) st)
       else (case send_coro (socks st ptr) of None \<Rightarrow> Inl NullHandle | Some h \<Rightarrow> Inr (resume (ResumeSend ptr h) st)))"

fun dispatch :: "bool \<Rightarrow> ('s \<Rightarrow> nat \<Rightarrow> 'h socket) \<Rightarrow> ('h resumption \<Rightarrow> 's \<Rightarrow> 's) \<Rightarrow> (u32 \<times> nat) list \<Rightarrow> 's \<Rightarrow> net_stop + 's" where
  "dispatch pool socks resume [] st = Inr st"
| "dispatch pool socks resume (e # es) st = try_bind (resume_event pool socks resume e st) (dispatch pool socks resume es)"

definition grow_events :: "nat \<Rightarrow> 'k event_manager \<Rightarrow> 'k event_manager" where
  "grow_events event_num em =
     (if event_num = events_size em then em\<lparr>events_size := events_size em * 2\<rparr> else em)"

fun Start :: "bool \<Rightarrow> ('s \<Rightarrow> nat \<Rightarrow> 'h socket) \<Rightarrow> ('h resumption \<Rightarrow> 's \<Rightarrow> 's) \<Rightarrow> ('s \<Rightarrow> bool) \<Rightarrow>
    wait_result list \<Rightarrow> 's \<Rightarrow> 'k event_manager \<Rightarrow> net_stop + 's \<times> 'k event_manager" where
  "Start pool socks resume stopped [] st em = (if stopped st then Inr (st, em) else Inl Suspended)"
| "Start pool socks resume stopped (WaitError eintr # ws) st em =
     (if stopped st then Inr (st, em)
      else if eintr then Start pool socks resume stopped ws st em else Inl Fatal)"
| "Start pool socks resume stopped (WaitEvents es # ws) st em =
     (if stopped st then Inr (st, em)
      else try_bind (dispatch pool socks resume es st) (\<lambda>st'.
        Start pool socks resume stopped ws st' (grow_events (length es) em)))"

section \<open>Connections\<close>

text \<open>\<open>Close\<close> closes the descriptor once; the destructor detaches an attached socket.\<close>

record ('h, 'k) tcp_connection =
  conn_net :: "('h, 'k) net"
  conn_closed :: bool

definition new_connection :: "int \<Rightarrow> 'k event_manager \<Rightarrow> ('h, 'k) tcp_connection" where
  "new_connection fd em = \<lparr>conn_net = (new_socket fd, em), conn_closed = False\<rparr>"

definition sock_Close :: "(int \<Rightarrow> 'k \<Rightarrow> 'k) \<Rightarrow> ('h, 'k) net \<Rightarrow> ('h, 'k) net" where
  "sock_Close kclose = (\<lambda>(s, em). (s\<lparr>sock_is_closed := True\<rparr>, em\<lparr>epfd := kclose (sock_fd s) (epfd em)\<rparr>))"

definition conn_Close :: "(int \<Rightarrow> 'k \<Rightarrow> 'k) \<Rightarrow> ('h, 'k) tcp_connection \<Rightarrow> ('h, 'k) tcp_connection" where
  "conn_Close kclose c =
     (if \<not> conn_closed c then c\<lparr>conn_net := sock_Close kclose (conn_net c), conn_closed := True\<rparr>
      else c\<lparr>conn_closed := True\<rparr>)"

definition destroy_connection :: "'k ctl \<Rightarrow> ('h, 'k) tcp_connection \<Rightarrow> net_stop + ('h, 'k) tcp_connection" where
  "destroy_connection ctl c = (case conn_net c of (s, em) \<Rightarrow>
     if sock_fd s \<noteq> - 1 \<and> Attached s
     then try_bind (Detach ctl (s, em)) (\<lambda>n. Inr (c\<lparr>conn_net := n\<rparr>))
     else Inr c)"

lemmas socket_defs = SetIOState_def EventAttach_def EventDetach_def Attached_def
  SetRecvCoro_def DelRecvCoro_def SetSendCoro_def DelSendCoro_def

lemma socket_commute:
  "s\<lparr>recv_coro := h, io_state := e\<rparr> = s\<lparr>io_state := e, recv_coro := h\<rparr>"
  "s\<lparr>send_coro := h, io_state := e\<rparr> = s\<lparr>io_state := e, send_coro := h\<rparr>"
  "s\<lparr>detached := d, io_state := e\<rparr> = s\<lparr>io_state := e, detached := d\<rparr>"
  by simp_all

lemmas em_defs = socket_defs epoll_call_def Attach_def Detach_def UpdateEvent_def
  AddRecv_def DelRecv_def AddSend_def DelSend_def

section \<open>What the code relies on of epoll\<close>

definition epoll_laws :: "'k ctl \<Rightarrow> (int \<Rightarrow> 'k \<Rightarrow> 'k) \<Rightarrow> ('k \<Rightarrow> int \<rightharpoonup> u32) \<Rightarrow> bool" where
  "epoll_laws ctl kclose interest \<longleftrightarrow>
     (\<forall>k f ev. interest k f = None \<longrightarrow>
        fst (ctl CTL_ADD f ev k) \<and> interest (snd (ctl CTL_ADD f ev k)) = (interest k)(f \<mapsto> ev)) \<and>
     (\<forall>k f ev. interest k f \<noteq> None \<longrightarrow>
        fst (ctl CTL_MOD f ev k) \<and> interest (snd (ctl CTL_MOD f ev k)) = (interest k)(f \<mapsto> ev)) \<and>
     (\<forall>k f ev. interest k f \<noteq> None \<longrightarrow>
        fst (ctl CTL_DEL f ev k) \<and> interest (snd (ctl CTL_DEL f ev k)) = (interest k)(f := None)) \<and>
     (\<forall>k f ev. interest k f = None \<longrightarrow> \<not> fst (ctl CTL_MOD f ev k) \<and> \<not> fst (ctl CTL_DEL f ev k)) \<and>
     (\<forall>k f. interest (kclose f k) = (interest k)(f := None))"

text \<open>An interest list as a map satisfies the laws.\<close>

definition map_ctl :: "(int \<rightharpoonup> u32) ctl" where
  "map_ctl op f ev k = (case op of
     CTL_ADD \<Rightarrow> if k f = None then (True, k(f \<mapsto> ev)) else (False, k)
   | CTL_MOD \<Rightarrow> if k f = None then (False, k) else (True, k(f \<mapsto> ev))
   | CTL_DEL \<Rightarrow> if k f = None then (False, k) else (True, k(f := None)))"

definition map_close :: "int \<Rightarrow> (int \<rightharpoonup> u32) \<Rightarrow> (int \<rightharpoonup> u32)" where
  "map_close f k = k(f := None)"

lemma map_epoll_laws: "epoll_laws map_ctl map_close id"
  by (simp add: epoll_laws_def map_ctl_def map_close_def)

section \<open>The socket's view agrees with the interest list\<close>

definition em_agrees :: "('k \<Rightarrow> int \<rightharpoonup> u32) \<Rightarrow> ('h, 'k) net \<Rightarrow> bool" where
  "em_agrees interest = (\<lambda>(s, em). interest (epfd em) (sock_fd s) = (if detached s then None else Some (io_state s)))"

lemma epoll_call_eq: "epoll_call ctl op ev (s, em) =
    (let r = ctl op (sock_fd s) ev (epfd em) in if fst r then Inr (s, em\<lparr>epfd := snd r\<rparr>) else Inl Fatal)"
  by (simp add: epoll_call_def split_beta Let_def)

lemma epoll_call_MOD:
  assumes "epoll_laws ctl kclose interest" "interest (epfd em) (sock_fd s) \<noteq> None"
  obtains k where "epoll_call ctl CTL_MOD ev (s, em) = Inr (s, em\<lparr>epfd := k\<rparr>)"
    "interest k = (interest (epfd em))(sock_fd s \<mapsto> ev)"
proof -
  have "fst (ctl CTL_MOD (sock_fd s) ev (epfd em)) \<and>
      interest (snd (ctl CTL_MOD (sock_fd s) ev (epfd em))) = (interest (epfd em))(sock_fd s \<mapsto> ev)"
    using assms unfolding epoll_laws_def by blast
  then show ?thesis using that by (simp add: epoll_call_eq)
qed

lemma epoll_call_ADD:
  assumes "epoll_laws ctl kclose interest" "interest (epfd em) (sock_fd s) = None"
  obtains k where "epoll_call ctl CTL_ADD ev (s, em) = Inr (s, em\<lparr>epfd := k\<rparr>)"
    "interest k = (interest (epfd em))(sock_fd s \<mapsto> ev)"
proof -
  have "fst (ctl CTL_ADD (sock_fd s) ev (epfd em)) \<and>
      interest (snd (ctl CTL_ADD (sock_fd s) ev (epfd em))) = (interest (epfd em))(sock_fd s \<mapsto> ev)"
    using assms unfolding epoll_laws_def by blast
  then show ?thesis using that by (simp add: epoll_call_eq)
qed

lemma epoll_call_DEL:
  assumes "epoll_laws ctl kclose interest" "interest (epfd em) (sock_fd s) \<noteq> None"
  obtains k where "epoll_call ctl CTL_DEL ev (s, em) = Inr (s, em\<lparr>epfd := k\<rparr>)"
    "interest k = (interest (epfd em))(sock_fd s := None)"
proof -
  have "fst (ctl CTL_DEL (sock_fd s) ev (epfd em)) \<and>
      interest (snd (ctl CTL_DEL (sock_fd s) ev (epfd em))) = (interest (epfd em))(sock_fd s := None)"
    using assms unfolding epoll_laws_def by blast
  then show ?thesis using that by (simp add: epoll_call_eq)
qed

lemma epoll_call_unregistered:
  assumes "epoll_laws ctl kclose interest" "interest (epfd em) (sock_fd s) = None"
  shows "epoll_call ctl CTL_MOD ev (s, em) = Inl Fatal" "epoll_call ctl CTL_DEL ev (s, em) = Inl Fatal"
proof -
  have "\<not> fst (ctl CTL_MOD (sock_fd s) ev (epfd em)) \<and> \<not> fst (ctl CTL_DEL (sock_fd s) ev (epfd em))"
    using assms unfolding epoll_laws_def by blast
  then show "epoll_call ctl CTL_MOD ev (s, em) = Inl Fatal" "epoll_call ctl CTL_DEL ev (s, em) = Inl Fatal"
    by (simp_all add: epoll_call_eq)
qed

section \<open>Operations on the interest list\<close>

text \<open>
  What each operation does, in terms of the socket alone: the interest list follows the
  socket's state, other descriptors keep their entries.
\<close>

definition same_others :: "('k \<Rightarrow> int \<rightharpoonup> u32) \<Rightarrow> int \<Rightarrow> 'k event_manager \<Rightarrow> 'k event_manager \<Rightarrow> bool" where
  "same_others interest f em em' \<longleftrightarrow>
     is_shutdown em' = is_shutdown em \<and> (\<forall>g. g \<noteq> f \<longrightarrow> interest (epfd em') g = interest (epfd em) g)"

lemma same_others_refl [simp]: "same_others interest f em em"
  by (simp add: same_others_def)

lemma same_others_trans:
  "same_others interest f a b \<Longrightarrow> same_others interest f b c \<Longrightarrow> same_others interest f a c"
  by (simp add: same_others_def)

lemma UpdateEvent_attached:
  assumes laws: "epoll_laws ctl kclose interest" and i: "interest (epfd em) (sock_fd s) \<noteq> None"
    and s: "\<not> detached s" "io_state s = ev"
  obtains em' where "UpdateEvent ctl ev (s, em) = Inr (s, em')" "em_agrees interest (s, em')"
    "same_others interest (sock_fd s) em em'"
proof -
  obtain k where "epoll_call ctl CTL_MOD ev (s, em) = Inr (s, em\<lparr>epfd := k\<rparr>)"
    "interest k = (interest (epfd em))(sock_fd s \<mapsto> ev)" by (rule epoll_call_MOD [OF laws i])
  then show ?thesis
    using s by (intro that [of "em\<lparr>epfd := k\<rparr>"]) (simp_all add: UpdateEvent_def em_agrees_def same_others_def)
qed

lemma Attach_ok:
  assumes laws: "epoll_laws ctl kclose interest" and agr: "em_agrees interest (s, em)" and s: "detached s"
  obtains em' where "Attach ctl ev (s, em) = Inr (s\<lparr>io_state := ev, detached := False\<rparr>, em')"
    "em_agrees interest (s\<lparr>io_state := ev, detached := False\<rparr>, em')" "same_others interest (sock_fd s) em em'"
proof -
  let ?s = "s\<lparr>io_state := ev, detached := False\<rparr>"
  have "interest (epfd em) (sock_fd ?s) = None" using agr s by (simp add: em_agrees_def)
  then obtain k where "epoll_call ctl CTL_ADD ev (?s, em) = Inr (?s, em\<lparr>epfd := k\<rparr>)"
    "interest k = (interest (epfd em))(sock_fd ?s \<mapsto> ev)" by (rule epoll_call_ADD [OF laws])
  then show ?thesis
    by (intro that [of "em\<lparr>epfd := k\<rparr>"]) (simp_all add: Attach_def socket_defs em_agrees_def same_others_def)
qed

lemma Detach_ok:
  assumes laws: "epoll_laws ctl kclose interest" and agr: "em_agrees interest (s, em)" and s: "\<not> detached s"
  obtains em' where "Detach ctl (s, em) = Inr (s\<lparr>detached := True\<rparr>, em')"
    "em_agrees interest (s\<lparr>detached := True\<rparr>, em')" "same_others interest (sock_fd s) em em'"
proof -
  let ?s = "s\<lparr>detached := True\<rparr>"
  have "interest (epfd em) (sock_fd ?s) \<noteq> None" using agr s by (simp add: em_agrees_def)
  then obtain k where "epoll_call ctl CTL_DEL 0 (?s, em) = Inr (?s, em\<lparr>epfd := k\<rparr>)"
    "interest k = (interest (epfd em))(sock_fd ?s := None)" by (rule epoll_call_DEL [OF laws])
  then show ?thesis
    by (intro that [of "em\<lparr>epfd := k\<rparr>"]) (simp_all add: Detach_def socket_defs em_agrees_def same_others_def)
qed

text \<open>The event mask a socket has after an event is added, and the common part of
  \<open>AddRecv\<close> and \<open>AddSend\<close>.\<close>

definition attach_state :: "u32 \<Rightarrow> 'h socket \<Rightarrow> u32" where
  "attach_state ev s = (if detached s then ev OR EPOLLET else io_state s OR ev)"

lemma add_event:
  assumes laws: "epoll_laws ctl kclose interest" and agr: "em_agrees interest (s, em)"
    and f: "\<And>s. sock_fd (f s) = sock_fd s" "\<And>s. io_state (f s) = io_state s" "\<And>s. detached (f s) = detached s"
  obtains em' where
    "try_bind (if \<not> Attached s then Attach ctl (ev OR EPOLLET) (s, em) else Inr (s, em))
       (\<lambda>(s1, em1). UpdateEvent ctl (io_state s1 OR ev) (f (s1\<lparr>io_state := io_state s1 OR ev\<rparr>), em1)) =
     Inr (f (s\<lparr>io_state := attach_state ev s, detached := False\<rparr>), em')"
    "em_agrees interest (f (s\<lparr>io_state := attach_state ev s, detached := False\<rparr>), em')"
    "same_others interest (sock_fd s) em em'"
proof -
  define s1 where "s1 = s\<lparr>io_state := if detached s then ev OR EPOLLET else io_state s, detached := False\<rparr>"
  obtain em1 where 1: "(if \<not> Attached s then Attach ctl (ev OR EPOLLET) (s, em) else Inr (s, em)) = Inr (s1, em1)"
    "em_agrees interest (s1, em1)" "same_others interest (sock_fd s) em em1"
  proof (cases "detached s")
    case True
    show ?thesis
      by (rule Attach_ok [OF laws agr True, of "ev OR EPOLLET"], rule that)
        (use True in \<open>simp_all add: Attached_def s1_def\<close>)
  next
    case False
    then have "s1 = s" by (simp add: s1_def)
    with False show ?thesis using that [of em] agr by (simp add: Attached_def)
  qed
  let ?s' = "f (s\<lparr>io_state := attach_state ev s, detached := False\<rparr>)"
  have st: "io_state s1 OR ev = attach_state ev s"
    by (simp add: s1_def attach_state_def or.assoc or.commute or.left_commute)
  then have s1: "f (s1\<lparr>io_state := io_state s1 OR ev\<rparr>) = ?s'" by (simp add: s1_def socket_commute)
  have "interest (epfd em1) (sock_fd ?s') \<noteq> None" using 1(2) f by (simp add: em_agrees_def s1_def)
  then obtain em' where "UpdateEvent ctl (attach_state ev s) (?s', em1) = Inr (?s', em')"
    "em_agrees interest (?s', em')" "same_others interest (sock_fd ?s') em1 em'"
    by (rule UpdateEvent_attached [OF laws]) (simp_all add: f)
  then show ?thesis
    using 1 s1 st f by (intro that [of em']) (auto intro: same_others_trans)
qed

lemma AddRecv_ok:
  assumes "epoll_laws ctl kclose interest" "em_agrees interest (s, em)" "\<not> is_shutdown em"
  obtains em' where "AddRecv ctl h (s, em) =
      Inr (s\<lparr>io_state := attach_state EPOLLIN s, detached := False, recv_coro := Some h\<rparr>, em')"
    "em_agrees interest (s\<lparr>io_state := attach_state EPOLLIN s, detached := False, recv_coro := Some h\<rparr>, em')"
    "same_others interest (sock_fd s) em em'"
  using assms(3) by (rule_tac add_event [OF assms(1,2), of "\<lambda>s. s\<lparr>recv_coro := Some h\<rparr>" EPOLLIN])
    (simp_all add: AddRecv_def socket_defs Let_def socket_commute)

lemma AddSend_ok:
  assumes "epoll_laws ctl kclose interest" "em_agrees interest (s, em)" "\<not> is_shutdown em"
  obtains em' where "AddSend ctl h (s, em) =
      Inr (s\<lparr>io_state := attach_state EPOLLOUT s, detached := False, send_coro := Some h\<rparr>, em')"
    "em_agrees interest (s\<lparr>io_state := attach_state EPOLLOUT s, detached := False, send_coro := Some h\<rparr>, em')"
    "same_others interest (sock_fd s) em em'"
  using assms(3) by (rule_tac add_event [OF assms(1,2), of "\<lambda>s. s\<lparr>send_coro := Some h\<rparr>" EPOLLOUT])
    (simp_all add: AddSend_def socket_defs Let_def socket_commute)

lemma DelRecv_ok:
  assumes laws: "epoll_laws ctl kclose interest" and agr: "em_agrees interest (s, em)"
    and run: "\<not> is_shutdown em" and s: "\<not> detached s"
  obtains em' where "DelRecv ctl (s, em) = Inr (s\<lparr>io_state := io_state s AND NOT EPOLLIN, recv_coro := None\<rparr>, em')"
    "em_agrees interest (s\<lparr>io_state := io_state s AND NOT EPOLLIN, recv_coro := None\<rparr>, em')"
    "same_others interest (sock_fd s) em em'"
proof -
  let ?s = "s\<lparr>io_state := io_state s AND NOT EPOLLIN, recv_coro := None\<rparr>"
  have "interest (epfd em) (sock_fd ?s) \<noteq> None" using agr s by (simp add: em_agrees_def)
  then show ?thesis
    by (rule UpdateEvent_attached [OF laws, where ev = "io_state s AND NOT EPOLLIN"])
      (use run s that in \<open>simp_all add: DelRecv_def socket_defs Let_def socket_commute\<close>)
qed

lemma DelSend_ok:
  assumes laws: "epoll_laws ctl kclose interest" and agr: "em_agrees interest (s, em)"
    and run: "\<not> is_shutdown em" and s: "\<not> detached s"
  obtains em' where "DelSend ctl (s, em) = Inr (s\<lparr>io_state := io_state s AND NOT EPOLLOUT, send_coro := None\<rparr>, em')"
    "em_agrees interest (s\<lparr>io_state := io_state s AND NOT EPOLLOUT, send_coro := None\<rparr>, em')"
    "same_others interest (sock_fd s) em em'"
proof -
  let ?s = "s\<lparr>io_state := io_state s AND NOT EPOLLOUT, send_coro := None\<rparr>"
  have "interest (epfd em) (sock_fd ?s) \<noteq> None" using agr s by (simp add: em_agrees_def)
  then show ?thesis
    by (rule UpdateEvent_attached [OF laws, where ev = "io_state s AND NOT EPOLLOUT"])
      (use run s that in \<open>simp_all add: DelSend_def socket_defs Let_def socket_commute\<close>)
qed

section \<open>Reachable states\<close>

lemma DelRecv_detached:
  assumes "epoll_laws ctl kclose interest" "em_agrees interest (s, em)" "\<not> is_shutdown em" "detached s"
  shows "DelRecv ctl (s, em) = Inl Fatal"
  using assms by (simp add: DelRecv_def UpdateEvent_def socket_defs Let_def em_agrees_def
      epoll_call_unregistered [OF assms(1)])

lemma DelSend_detached:
  assumes "epoll_laws ctl kclose interest" "em_agrees interest (s, em)" "\<not> is_shutdown em" "detached s"
  shows "DelSend ctl (s, em) = Inl Fatal"
  using assms by (simp add: DelSend_def UpdateEvent_def socket_defs Let_def em_agrees_def
      epoll_call_unregistered [OF assms(1)])

lemma Detach_detached:
  assumes "epoll_laws ctl kclose interest" "interest (epfd em) (sock_fd s) = None"
  shows "Detach ctl (s, em) = Inl Fatal"
  using assms by (simp add: Detach_def socket_defs epoll_call_unregistered [OF assms(1)])

inductive em_step :: "'k ctl \<Rightarrow> ('h, 'k) net \<Rightarrow> ('h, 'k) net \<Rightarrow> bool" for ctl where
  add_recv: "AddRecv ctl h n = Inr n' \<Longrightarrow> em_step ctl n n'"
| del_recv: "DelRecv ctl n = Inr n' \<Longrightarrow> em_step ctl n n'"
| add_send: "AddSend ctl h n = Inr n' \<Longrightarrow> em_step ctl n n'"
| del_send: "DelSend ctl n = Inr n' \<Longrightarrow> em_step ctl n n'"
| detach: "Detach ctl n = Inr n' \<Longrightarrow> em_step ctl n n'"
| shut: "em_step ctl (s, em) (s, em_Shutdown em)"

definition em_inv :: "'k ctl \<Rightarrow> (int \<Rightarrow> 'k \<Rightarrow> 'k) \<Rightarrow> ('k \<Rightarrow> int \<rightharpoonup> u32) \<Rightarrow> ('h, 'k) net \<Rightarrow> bool" where
  "em_inv ctl kclose interest n \<longleftrightarrow> epoll_laws ctl kclose interest \<and> em_agrees interest n"

definition em_init :: "'k ctl \<Rightarrow> (int \<Rightarrow> 'k \<Rightarrow> 'k) \<Rightarrow> ('k \<Rightarrow> int \<rightharpoonup> u32) \<Rightarrow> ('h, 'k) net \<Rightarrow> bool" where
  "em_init ctl kclose interest = (\<lambda>(s, em). epoll_laws ctl kclose interest \<and>
     (\<exists>fd. s = new_socket fd \<and> interest (epfd em) fd = None))"

lemma AddRecv_agrees [step_inv]:
  assumes "epoll_laws ctl kclose interest" "em_agrees interest n" "AddRecv ctl h n = Inr n'"
  shows "em_agrees interest n'"
proof (cases n)
  case (Pair s em)
  then show ?thesis
    using assms AddRecv_ok [of ctl kclose interest s em h]
    by (cases "is_shutdown em") (force simp: AddRecv_def)+
qed

lemma AddSend_agrees [step_inv]:
  assumes "epoll_laws ctl kclose interest" "em_agrees interest n" "AddSend ctl h n = Inr n'"
  shows "em_agrees interest n'"
proof (cases n)
  case (Pair s em)
  then show ?thesis
    using assms AddSend_ok [of ctl kclose interest s em h]
    by (cases "is_shutdown em") (force simp: AddSend_def)+
qed

lemma DelRecv_agrees [step_inv]:
  assumes "epoll_laws ctl kclose interest" "em_agrees interest n" "DelRecv ctl n = Inr n'"
  shows "em_agrees interest n'"
proof (cases n)
  case (Pair s em)
  then show ?thesis
    using assms DelRecv_ok [of ctl kclose interest s em] DelRecv_detached [of ctl kclose interest s em]
    by (cases "is_shutdown em"; cases "detached s") (force simp: DelRecv_def)+
qed

lemma DelSend_agrees [step_inv]:
  assumes "epoll_laws ctl kclose interest" "em_agrees interest n" "DelSend ctl n = Inr n'"
  shows "em_agrees interest n'"
proof (cases n)
  case (Pair s em)
  then show ?thesis
    using assms DelSend_ok [of ctl kclose interest s em] DelSend_detached [of ctl kclose interest s em]
    by (cases "is_shutdown em"; cases "detached s") (force simp: DelSend_def)+
qed

lemma Detach_agrees [step_inv]:
  assumes "epoll_laws ctl kclose interest" "em_agrees interest n" "Detach ctl n = Inr n'"
  shows "em_agrees interest n'"
proof (cases n)
  case (Pair s em)
  then show ?thesis
    using assms Detach_ok [of ctl kclose interest s em] Detach_detached [of ctl kclose interest em s]
    by (cases "detached s") (force simp: em_agrees_def)+
qed

interpretation em_sys: step_system "em_init ctl kclose interest" "em_step ctl" "em_inv ctl kclose interest"
  for ctl kclose interest
proof unfold_locales
  fix n assume "em_init ctl kclose interest n"
  then show "em_inv ctl kclose interest n"
    by (cases n) (auto simp: em_init_def em_inv_def em_agrees_def new_socket_def)
next
  fix n n' assume "em_step ctl n n'" and inv: "em_inv ctl kclose interest n"
  then show "em_inv ctl kclose interest n'"
    unfolding em_inv_def
    by (cases rule: em_step.cases) (auto dest: step_inv, auto simp: em_agrees_def em_Shutdown_def)
qed

section \<open>Properties\<close>

text \<open>
  From a new socket, whatever sequence of the manager's operations succeeds, the
  interest list of epoll has the socket exactly when the socket says it is attached, with
  the mask the socket holds.
\<close>

theorem interest_follows_socket:
  assumes "epoll_laws ctl kclose interest" "interest k fd = None"
    and "(em_step ctl)\<^sup>*\<^sup>* (new_socket fd, new_event_manager k n) (s, em)"
  shows "interest (epfd em) (sock_fd s) = (if Attached s then Some (io_state s) else None)"
proof -
  have "em_init ctl kclose interest (new_socket fd, new_event_manager k n)"
    using assms(1,2) by (auto simp: em_init_def new_event_manager_def)
  from em_sys.inv_reachable [OF this assms(3)] show ?thesis
    by (simp add: em_inv_def em_agrees_def Attached_def)
qed

theorem interest_follows_socket_witness:
  "[5 \<mapsto> EPOLLIN OR EPOLLET] (5 :: int) =
    (if Attached ((new_socket 5 :: nat socket)\<lparr>io_state := EPOLLIN OR EPOLLET, detached := False, recv_coro := Some 1\<rparr>)
     then Some (io_state ((new_socket 5 :: nat socket)\<lparr>io_state := EPOLLIN OR EPOLLET, detached := False, recv_coro := Some 1\<rparr>))
     else None)"
proof -
  have "AddRecv map_ctl (1 :: nat) (new_socket 5, new_event_manager Map.empty 16) =
      Inr ((new_socket 5)\<lparr>io_state := EPOLLIN OR EPOLLET, detached := False, recv_coro := Some 1\<rparr>,
        (new_event_manager Map.empty 16)\<lparr>epfd := [5 \<mapsto> EPOLLIN OR EPOLLET]\<rparr>)"
    by (simp add: em_defs map_ctl_def new_event_manager_def new_socket_def Let_def EPOLLIN_def EPOLLET_def)
  then have "(em_step map_ctl)\<^sup>*\<^sup>* (new_socket 5, new_event_manager Map.empty 16)
      ((new_socket 5)\<lparr>io_state := EPOLLIN OR EPOLLET, detached := False, recv_coro := Some (1 :: nat)\<rparr>,
        (new_event_manager Map.empty 16)\<lparr>epfd := [5 \<mapsto> EPOLLIN OR EPOLLET]\<rparr>)"
    by (intro r_into_rtranclp add_recv)
  from interest_follows_socket [OF map_epoll_laws _ this] show ?thesis by (simp add: new_socket_def)
qed

text \<open>
  The registration protocol of an awaiter works from every state in which socket
  and interest list agree: adding a receiver registers readiness for input, edge triggered
  when the socket is new, and removing it again takes only that readiness away; neither
  call ends the process and no other descriptor is touched.
\<close>

theorem recv_registration:
  assumes "epoll_laws ctl kclose interest" "em_agrees interest (s, em)" "\<not> is_shutdown em"
  shows "\<exists>s1 em1 s2 em2. AddRecv ctl h (s, em) = Inr (s1, em1) \<and> recv_coro s1 = Some h \<and>
    interest (epfd em1) (sock_fd s) = Some (if detached s then EPOLLIN OR EPOLLET else io_state s OR EPOLLIN) \<and>
    DelRecv ctl (s1, em1) = Inr (s2, em2) \<and> recv_coro s2 = None \<and> Attached s2 \<and>
    interest (epfd em2) (sock_fd s) = Some ((if detached s then EPOLLET else io_state s) AND NOT EPOLLIN) \<and>
    same_others interest (sock_fd s) em em2"
proof -
  obtain em1 where 1: "AddRecv ctl h (s, em) =
      Inr (s\<lparr>io_state := attach_state EPOLLIN s, detached := False, recv_coro := Some h\<rparr>, em1)"
    "em_agrees interest (s\<lparr>io_state := attach_state EPOLLIN s, detached := False, recv_coro := Some h\<rparr>, em1)"
    "same_others interest (sock_fd s) em em1"
    by (rule AddRecv_ok [OF assms])
  let ?s1 = "s\<lparr>io_state := attach_state EPOLLIN s, detached := False, recv_coro := Some h\<rparr>"
  have "\<not> is_shutdown em1" using 1(3) assms(3) by (simp add: same_others_def)
  then obtain em2 where 2: "DelRecv ctl (?s1, em1) = Inr (?s1\<lparr>io_state := io_state ?s1 AND NOT EPOLLIN, recv_coro := None\<rparr>, em2)"
    "em_agrees interest (?s1\<lparr>io_state := io_state ?s1 AND NOT EPOLLIN, recv_coro := None\<rparr>, em2)"
    "same_others interest (sock_fd ?s1) em1 em2"
    by (rule DelRecv_ok [OF assms(1) 1(2)]) simp
  have "(a OR EPOLLIN) AND NOT EPOLLIN = a AND NOT EPOLLIN" "(EPOLLIN OR a) AND NOT EPOLLIN = a AND NOT EPOLLIN" for a
    by (auto intro!: bit_word_eqI simp: bit_or_iff bit_and_iff bit_not_iff)
  then show ?thesis
    using 1 2 by (auto simp: em_agrees_def attach_state_def Attached_def intro: same_others_trans)
qed

theorem recv_registration_witness:
  "\<exists>s1 em1 s2 em2. AddRecv map_ctl (7 :: nat) (new_socket 5, new_event_manager Map.empty 16) = Inr (s1, em1) \<and>
    recv_coro s1 = Some 7 \<and> id (epfd em1) 5 = Some (EPOLLIN OR EPOLLET) \<and>
    DelRecv map_ctl (s1, em1) = Inr (s2, em2) \<and> id (epfd em2) 5 = Some (EPOLLET AND NOT EPOLLIN)"
  using recv_registration [OF map_epoll_laws, of "new_socket 5" "new_event_manager Map.empty 16" 7]
  by (auto simp: em_agrees_def new_socket_def new_event_manager_def)

text \<open>
  A connection that was registered with epoll and then closed by its timer ends
  the whole process when it is destroyed: closing the descriptor takes it out of the
  interest list, the socket still says it is attached, and the failing \<open>EPOLL_CTL_DEL\<close> of
  the destructor is a fatal error. Without the close the destructor succeeds.
\<close>

theorem closed_connection_destructor_fatal:
  assumes "epoll_laws ctl kclose interest" "em_agrees interest (s, em)" "Attached s" "sock_fd s \<noteq> - 1"
  shows "destroy_connection ctl (conn_Close kclose \<lparr>conn_net = (s, em), conn_closed = False\<rparr>) = Inl Fatal \<and>
    (\<exists>c. destroy_connection ctl \<lparr>conn_net = (s, em), conn_closed = False\<rparr> = Inr c \<and> em_agrees interest (conn_net c))"
proof -
  have "interest (kclose (sock_fd s) (epfd em)) (sock_fd s) = None"
    using assms(1) by (simp add: epoll_laws_def)
  then have "Detach ctl (s\<lparr>sock_is_closed := True\<rparr>, em\<lparr>epfd := kclose (sock_fd s) (epfd em)\<rparr>) = Inl Fatal"
    by (intro Detach_detached [OF assms(1)]) simp
  moreover obtain em' where "Detach ctl (s, em) = Inr (s\<lparr>detached := True\<rparr>, em')"
    "em_agrees interest (s\<lparr>detached := True\<rparr>, em')"
    using Detach_ok [OF assms(1,2)] assms(3) by (metis Attached_def)
  ultimately show ?thesis
    using assms(3,4) by (simp add: destroy_connection_def conn_Close_def sock_Close_def Attached_def)
qed

theorem closed_connection_destructor_fatal_witness:
  "destroy_connection map_ctl (conn_Close map_close
      \<lparr>conn_net = ((new_socket 5 :: nat socket)\<lparr>detached := False\<rparr>, new_event_manager [5 \<mapsto> 0] 16), conn_closed = False\<rparr>) = Inl Fatal"
  using closed_connection_destructor_fatal [OF map_epoll_laws, of "(new_socket 5)\<lparr>detached := False\<rparr>" "new_event_manager [5 \<mapsto> 0] 16"]
  by (auto simp: em_agrees_def new_socket_def new_event_manager_def Attached_def)

text \<open>
  A round of the event loop over sockets whose handles are set returns and resumes
  at most one coroutine per event: the receiver of every readable descriptor, and a sender
  only for an event that is not readable. A descriptor ready in both directions has its
  receiver resumed and its sender left waiting.
\<close>

theorem dispatch_prefers_receiver:
  assumes "\<forall>(ev, ptr) \<in> set es. recv_coro (socks ptr) \<noteq> None \<and> send_coro (socks ptr) \<noteq> None"
  shows "\<exists>log. dispatch False (\<lambda>_. socks) (\<lambda>r st. st @ [r]) es st = Inr (st @ log) \<and> length log \<le> length es \<and>
    (\<forall>(ev, ptr) \<in> set es. ev AND EPOLLIN \<noteq> 0 \<longrightarrow> (\<exists>h. recv_coro (socks ptr) = Some h \<and> ResumeRecv ptr h \<in> set log)) \<and>
    (\<forall>ptr h. ResumeSend ptr h \<in> set log \<longrightarrow> (\<exists>ev. (ev, ptr) \<in> set es \<and> ev AND EPOLLIN = 0))"
  using assms
proof (induction es arbitrary: st)
  case (Cons e es)
  obtain ev ptr where e: "e = (ev, ptr)" by (cases e)
  obtain r where r: "resume_event False (\<lambda>_. socks) (\<lambda>r st. st @ [r]) e st = Inr (st @ r)" "length r \<le> 1"
    "ev AND EPOLLIN \<noteq> 0 \<Longrightarrow> \<exists>h. recv_coro (socks ptr) = Some h \<and> ResumeRecv ptr h \<in> set r"
    "\<And>p h. ResumeSend p h \<in> set r \<Longrightarrow> p = ptr \<and> ev AND EPOLLIN = 0"
  proof (cases "ev AND EPOLLIN \<noteq> 0")
    case True
    then obtain h where "recv_coro (socks ptr) = Some h" using Cons.prems e by auto
    with True show ?thesis using that [of "[ResumeRecv ptr h]"] e by (simp add: resume_event_def event_direction_def)
  next
    case False
    obtain h where h: "send_coro (socks ptr) = Some h" using Cons.prems e by auto
    show ?thesis
      using that [of "if ev AND EPOLLOUT \<noteq> 0 then [ResumeSend ptr h] else []"] False h e
      by (simp add: resume_event_def event_direction_def split: if_splits)
  qed
  have "\<forall>(ev, ptr) \<in> set es. recv_coro (socks ptr) \<noteq> None \<and> send_coro (socks ptr) \<noteq> None" using Cons.prems by auto
  from Cons.IH [OF this, of "st @ r"] obtain log where l: "dispatch False (\<lambda>_. socks) (\<lambda>r st. st @ [r]) es (st @ r) = Inr (st @ r @ log)"
    "length log \<le> length es"
    "\<forall>(ev, ptr) \<in> set es. ev AND EPOLLIN \<noteq> 0 \<longrightarrow> (\<exists>h. recv_coro (socks ptr) = Some h \<and> ResumeRecv ptr h \<in> set log)"
    "\<forall>ptr h. ResumeSend ptr h \<in> set log \<longrightarrow> (\<exists>ev. (ev, ptr) \<in> set es \<and> ev AND EPOLLIN = 0)" by auto
  then show ?case using r e by (intro exI [of _ "r @ log"]) fastforce
qed simp

theorem dispatch_prefers_receiver_witness:
  "\<exists>log. dispatch False (\<lambda>_ _. (new_socket 5)\<lparr>recv_coro := Some (7 :: nat), send_coro := Some 8\<rparr>) (\<lambda>r st. st @ [r])
     [(EPOLLIN OR EPOLLOUT, 3)] [] = Inr log \<and> log = [ResumeRecv 3 7]"
  using dispatch_prefers_receiver [of "[(EPOLLIN OR EPOLLOUT, 3)]" "\<lambda>_. (new_socket 5)\<lparr>recv_coro := Some (7 :: nat), send_coro := Some 8\<rparr>" "[]"]
  by (auto simp: EPOLLIN_def EPOLLOUT_def resume_event_def event_direction_def)

end
