(* ===== verification/Io_Awaiter.thy ===== *)
theory Io_Awaiter
  imports Event_Manager
begin

text \<open>
  Awaitable socket calls: \<open>luce/io/io_awaiter.{h,cpp}\<close>, with the forwarding functions of
  \<open>luce/net/tcp/tcp_connection.cpp\<close>, and the accept call of
  \<open>luce/net/tcp/tcp_acceptor.cpp\<close>.

  What the operating system answers is a trace: the results of the successive \<open>read\<close>,
  \<open>write\<close> and \<open>accept4\<close> calls on the descriptor, \<open>Ret\<close> of a result or \<open>Err\<close> of an error
  number. An awaiter takes the first result; when it is an error it registers with the event
  manager, is resumed, deregisters and takes the next one. At the end of the trace the
  coroutine is \<open>Suspended\<close>. The trace is everything the model assumes of the system; what
  the calls document (at most the requested number of bytes is transferred) appears as a
  hypothesis. A connection is not closed by another thread during a call. Once the event
  manager has been shut down it registers nothing and polls no more, so a coroutine that has to
  wait is not resumed: it is \<open>Suspended\<close> whatever the trace still holds.
\<close>

datatype errno = EINTR | EAGAIN | EOTHER

datatype 'r sys = Ret 'r | Err errno

definition HEADER_SIZE :: nat where "HEADER_SIZE = 4"

text \<open>The error numbers after which the loops try again (\<open>EWOULDBLOCK\<close> is \<open>EAGAIN\<close>).\<close>

definition retry :: "errno \<Rightarrow> bool" where
  "retry e \<longleftrightarrow> e = EINTR \<or> e = EAGAIN"

definition overwrite :: "bytes \<Rightarrow> nat \<Rightarrow> bytes \<Rightarrow> bytes" where
  "overwrite buf off bs = take off buf @ bs @ drop (off + length bs) buf"

definition resize :: "nat \<Rightarrow> bytes \<Rightarrow> bytes" where
  "resize n buf = take n buf @ replicate (n - length buf) 0"

section \<open>Reading\<close>

type_synonym ('h, 'k) reader = "bytes sys list \<times> ('h, 'k) tcp_connection"
type_synonym ('h, 'k) writer = "nat sys list \<times> bytes \<times> ('h, 'k) tcp_connection"

definition ReadInnerAwaiter :: "'k ctl \<Rightarrow> 'h \<Rightarrow> ('h, 'k) reader \<Rightarrow> net_stop + bytes sys \<times> ('h, 'k) reader" where
  "ReadInnerAwaiter ctl h = (\<lambda>(tr, c).
     if conn_closed c then Inr (Ret [], tr, c)
     else case tr of
       [] \<Rightarrow> Inl Suspended
     | Ret bs # tr' \<Rightarrow> Inr (Ret bs, tr', c)
     | Err e # tr' \<Rightarrow> try_bind (AddRecv ctl h (conn_net c)) (\<lambda>n.
         if is_shutdown (snd n) then Inl Suspended
         else case tr' of
           [] \<Rightarrow> Inl Suspended
         | r # tr'' \<Rightarrow> try_bind (DelRecv ctl n) (\<lambda>n'. Inr (r, tr'', c\<lparr>conn_net := n'\<rparr>))))"

lemma ReadInnerAwaiter_Err:
  "ReadInnerAwaiter ctl h (tr, c) = Inr (Err e, tr', c') \<Longrightarrow> length tr' < length tr"
  by (cases tr; cases "tl tr") (auto simp: ReadInnerAwaiter_def try_bind_eq_Inr split: if_splits list.splits sys.splits)

function AsyncRead :: "'k ctl \<Rightarrow> 'h \<Rightarrow> bytes \<Rightarrow> ('h, 'k) reader \<Rightarrow> net_stop + (bytes \<times> nat) \<times> ('h, 'k) reader" where
  "AsyncRead ctl h buf io = try_bind (ReadInnerAwaiter ctl h io) (\<lambda>(r, io'). case r of
     Ret bs \<Rightarrow> Inr ((resize (length bs) (overwrite buf 0 bs), length bs), io')
   | Err e \<Rightarrow> if retry e then AsyncRead ctl h buf io' else Inr ((resize 0 buf, 0), io'))"
  by pat_completeness auto
termination
  by (relation "measure (\<lambda>(_, _, _, tr, _). length tr)") (auto dest: ReadInnerAwaiter_Err)

declare AsyncRead.simps [simp del]

section \<open>Writing\<close>

definition WriteInnerAwaiter :: "'k ctl \<Rightarrow> 'h \<Rightarrow> bytes \<Rightarrow> ('h, 'k) writer \<Rightarrow> net_stop + nat sys \<times> ('h, 'k) writer" where
  "WriteInnerAwaiter ctl h data = (\<lambda>(tr, wire, c).
     if conn_closed c then Inr (Ret 0, tr, wire, c)
     else case tr of
       [] \<Rightarrow> Inl Suspended
     | Ret n # tr' \<Rightarrow> Inr (Ret n, tr', wire @ take n data, c)
     | Err e # tr' \<Rightarrow> try_bind (AddSend ctl h (conn_net c)) (\<lambda>n.
         if is_shutdown (snd n) then Inl Suspended
         else case tr' of
           [] \<Rightarrow> Inl Suspended
         | r # tr'' \<Rightarrow> try_bind (DelSend ctl n) (\<lambda>n'.
             Inr (r, tr'', wire @ (case r of Ret m \<Rightarrow> take m data | Err _ \<Rightarrow> []), c\<lparr>conn_net := n'\<rparr>))))"

lemma WriteInnerAwaiter_less:
  "WriteInnerAwaiter ctl h data (tr, wire, c) = Inr (r, tr', wire', c') \<Longrightarrow> r \<noteq> Ret 0 \<Longrightarrow> length tr' < length tr"
  by (cases tr; cases "tl tr") (auto simp: WriteInnerAwaiter_def try_bind_eq_Inr split: if_splits list.splits sys.splits)

text \<open>The loop of \<open>AsyncWrite\<close>: \<open>left\<close> bytes are left, \<open>already\<close> are sent.\<close>

function AsyncWrite_loop :: "'k ctl \<Rightarrow> 'h \<Rightarrow> bytes \<Rightarrow> nat \<Rightarrow> nat \<Rightarrow> ('h, 'k) writer \<Rightarrow> net_stop + nat \<times> ('h, 'k) writer" where
  "AsyncWrite_loop ctl h buf left already io =
     (if left = 0 then Inr (already, io)
      else try_bind (WriteInnerAwaiter ctl h (take left (drop already buf)) io) (\<lambda>(r, io'). case r of
        Ret n \<Rightarrow> if n = 0 then Inr (already, io')
                 else AsyncWrite_loop ctl h buf (left - n) (already + n) io'
      | Err e \<Rightarrow> if retry e then AsyncWrite_loop ctl h buf left already io' else Inr (already, io')))"
  by pat_completeness auto
termination
  by (relation "measure (\<lambda>(_, _, _, _, _, tr, _, _). length tr)") (auto dest: WriteInnerAwaiter_less)

declare AsyncWrite_loop.simps [simp del]

definition AsyncWrite :: "'k ctl \<Rightarrow> 'h \<Rightarrow> bytes \<Rightarrow> ('h, 'k) writer \<Rightarrow> net_stop + nat \<times> ('h, 'k) writer" where
  "AsyncWrite ctl h buf = AsyncWrite_loop ctl h buf (length buf) 0"

section \<open>Packets\<close>

text \<open>
  A packet is a 32-bit length in host order and that many bytes. The result of the header
  transfer is not looked at: when it fails, the length is whatever the uninitialised
  \<open>head_buffer\<close> holds, the parameter \<open>junk\<close>.
\<close>

lemma ReadInnerAwaiter_less:
  "ReadInnerAwaiter ctl h (tr, c) = Inr (r, tr', c') \<Longrightarrow> r \<noteq> Ret [] \<Longrightarrow> length tr' < length tr"
  by (cases tr; cases "tl tr") (auto simp: ReadInnerAwaiter_def try_bind_eq_Inr split: if_splits list.splits sys.splits)

function ReadPacket_loop :: "'k ctl \<Rightarrow> 'h \<Rightarrow> nat \<Rightarrow> nat \<Rightarrow> bytes \<Rightarrow> ('h, 'k) reader \<Rightarrow>
    net_stop + (bool \<times> bytes) \<times> ('h, 'k) reader" where
  "ReadPacket_loop ctl h left already buf io =
     (if left = 0 then Inr ((True, buf), io)
      else try_bind (ReadInnerAwaiter ctl h io) (\<lambda>(r, io'). case r of
        Ret bs \<Rightarrow> if bs = [] then Inr ((False, buf), io')
                  else ReadPacket_loop ctl h (left - length bs) (already + length bs) (overwrite buf already bs) io'
      | Err e \<Rightarrow> if retry e then ReadPacket_loop ctl h left already buf io' else Inr ((False, buf), io')))"
  by pat_completeness auto
termination
  by (relation "measure (\<lambda>(_, _, _, _, _, tr, _). length tr)") (auto dest: ReadInnerAwaiter_less)

declare ReadPacket_loop.simps [simp del]

definition AsyncReadPacket :: "'k ctl \<Rightarrow> 'h \<Rightarrow> bytes \<Rightarrow> bytes \<Rightarrow> ('h, 'k) reader \<Rightarrow>
    net_stop + (bool \<times> bytes) \<times> ('h, 'k) reader" where
  "AsyncReadPacket ctl h junk buf io =
     try_bind (ReadInnerAwaiter ctl h io) (\<lambda>(r, io').
       let head_buffer = (case r of Ret bs \<Rightarrow> overwrite junk 0 bs | Err _ \<Rightarrow> junk);
           total_read_size = unat (le_word (take HEADER_SIZE head_buffer) :: u32) in
       ReadPacket_loop ctl h total_read_size 0 (resize total_read_size buf) io')"

function WritePacket_loop :: "'k ctl \<Rightarrow> 'h \<Rightarrow> bytes \<Rightarrow> nat \<Rightarrow> nat \<Rightarrow> ('h, 'k) writer \<Rightarrow> net_stop + bool \<times> ('h, 'k) writer" where
  "WritePacket_loop ctl h buf left already io =
     (if left = 0 then Inr (True, io)
      else try_bind (WriteInnerAwaiter ctl h (take left (drop already buf)) io) (\<lambda>(r, io'). case r of
        Ret n \<Rightarrow> if n = 0 then Inr (False, io')
                 else WritePacket_loop ctl h buf (left - n) (already + n) io'
      | Err e \<Rightarrow> if retry e then WritePacket_loop ctl h buf left already io' else Inr (False, io')))"
  by pat_completeness auto
termination
  by (relation "measure (\<lambda>(_, _, _, _, _, tr, _, _). length tr)") (auto dest: WriteInnerAwaiter_less)

declare WritePacket_loop.simps [simp del]

definition AsyncWritePacket :: "'k ctl \<Rightarrow> 'h \<Rightarrow> bytes \<Rightarrow> ('h, 'k) writer \<Rightarrow> net_stop + bool \<times> ('h, 'k) writer" where
  "AsyncWritePacket ctl h buf io =
     (let total_write_size = (of_nat (length buf) :: u32) in
      try_bind (WriteInnerAwaiter ctl h (le_bytes total_write_size) io) (\<lambda>(_, io').
        WritePacket_loop ctl h buf (unat total_write_size) 0 io'))"

section \<open>Accepting\<close>

text \<open>\<open>AcceptAwaiter\<close> and \<open>TcpAcceptor::accept\<close>: the descriptor \<open>-1\<close> is a failed \<open>accept4\<close>.
  \<open>await_resume\<close> deregisters whether or not the coroutine was suspended.\<close>

definition AcceptAwaiter :: "'k ctl \<Rightarrow> 'h \<Rightarrow> int list \<times> ('h, 'k) net \<Rightarrow> net_stop + int \<times> int list \<times> ('h, 'k) net" where
  "AcceptAwaiter ctl h = (\<lambda>(tr, n). case tr of
     [] \<Rightarrow> Inl Suspended
   | fd # tr' \<Rightarrow>
       if 0 \<le> fd then try_bind (DelRecv ctl n) (\<lambda>n'. Inr (fd, tr', n'))
       else try_bind (AddRecv ctl h n) (\<lambda>n1.
         if is_shutdown (snd n1) then Inl Suspended
         else case tr' of
           [] \<Rightarrow> Inl Suspended
         | fd' # tr'' \<Rightarrow> try_bind (DelRecv ctl n1) (\<lambda>n2. Inr (fd', tr'', n2))))"

definition accept :: "'k ctl \<Rightarrow> 'h \<Rightarrow> int list \<times> ('h, 'k) net \<Rightarrow>
    net_stop + ('h, 'k) tcp_connection option \<times> int list \<times> ('h, 'k) net" where
  "accept ctl h io = try_bind (AcceptAwaiter ctl h io) (\<lambda>(peer_fd, tr, n).
     if peer_fd = - 1 then Inr (None, tr, n)
     else Inr (Some (new_connection peer_fd (snd n)), tr, n))"

section \<open>Traces of transfers\<close>

text \<open>The successful results of a trace; a fair trace ends with one and has only errors
  after which the loops try again.\<close>

fun oks :: "'r sys list \<Rightarrow> 'r list" where
  "oks [] = []"
| "oks (Ret r # tr) = r # oks tr"
| "oks (Err e # tr) = oks tr"

fun fair :: "'r sys list \<Rightarrow> bool" where
  "fair [] \<longleftrightarrow> True"
| "fair [r] \<longleftrightarrow> (\<exists>x. r = Ret x)"
| "fair (r # tr) \<longleftrightarrow> (case r of Ret _ \<Rightarrow> True | Err e \<Rightarrow> retry e) \<and> fair tr"

lemma fair_Err: "fair (Err e # tr) \<Longrightarrow> retry e \<and> tr \<noteq> [] \<and> fair tr"
  by (cases tr) auto

lemma fair_Ret: "fair (Ret x # tr) = fair tr"
  by (cases tr) auto

lemma fair_next:
  "fair (r # tr) \<Longrightarrow> fair tr \<and>
    (case r of Ret x \<Rightarrow> oks (r # tr) = x # oks tr | Err e \<Rightarrow> retry e \<and> oks tr = oks (r # tr) \<and> tr \<noteq> [])"
  by (cases r) (auto simp: fair_Ret dest: fair_Err)

lemma oks_fair_Nil: "fair tr \<Longrightarrow> oks tr = [] \<longleftrightarrow> tr = []"
proof (induction tr)
  case (Cons r tr)
  then show ?case by (cases r) (auto dest: fair_Err)
qed simp

text \<open>An open connection of a running event manager, whose socket agrees with the interest
  list.\<close>

definition conn_inv :: "'k ctl \<Rightarrow> (int \<Rightarrow> 'k \<Rightarrow> 'k) \<Rightarrow> ('k \<Rightarrow> int \<rightharpoonup> u32) \<Rightarrow> ('h, 'k) tcp_connection \<Rightarrow> bool" where
  "conn_inv ctl kclose interest c \<longleftrightarrow> em_inv ctl kclose interest (conn_net c) \<and> \<not> conn_closed c \<and>
     \<not> is_shutdown (snd (conn_net c))"

lemma recv_cycle:
  assumes "em_inv ctl kclose interest n" "\<not> is_shutdown (snd n)"
  obtains n1 n2 where "AddRecv ctl h n = Inr n1" "\<not> is_shutdown (snd n1)" "DelRecv ctl n1 = Inr n2"
    "em_inv ctl kclose interest n2" "\<not> is_shutdown (snd n2)"
proof (cases n)
  case (Pair s em)
  have laws: "epoll_laws ctl kclose interest" and agr: "em_agrees interest (s, em)"
    and run: "\<not> is_shutdown em"
    using assms Pair by (simp_all add: em_inv_def)
  let ?s = "s\<lparr>io_state := attach_state EPOLLIN s, detached := False, recv_coro := Some h\<rparr>"
  obtain em1 where 1: "AddRecv ctl h (s, em) = Inr (?s, em1)" "em_agrees interest (?s, em1)"
    "same_others interest (sock_fd s) em em1" by (rule AddRecv_ok [OF laws agr run])
  then have run1: "\<not> is_shutdown em1" using run by (simp add: same_others_def)
  then show ?thesis
    by (rule DelRecv_ok [OF laws 1(2)])
      (use 1(1) run1 laws Pair in \<open>auto simp: em_inv_def same_others_def intro!: that\<close>)
qed

lemma send_cycle:
  assumes "em_inv ctl kclose interest n" "\<not> is_shutdown (snd n)"
  obtains n1 n2 where "AddSend ctl h n = Inr n1" "\<not> is_shutdown (snd n1)" "DelSend ctl n1 = Inr n2"
    "em_inv ctl kclose interest n2" "\<not> is_shutdown (snd n2)"
proof (cases n)
  case (Pair s em)
  have laws: "epoll_laws ctl kclose interest" and agr: "em_agrees interest (s, em)"
    and run: "\<not> is_shutdown em"
    using assms Pair by (simp_all add: em_inv_def)
  let ?s = "s\<lparr>io_state := attach_state EPOLLOUT s, detached := False, send_coro := Some h\<rparr>"
  obtain em1 where 1: "AddSend ctl h (s, em) = Inr (?s, em1)" "em_agrees interest (?s, em1)"
    "same_others interest (sock_fd s) em em1" by (rule AddSend_ok [OF laws agr run])
  then have run1: "\<not> is_shutdown em1" using run by (simp add: same_others_def)
  then show ?thesis
    by (rule DelSend_ok [OF laws 1(2)])
      (use 1(1) run1 laws Pair in \<open>auto simp: em_inv_def same_others_def intro!: that\<close>)
qed

text \<open>One awaiter on a fair trace: it returns the next success, or an error to retry
  after; either way the trace gets shorter and stays fair.\<close>

lemma ReadInnerAwaiter_fair:
  assumes "conn_inv ctl kclose interest c" "fair tr" "tr \<noteq> []"
  obtains r tr' c' where "ReadInnerAwaiter ctl h (tr @ rest, c) = Inr (r, tr' @ rest, c')"
    "conn_inv ctl kclose interest c'" "fair tr'" "length tr' < length tr"
    "case r of Ret x \<Rightarrow> oks tr = x # oks tr' | Err e \<Rightarrow> retry e \<and> oks tr' = oks tr \<and> tr' \<noteq> []"
proof (cases tr)
  case (Cons r tr')
  show ?thesis
  proof (cases r)
    case (Ret x)
    then show ?thesis
      using that [of r tr' c] assms Cons by (simp add: ReadInnerAwaiter_def conn_inv_def fair_Ret)
  next
    case (Err e)
    then have "tr' \<noteq> []" "fair tr'" using assms(2) Cons fair_Err [of e tr'] by simp_all
    then obtain r' tr'' where tr': "tr' = r' # tr''" "fair tr'" by (cases tr') simp_all
    have "em_inv ctl kclose interest (conn_net c)" "\<not> is_shutdown (snd (conn_net c))"
      using assms(1) by (simp_all add: conn_inv_def)
    then obtain n1 n2 where n: "AddRecv ctl h (conn_net c) = Inr n1" "\<not> is_shutdown (snd n1)"
      "DelRecv ctl n1 = Inr n2" "em_inv ctl kclose interest n2" "\<not> is_shutdown (snd n2)"
      by (rule recv_cycle)
    have A: "ReadInnerAwaiter ctl h (tr @ rest, c) = Inr (r', tr'' @ rest, c\<lparr>conn_net := n2\<rparr>)"
      using assms(1) Cons Err tr' n by (simp add: ReadInnerAwaiter_def conn_inv_def)
    have B: "case r' of Ret x \<Rightarrow> oks tr = x # oks tr'' | Err e \<Rightarrow> retry e \<and> oks tr'' = oks tr \<and> tr'' \<noteq> []"
      and C: "fair tr''" using fair_next [of r' tr''] Cons Err tr' by (auto split: sys.splits)
    show ?thesis
      by (rule that [OF A _ C _ B]) (use assms(1) Cons tr' n in \<open>simp_all add: conn_inv_def\<close>)
  qed
qed (use assms in simp)

lemma WriteInnerAwaiter_fair:
  assumes "conn_inv ctl kclose interest c" "fair tr" "tr \<noteq> []"
  obtains r tr' c' where
    "WriteInnerAwaiter ctl h data (tr @ rest, wire, c) =
       Inr (r, tr' @ rest, wire @ (case r of Ret m \<Rightarrow> take m data | Err _ \<Rightarrow> []), c')"
    "conn_inv ctl kclose interest c'" "fair tr'" "length tr' < length tr"
    "case r of Ret x \<Rightarrow> oks tr = x # oks tr' | Err e \<Rightarrow> retry e \<and> oks tr' = oks tr \<and> tr' \<noteq> []"
proof (cases tr)
  case (Cons r tr')
  show ?thesis
  proof (cases r)
    case (Ret x)
    then show ?thesis
      using that [of r tr' c] assms Cons by (simp add: WriteInnerAwaiter_def conn_inv_def fair_Ret)
  next
    case (Err e)
    then have "tr' \<noteq> []" "fair tr'" using assms(2) Cons fair_Err [of e tr'] by simp_all
    then obtain r' tr'' where tr': "tr' = r' # tr''" "fair tr'" by (cases tr') simp_all
    have "em_inv ctl kclose interest (conn_net c)" "\<not> is_shutdown (snd (conn_net c))"
      using assms(1) by (simp_all add: conn_inv_def)
    then obtain n1 n2 where n: "AddSend ctl h (conn_net c) = Inr n1" "\<not> is_shutdown (snd n1)"
      "DelSend ctl n1 = Inr n2" "em_inv ctl kclose interest n2" "\<not> is_shutdown (snd n2)"
      by (rule send_cycle)
    have A: "WriteInnerAwaiter ctl h data (tr @ rest, wire, c) =
        Inr (r', tr'' @ rest, wire @ (case r' of Ret m \<Rightarrow> take m data | Err _ \<Rightarrow> []), c\<lparr>conn_net := n2\<rparr>)"
      using assms(1) Cons Err tr' n by (simp add: WriteInnerAwaiter_def conn_inv_def)
    have B: "case r' of Ret x \<Rightarrow> oks tr = x # oks tr'' | Err e \<Rightarrow> retry e \<and> oks tr'' = oks tr \<and> tr'' \<noteq> []"
      and C: "fair tr''" using fair_next [of r' tr''] Cons Err tr' by (auto split: sys.splits)
    show ?thesis
      by (rule that [OF A _ C _ B]) (use assms(1) Cons tr' n in \<open>simp_all add: conn_inv_def\<close>)
  qed
qed (use assms in simp)

section \<open>The loops transfer everything\<close>

lemma overwrite_prefix:
  "already = length (take already buf) \<Longrightarrow> take (already + length bs) (overwrite buf already bs) = take already buf @ bs"
  by (simp add: overwrite_def)

lemma ReadPacket_loop_fair:
  assumes "conn_inv ctl kclose interest c" "fair tr" "[] \<notin> set (oks tr)"
    and "length (concat (oks tr)) = left" "length buf = already + left"
  shows "\<exists>c'. ReadPacket_loop ctl h left already buf (tr @ rest, c) =
      Inr ((True, take already buf @ concat (oks tr)), rest, c') \<and> conn_inv ctl kclose interest c'"
  using assms
proof (induction "length tr" arbitrary: tr left already buf c rule: less_induct)
  case less
  show ?case
  proof (cases "tr = []")
    case True
    then show ?thesis using less.prems by (subst ReadPacket_loop.simps) simp
  next
    case False
    then have left: "left \<noteq> 0" using less.prems oks_fair_Nil [of tr] by (cases "oks tr") auto
    obtain r tr' c' where r: "ReadInnerAwaiter ctl h (tr @ rest, c) = Inr (r, tr' @ rest, c')"
      "conn_inv ctl kclose interest c'" "fair tr'" "length tr' < length tr"
      "case r of Ret x \<Rightarrow> oks tr = x # oks tr' | Err e \<Rightarrow> retry e \<and> oks tr' = oks tr \<and> tr' \<noteq> []"
      by (rule ReadInnerAwaiter_fair [OF less.prems(1,2) False])
    show ?thesis
    proof (cases r)
      case (Ret bs)
      have "length bs \<le> left" "bs \<noteq> []" using Ret r(5) less.prems(3,4) by auto
      then have "length (overwrite buf already bs) = already + length bs + (left - length bs)"
        using less.prems(5) by (simp add: overwrite_def)
      moreover have "take (already + length bs) (overwrite buf already bs) = take already buf @ bs"
        using less.prems(5) by (intro overwrite_prefix) simp
      ultimately show ?thesis
        using less.hyps [OF r(4) r(2,3), of "left - length bs" "overwrite buf already bs" "already + length bs"]
          less.prems Ret r left \<open>bs \<noteq> []\<close>
        by (subst ReadPacket_loop.simps) auto
    next
      case (Err e)
      then show ?thesis
        using less.hyps [OF r(4) r(2,3), of left buf already] less.prems r left
        by (subst ReadPacket_loop.simps) simp
    qed
  qed
qed

lemma AsyncWrite_loop_fair:
  assumes "conn_inv ctl kclose interest c" "fair tr" "0 \<notin> set (oks tr)"
    and "sum_list (oks tr) = left" "length buf = already + left"
  shows "\<exists>c'. AsyncWrite_loop ctl h buf left already (tr @ rest, wire, c) =
      Inr (length buf, rest, wire @ drop already buf, c') \<and> conn_inv ctl kclose interest c'"
  using assms
proof (induction "length tr" arbitrary: tr left already wire c rule: less_induct)
  case less
  show ?case
  proof (cases "tr = []")
    case True
    then show ?thesis using less.prems by (subst AsyncWrite_loop.simps) simp
  next
    case False
    then have left: "left \<noteq> 0" using less.prems oks_fair_Nil [of tr] by (cases "oks tr") auto
    let ?data = "take left (drop already buf)"
    obtain r tr' c' where r: "WriteInnerAwaiter ctl h ?data (tr @ rest, wire, c) =
        Inr (r, tr' @ rest, wire @ (case r of Ret m \<Rightarrow> take m ?data | Err _ \<Rightarrow> []), c')"
      "conn_inv ctl kclose interest c'" "fair tr'" "length tr' < length tr"
      "case r of Ret x \<Rightarrow> oks tr = x # oks tr' | Err e \<Rightarrow> retry e \<and> oks tr' = oks tr \<and> tr' \<noteq> []"
      by (rule WriteInnerAwaiter_fair [OF less.prems(1,2) False])
    show ?thesis
    proof (cases r)
      case (Ret n)
      then have "n \<le> left" "n \<noteq> 0" using r(5) less.prems(3,4) by auto
      moreover have "take n ?data @ drop (already + n) buf = drop already buf"
        using \<open>n \<le> left\<close> by (simp add: min_def) (metis add.commute append_take_drop_id drop_drop)
      ultimately show ?thesis
        using less.hyps [OF r(4) r(2,3), of "left - n" "already + n" "wire @ take n ?data"]
          less.prems Ret r left
        by (subst AsyncWrite_loop.simps) auto
    next
      case (Err e)
      then show ?thesis
        using less.hyps [OF r(4) r(2,3), of left already wire] less.prems r left
        by (subst AsyncWrite_loop.simps) simp
    qed
  qed
qed

text \<open>The packet loop is the plain write loop with a verdict: all bytes were taken.\<close>

lemma WritePacket_loop_AsyncWrite:
  "WritePacket_loop ctl h buf left already io =
     try_bind (AsyncWrite_loop ctl h buf left already io) (\<lambda>(n, io'). Inr (already + left \<le> n, io'))"
proof (induction ctl h buf left already io rule: AsyncWrite_loop.induct)
  case (1 ctl h buf left already io)
  let ?w = "WriteInnerAwaiter ctl h (take left (drop already buf)) io"
  show ?case
  proof (cases "left = 0")
    case True
    then show ?thesis by (simp add: AsyncWrite_loop.simps WritePacket_loop.simps)
  next
    case left: False
    show ?thesis
    proof (cases ?w)
      case (Inl e)
      then show ?thesis using left by (simp add: AsyncWrite_loop.simps [of _ _ _ left] WritePacket_loop.simps [of _ _ _ left])
    next
      case (Inr r)
      obtain x io' where r: "r = (x, io')" by (cases r)
      show ?thesis
      proof (cases x)
        case (Ret n)
        show ?thesis
        proof (cases "left < n")
          case True
          then show ?thesis using Ret left Inr r
            by (simp add: AsyncWrite_loop.simps WritePacket_loop.simps)
        next
          case False
          then show ?thesis using Ret left Inr r 1(1)
            by (simp add: AsyncWrite_loop.simps [of _ _ _ left] WritePacket_loop.simps [of _ _ _ left])
        qed
      next
        case (Err e)
        then show ?thesis using left Inr r 1(2)
          by (simp add: AsyncWrite_loop.simps [of _ _ _ left] WritePacket_loop.simps [of _ _ _ left])
      qed
    qed
  qed
qed

text \<open>A transfer that succeeds in one call, at once or after one wait.\<close>

fun one_call :: "'r \<Rightarrow> 'r sys list \<Rightarrow> bool" where
  "one_call x [Ret y] \<longleftrightarrow> y = x"
| "one_call x [Err e, Ret y] \<longleftrightarrow> y = x"
| "one_call x _ \<longleftrightarrow> False"

lemma one_call_cases: "one_call x tr \<Longrightarrow> tr = [Ret x] \<or> (\<exists>e. tr = [Err e, Ret x])"
  by (cases "(x, tr)" rule: one_call.cases) auto

lemma ReadInnerAwaiter_one_call:
  assumes "conn_inv ctl kclose interest c" "one_call x tr"
  obtains c' where "ReadInnerAwaiter ctl h (tr @ rest, c) = Inr (Ret x, rest, c')" "conn_inv ctl kclose interest c'"
proof -
  have inv: "em_inv ctl kclose interest (conn_net c)" "\<not> is_shutdown (snd (conn_net c))" "\<not> conn_closed c"
    using assms(1) by (simp_all add: conn_inv_def)
  obtain n1 n2 where "AddRecv ctl h (conn_net c) = Inr n1" "\<not> is_shutdown (snd n1)" "DelRecv ctl n1 = Inr n2"
    "em_inv ctl kclose interest n2" "\<not> is_shutdown (snd n2)"
    by (rule recv_cycle [OF inv(1,2)])
  with one_call_cases [OF assms(2)] inv assms(1) show ?thesis
    using that [of c] that [of "c\<lparr>conn_net := n2\<rparr>"] by (auto simp: ReadInnerAwaiter_def conn_inv_def)
qed

lemma WriteInnerAwaiter_one_call:
  assumes "conn_inv ctl kclose interest c" "one_call x tr"
  obtains c' where "WriteInnerAwaiter ctl h data (tr @ rest, wire, c) = Inr (Ret x, rest, wire @ take x data, c')"
    "conn_inv ctl kclose interest c'"
proof -
  have inv: "em_inv ctl kclose interest (conn_net c)" "\<not> is_shutdown (snd (conn_net c))" "\<not> conn_closed c"
    using assms(1) by (simp_all add: conn_inv_def)
  obtain n1 n2 where "AddSend ctl h (conn_net c) = Inr n1" "\<not> is_shutdown (snd n1)" "DelSend ctl n1 = Inr n2"
    "em_inv ctl kclose interest n2" "\<not> is_shutdown (snd n2)"
    by (rule send_cycle [OF inv(1,2)])
  with one_call_cases [OF assms(2)] inv assms(1) show ?thesis
    using that [of c] that [of "c\<lparr>conn_net := n2\<rparr>"] by (auto simp: WriteInnerAwaiter_def conn_inv_def)
qed

lemma AsyncWritePacket_wire:
  assumes "conn_inv ctl kclose interest c" "one_call HEADER_SIZE ht" "length buf < 2 ^ 32"
    and "fair tr" "0 \<notin> set (oks tr)" "sum_list (oks tr) = length buf"
  shows "\<exists>c'. AsyncWritePacket ctl h buf (ht @ tr @ rest, wire, c) =
      Inr (True, rest, wire @ le_bytes (of_nat (length buf) :: u32) @ buf, c') \<and> conn_inv ctl kclose interest c'"
proof -
  obtain c1 where 1: "WriteInnerAwaiter ctl h (le_bytes (of_nat (length buf) :: u32)) (ht @ tr @ rest, wire, c) =
      Inr (Ret HEADER_SIZE, tr @ rest, wire @ le_bytes (of_nat (length buf) :: u32), c1)" "conn_inv ctl kclose interest c1"
    using WriteInnerAwaiter_one_call [OF assms(1,2), of h "le_bytes (of_nat (length buf) :: u32)" "tr @ rest" wire]
    by (auto simp: HEADER_SIZE_def)
  have "unat (of_nat (length buf) :: u32) = length buf" using assms(3) by (simp add: unat_of_nat)
  moreover obtain c2 where "AsyncWrite_loop ctl h buf (length buf) 0 (tr @ rest, wire @ le_bytes (of_nat (length buf) :: u32), c1) =
      Inr (length buf, rest, (wire @ le_bytes (of_nat (length buf) :: u32)) @ buf, c2)" "conn_inv ctl kclose interest c2"
    using AsyncWrite_loop_fair [OF 1(2) assms(4-6), of buf 0 h rest "wire @ le_bytes (of_nat (length buf) :: u32)"] by auto
  ultimately show ?thesis using 1 by (simp add: AsyncWritePacket_def WritePacket_loop_AsyncWrite)
qed

lemma AsyncReadPacket_data:
  assumes "conn_inv ctl kclose interest c" "one_call (le_bytes (of_nat (length buf) :: u32)) ht" "length buf < 2 ^ 32"
    and "fair tr" "[] \<notin> set (oks tr)" "concat (oks tr) = buf"
  shows "\<exists>c'. AsyncReadPacket ctl h junk b (ht @ tr @ rest, c) = Inr ((True, buf), rest, c') \<and> conn_inv ctl kclose interest c'"
proof -
  let ?n = "of_nat (length buf) :: u32"
  obtain c1 where 1: "ReadInnerAwaiter ctl h (ht @ tr @ rest, c) = Inr (Ret (le_bytes ?n), tr @ rest, c1)" "conn_inv ctl kclose interest c1"
    by (rule ReadInnerAwaiter_one_call [OF assms(1,2)])
  have "take HEADER_SIZE (overwrite junk 0 (le_bytes ?n)) = le_bytes ?n"
    by (simp add: overwrite_def HEADER_SIZE_def)
  moreover have "unat ?n = length buf" using assms(3) by (simp add: unat_of_nat)
  moreover have "length (resize (length buf) b) = length buf" by (simp add: resize_def)
  ultimately show ?thesis
    using ReadPacket_loop_fair [OF 1(2) assms(4,5), of "length buf" "resize (length buf) b" 0 h rest] assms(6) 1
    by (simp add: AsyncReadPacket_def Let_def)
qed

lemma AsyncRead_fair:
  assumes "conn_inv ctl kclose interest c" "fair tr" "oks tr = [bs]"
  shows "\<exists>c'. AsyncRead ctl h buf (tr @ rest, c) = Inr ((bs, length bs), rest, c') \<and> conn_inv ctl kclose interest c'"
  using assms
proof (induction "length tr" arbitrary: tr c rule: less_induct)
  case less
  have "tr \<noteq> []" using less.prems(3) by auto
  then obtain r tr' c' where r: "ReadInnerAwaiter ctl h (tr @ rest, c) = Inr (r, tr' @ rest, c')"
    "conn_inv ctl kclose interest c'" "fair tr'" "length tr' < length tr"
    "case r of Ret x \<Rightarrow> oks tr = x # oks tr' | Err e \<Rightarrow> retry e \<and> oks tr' = oks tr \<and> tr' \<noteq> []"
    by (rule ReadInnerAwaiter_fair [OF less.prems(1,2)])
  show ?case
  proof (cases r)
    case (Ret x)
    then have "x = bs" "tr' = []" using r(5) less.prems(3) oks_fair_Nil [OF r(3)] by auto
    then show ?thesis using r Ret by (simp add: AsyncRead.simps [of _ _ _ "(tr @ rest, c)"] resize_def overwrite_def)
  next
    case (Err e)
    then show ?thesis using less.hyps [OF r(4) r(2,3)] r less.prems(3)
      by (simp add: AsyncRead.simps [of _ _ _ "(tr @ rest, c)"])
  qed
qed

section \<open>Properties\<close>

text \<open>
  Claim C3. Packet framing. Whatever way the two systems cut the body of a packet (short writes,
  short reads, waits and interrupted calls), a packet written by \<open>AsyncWritePacket\<close> is the one
  \<open>AsyncReadPacket\<close> returns, provided the four header bytes go through in one call each
  way (at once or after one wait), and both sockets stay consistent with their interest lists.
\<close>

theorem packet_roundtrip:
  assumes "conn_inv ctl kclose interest c1" "conn_inv ctl kclose interest c2" "length buf < 2 ^ 32"
    and "one_call HEADER_SIZE whd" "fair wtr" "0 \<notin> set (oks wtr)" "sum_list (oks wtr) = length buf"
    and "AsyncWritePacket ctl h buf (whd @ wtr, [], c1) = Inr (ok, tr', wire, c1')"
    and "one_call (take HEADER_SIZE wire) rhd" "fair rtr" "[] \<notin> set (oks rtr)"
    and "concat (oks rtr) = drop HEADER_SIZE wire"
  shows "ok \<and> conn_inv ctl kclose interest c1' \<and>
    (\<exists>c2'. AsyncReadPacket ctl h' junk b (rhd @ rtr, c2) = Inr ((True, buf), [], c2') \<and> conn_inv ctl kclose interest c2')"
proof -
  have w: "ok" "wire = le_bytes (of_nat (length buf) :: u32) @ buf" "conn_inv ctl kclose interest c1'"
    using AsyncWritePacket_wire [OF assms(1,4,3,5-7), of h "[]" "[]"] assms(8) by auto
  then have "take HEADER_SIZE wire = le_bytes (of_nat (length buf) :: u32)" "drop HEADER_SIZE wire = buf"
    by (simp_all add: HEADER_SIZE_def)
  then show ?thesis
    using w AsyncReadPacket_data [OF assms(2) _ assms(3) assms(10,11), of rhd h' junk b "[]"] assms(9,12) by simp
qed

definition example_conn :: "(unit, int \<rightharpoonup> u32) tcp_connection" where
  "example_conn = new_connection 5 (new_event_manager Map.empty 16)"

lemma example_conn_inv: "conn_inv map_ctl map_close id example_conn"
  by (simp add: conn_inv_def em_inv_def map_epoll_laws em_agrees_def example_conn_def new_connection_def
      new_socket_def new_event_manager_def)

theorem packet_roundtrip_witness:
  "\<exists>c2'. AsyncReadPacket map_ctl () [0, 0, 0, 0] [] ([Err EAGAIN, Ret [3, 0, 0, 0], Ret [7], Err EINTR, Ret [8, 9]], example_conn) =
     Inr ((True, [7, 8, 9]), [], c2')"
proof -
  obtain c where "AsyncWritePacket map_ctl () [7, 8, 9] ([Ret HEADER_SIZE] @ [Ret 2, Ret 1], [], example_conn) =
      Inr (True, [], le_bytes (of_nat (length [7, 8, 9 :: byte]) :: u32) @ [7, 8, 9], c)"
    using AsyncWritePacket_wire [OF example_conn_inv, of "[Ret HEADER_SIZE]" "[7, 8, 9]" "[Ret 2, Ret 1]" "()" "[]" "[]"] by auto
  from packet_roundtrip [OF example_conn_inv example_conn_inv _ _ _ _ _ this,
      of "[Err EAGAIN, Ret [3, 0, 0, 0]]" "[Ret [7], Err EINTR, Ret [8, 9]]" "()" "[0, 0, 0, 0]" "[]"]
  show ?thesis by (simp add: HEADER_SIZE_def le_bytes_def upt_rec retry_def) blast
qed

text \<open>
  \<open>AsyncWrite\<close> sends the whole buffer over any fair sequence of short writes and
  waits: it returns the size of the buffer and the bytes on the wire are the buffer.
\<close>

theorem AsyncWrite_complete:
  assumes "conn_inv ctl kclose interest c" "fair tr" "0 \<notin> set (oks tr)" "sum_list (oks tr) = length buf"
  shows "\<exists>c'. AsyncWrite ctl h buf (tr @ rest, wire, c) = Inr (length buf, rest, wire @ buf, c') \<and>
    conn_inv ctl kclose interest c'"
  using AsyncWrite_loop_fair [OF assms, of buf 0 h rest wire] by (simp add: AsyncWrite_def)

theorem AsyncWrite_complete_witness:
  "\<exists>c'. AsyncWrite map_ctl () [1, 2, 3] ([Err EAGAIN, Err EAGAIN, Ret 1, Ret 2] @ [], [], example_conn) =
     Inr (length [1, 2, 3 :: byte], [], [] @ [1, 2, 3], c')"
  using AsyncWrite_complete [OF example_conn_inv, of "[Err EAGAIN, Err EAGAIN, Ret 1, Ret 2]" "[1, 2, 3]" "()" "[]" "[]"]
  by (auto simp: retry_def)

text \<open>
  \<open>AsyncRead\<close> returns after the first successful read, with exactly the bytes of
  that read; the end of the stream and a failed read both return 0, so a caller cannot
  tell them apart.
\<close>

theorem AsyncRead_first:
  assumes "conn_inv ctl kclose interest c" "fair tr" "oks tr = [bs]"
  shows "(\<exists>c'. AsyncRead ctl h buf (tr @ rest, c) = Inr ((bs, length bs), rest, c') \<and> conn_inv ctl kclose interest c') \<and>
    AsyncRead ctl h buf (Ret [] # rest, c) = Inr (([], 0), rest, c) \<and>
    (\<exists>c'. AsyncRead ctl h buf (Err EAGAIN # Err EOTHER # rest, c) = Inr (([], 0), rest, c'))"
proof -
  have inv: "em_inv ctl kclose interest (conn_net c)" "\<not> is_shutdown (snd (conn_net c))" "\<not> conn_closed c"
    using assms(1) by (simp_all add: conn_inv_def)
  moreover obtain n1 n2 where "AddRecv ctl h (conn_net c) = Inr n1" "\<not> is_shutdown (snd n1)" "DelRecv ctl n1 = Inr n2"
    by (rule recv_cycle [OF inv(1,2)])
  ultimately show ?thesis
    using AsyncRead_fair [OF assms, of h buf rest]
    by (simp add: AsyncRead.simps [of _ _ _ "(_ # _, _)"] ReadInnerAwaiter_def resize_def overwrite_def retry_def)
qed

theorem AsyncRead_first_witness:
  "\<exists>c'. AsyncRead map_ctl () [0, 0, 0, 0] ([Err EAGAIN, Ret [7, 8]] @ [], example_conn) = Inr (([7, 8], length [7, 8 :: byte]), [], c')"
  using AsyncRead_first [OF example_conn_inv, of "[Err EAGAIN, Ret [7, 8]]" "[7, 8]" "()" "[0, 0, 0, 0]" "[]"]
  by (auto simp: retry_def)

text \<open>
  Accepting a connection that is already waiting ends the process: the awaiter
  deregisters a socket it never registered, and the failing \<open>EPOLL_CTL_MOD\<close> is fatal. A
  connection that arrives after the coroutine was suspended is returned.
\<close>

theorem accept_ready_is_fatal:
  assumes "epoll_laws ctl kclose interest" "em_agrees interest (s, em)" "\<not> is_shutdown em" "detached s" "0 \<le> fd"
  shows "accept ctl h (fd # tr, s, em) = Inl Fatal \<and>
    (\<exists>n c. accept ctl h (- 1 # fd # tr, s, em) = Inr (Some c, tr, n) \<and> sock_fd (fst (conn_net c)) = fd \<and> em_agrees interest n)"
proof
  show "accept ctl h (fd # tr, s, em) = Inl Fatal"
    using DelRecv_detached [OF assms(1-4)] assms(5) by (simp add: accept_def AcceptAwaiter_def)
  have inv: "em_inv ctl kclose interest (s, em)" "\<not> is_shutdown (snd (s, em))"
    using assms(1-3) by (simp_all add: em_inv_def)
  obtain n1 n2 where "AddRecv ctl h (s, em) = Inr n1" "\<not> is_shutdown (snd n1)" "DelRecv ctl n1 = Inr n2"
      "em_inv ctl kclose interest n2"
    by (rule recv_cycle [OF inv])
  then show "\<exists>n c. accept ctl h (- 1 # fd # tr, s, em) = Inr (Some c, tr, n) \<and> sock_fd (fst (conn_net c)) = fd \<and> em_agrees interest n"
    using assms(5) by (cases n2) (auto simp: accept_def AcceptAwaiter_def em_inv_def new_connection_def new_socket_def)
qed

theorem accept_ready_is_fatal_witness:
  "accept map_ctl () ([9], new_socket 5, new_event_manager Map.empty 16) = Inl Fatal"
  using accept_ready_is_fatal [OF map_epoll_laws, of "new_socket 5" "new_event_manager Map.empty 16" 9 "()" "[]"]
  by (simp add: em_agrees_def new_socket_def new_event_manager_def)

text \<open>
  The header of a packet is not checked: on a closed connection the length is
  whatever the header buffer held before, and when those bytes are zero \<open>AsyncReadPacket\<close>
  reports the successful receipt of an empty packet.
\<close>

theorem packet_header_unchecked:
  assumes "conn_closed c" "length junk = 4"
  shows "AsyncReadPacket ctl h junk buf (tr, c) =
    Inr ((le_word junk = (0 :: u32), resize (unat (le_word junk :: u32)) buf), tr, c)"
  using assms by (simp add: AsyncReadPacket_def ReadInnerAwaiter_def overwrite_def HEADER_SIZE_def
      ReadPacket_loop.simps unat_eq_zero Let_def)

theorem packet_header_unchecked_witness:
  "AsyncReadPacket map_ctl () [0, 0, 0, 0] [] ([], conn_Close map_close example_conn) =
    Inr ((le_word [0, 0, 0, 0] = (0 :: u32), resize (unat (le_word [0, 0, 0, 0] :: u32)) []), [], conn_Close map_close example_conn)"
  by (rule packet_header_unchecked) (simp_all add: conn_Close_def example_conn_def new_connection_def)

end
