(* ===== verification/Timer_Manager.thy ===== *)
theory Timer_Manager
  imports Luce_Prelude "HOL-Library.Multiset"
begin

text \<open>
  \<open>luce/timer/timer.h\<close>: the timer manager, a binary heap of timers in a vector ordered by
  expiry time.

  Time points are the clock's nanosecond counts (\<^typ>\<open>int\<close>), timer ids are \<open>size_t\<close>, the
  callback is a value of an arbitrary type \<open>'t\<close>. Heap indices are \<open>uint32_t\<close>: the child
  indices are computed modulo \<open>2 ^ 32\<close>, so \<open>HeapifyDown\<close> is a partial function (with
  more than \<open>2 ^ 31\<close> timers the index may wrap and the recursion need not end), and the
  operations built on it return \<open>None\<close> where it does not return. Below that size it is
  proved to return and to equal the textbook \<open>sift_down\<close>.
\<close>

section \<open>State\<close>

record 't timer =
  expiry_time :: int
  timer_id :: u64
  timer_task :: 't

record 't timer_manager =
  timers :: "'t timer list"
  next_timer_id :: u64
  tm_stop :: bool

text \<open>What \<open>pop\<close> hands out: an empty timer, a copy of the front element, or a copy made
  through a reference to an element that no longer exists.\<close>

datatype 't popped = EmptyTimer | FrontTimer "'t timer" | DanglingTimer

section \<open>The heap\<close>

definition to_u32 :: "nat \<Rightarrow> nat" where
  "to_u32 n = n mod 2 ^ 32"

function HeapifyUp :: "'t timer list \<Rightarrow> nat \<Rightarrow> 't timer list" where
  "HeapifyUp ts index =
     (if index = 0 then ts
      else let parent_index = (index - 1) div 2
           in if expiry_time (ts ! index) < expiry_time (ts ! parent_index)
              then HeapifyUp (swap_at ts index parent_index) parent_index
              else ts)"
  by pat_completeness auto
termination
  by (relation "measure snd") auto

declare HeapifyUp.simps [simp del]

definition smallest_of :: "'t timer list \<Rightarrow> nat \<Rightarrow> nat \<Rightarrow> nat \<Rightarrow> nat" where
  "smallest_of ts index left right =
     (let s1 = (if left < length ts \<and> expiry_time (ts ! left) < expiry_time (ts ! index)
                then left else index)
      in if right < length ts \<and> expiry_time (ts ! right) < expiry_time (ts ! s1)
         then right else s1)"

partial_function (option) HeapifyDown :: "'t timer list \<Rightarrow> nat \<Rightarrow> 't timer list option" where
  "HeapifyDown ts index =
     (let left_child_index = to_u32 (index * 2 + 1);
          right_child_index = to_u32 (index * 2 + 2);
          smallest_index = smallest_of ts index left_child_index right_child_index
      in if smallest_index \<noteq> index
         then HeapifyDown (swap_at ts smallest_index index) smallest_index
         else Some ts)"

definition Erase :: "'t timer list \<Rightarrow> nat \<Rightarrow> 't timer list option" where
  "Erase ts index = HeapifyDown (butlast (swap_at ts index (length ts - 1))) index"

definition Push :: "'t timer list \<Rightarrow> 't timer \<Rightarrow> 't timer list" where
  "Push ts t = HeapifyUp (ts @ [t]) (to_u32 (length ts))"

text \<open>
  \<open>pop\<close> binds \<open>timer\<close> to the front element by reference, erases index 0 and then copies
  out of the reference: what it returns is whatever the front slot holds afterwards.
\<close>

definition pop :: "'t timer list \<Rightarrow> ('t popped \<times> 't timer list) option" where
  "pop ts =
     (if ts = [] then Some (EmptyTimer, ts)
      else case Erase ts 0 of
             None \<Rightarrow> None
           | Some ts' \<Rightarrow> Some (case ts' of [] \<Rightarrow> DanglingTimer | t # _ \<Rightarrow> FrontTimer t, ts'))"

section \<open>Operations of the manager\<close>

definition new_timer_manager :: "'t timer_manager" where
  "new_timer_manager = \<lparr>timers = [], next_timer_id = 0, tm_stop = False\<rparr>"

text \<open>\<open>now\<close> is the clock reading; a millisecond is \<open>10 ^ 6\<close> nanoseconds.\<close>

definition AddTimer :: "int \<Rightarrow> u32 \<Rightarrow> 't \<Rightarrow> 't timer_manager \<Rightarrow> u64 \<times> 't timer_manager" where
  "AddTimer now milliseconds callback tm =
     (let id = next_timer_id tm;
          t = \<lparr>expiry_time = now + int (unat milliseconds) * 10 ^ 6, timer_id = id, timer_task = callback\<rparr>
      in (id, tm\<lparr>next_timer_id := id + 1, timers := Push (timers tm) t\<rparr>))"

fun find_timer :: "u64 \<Rightarrow> 't timer list \<Rightarrow> nat option" where
  "find_timer i [] = None"
| "find_timer i (t # ts) = (if timer_id t = i then Some 0 else map_option Suc (find_timer i ts))"

definition RemoveTimer :: "u64 \<Rightarrow> 't timer_manager \<Rightarrow> 't timer_manager option" where
  "RemoveTimer i tm =
     (case find_timer i (timers tm) of
        None \<Rightarrow> Some tm
      | Some k \<Rightarrow> (case Erase (timers tm) (to_u32 k) of
                    None \<Rightarrow> None | Some ts \<Rightarrow> Some (tm\<lparr>timers := ts\<rparr>)))"

definition tm_shutdown :: "'t timer_manager \<Rightarrow> 't timer_manager" where
  "tm_shutdown tm = tm\<lparr>tm_stop := True\<rparr>"

text \<open>
  One round of the loop of \<open>Tick\<close> at clock reading \<open>now\<close>: start a thread for the popped
  timer, or sleep.
\<close>

datatype 't tick_action = TickStopped | TickSleep | TickRun "'t popped"

definition tick_round :: "int \<Rightarrow> 't timer_manager \<Rightarrow> ('t tick_action \<times> 't timer_manager) option" where
  "tick_round now tm =
     (if tm_stop tm then Some (TickStopped, tm)
      else if timers tm \<noteq> [] \<and> expiry_time (timers tm ! 0) \<le> now
      then (case pop (timers tm) of
              None \<Rightarrow> None
            | Some (t, ts) \<Rightarrow> Some (TickRun t, tm\<lparr>timers := ts\<rparr>))
      else Some (TickSleep, tm))"

fun Tick :: "int list \<Rightarrow> 't timer_manager \<Rightarrow> ('t tick_action list \<times> 't timer_manager) option" where
  "Tick [] tm = Some ([], tm)"
| "Tick (now # nows) tm =
     (case tick_round now tm of
        None \<Rightarrow> None
      | Some (a, tm') \<Rightarrow>
          (case a of
             TickStopped \<Rightarrow> Some ([a], tm')
           | _ \<Rightarrow> map_option (\<lambda>(as, tm''). (a # as, tm'')) (Tick nows tm')))"

section \<open>Heap order\<close>

abbreviation key :: "'t timer list \<Rightarrow> nat \<Rightarrow> int" where
  "key ts i \<equiv> expiry_time (ts ! i)"

definition parent :: "nat \<Rightarrow> nat" where
  "parent i = (i - 1) div 2"

lemma parent_lt [simp, intro]: "0 < i \<Longrightarrow> parent i < i"
  by (auto simp: parent_def)

lemma parent_less [intro]: "i < n \<Longrightarrow> parent i < n"
  by (auto simp: parent_def)

lemma parent_child [simp]: "parent (2 * k + 1) = k" "parent (2 * k + 2) = k"
  by (simp_all add: parent_def)

lemma parent_eqD: "0 < i \<Longrightarrow> parent i = k \<Longrightarrow> i = 2 * k + 1 \<or> i = 2 * k + 2"
  unfolding parent_def by arith

lemma HeapifyUp_step:
  "HeapifyUp ts k =
     (if k \<noteq> 0 \<and> key ts k < key ts (parent k)
      then HeapifyUp (swap_at ts k (parent k)) (parent k) else ts)"
  by (simp add: HeapifyUp.simps [of ts k] parent_def Let_def)

definition is_heap :: "'t timer list \<Rightarrow> bool" where
  "is_heap ts \<longleftrightarrow> (\<forall>i. 0 < i \<and> i < length ts \<longrightarrow> key ts (parent i) \<le> key ts i)"

text \<open>A heap except that slot \<open>k\<close> may be smaller than its parent, or larger than its
  children; in both cases the elements around \<open>k\<close> are ordered among themselves.\<close>

definition bridged :: "'t timer list \<Rightarrow> nat \<Rightarrow> bool" where
  "bridged ts k \<longleftrightarrow> (\<forall>i. 0 < k \<and> 0 < i \<and> i < length ts \<and> parent i = k \<longrightarrow> key ts (parent k) \<le> key ts i)"

definition heap_up :: "'t timer list \<Rightarrow> nat \<Rightarrow> bool" where
  "heap_up ts k \<longleftrightarrow> bridged ts k \<and>
     (\<forall>i. 0 < i \<and> i < length ts \<and> i \<noteq> k \<longrightarrow> key ts (parent i) \<le> key ts i)"

definition heap_down :: "'t timer list \<Rightarrow> nat \<Rightarrow> bool" where
  "heap_down ts k \<longleftrightarrow> bridged ts k \<and>
     (\<forall>i. 0 < i \<and> i < length ts \<and> parent i \<noteq> k \<longrightarrow> key ts (parent i) \<le> key ts i)"

lemma is_heap_code: "is_heap ts \<longleftrightarrow> (\<forall>i \<in> set [1..<length ts]. key ts (parent i) \<le> key ts i)"
  by (auto simp: is_heap_def)

lemma mset_swap_at: "i < length xs \<Longrightarrow> j < length xs \<Longrightarrow> mset (swap_at xs i j) = mset xs"
  by (simp add: swap_at_def mset_swap)

lemma is_heap_root:
  assumes "is_heap ts" "i < length ts"
  shows "key ts 0 \<le> key ts i"
  using assms(2)
proof (induction i rule: less_induct)
  case (less i)
  show ?case
  proof (cases "i = 0")
    case False
    then have "parent i < i" by (intro parent_lt) simp
    then have "key ts 0 \<le> key ts (parent i)" using less by simp
    also have "\<dots> \<le> key ts i" using assms(1) False less.prems by (simp add: is_heap_def)
    finally show ?thesis .
  qed simp
qed

lemma is_heap_root_set: "is_heap ts \<Longrightarrow> u \<in> set ts \<Longrightarrow> key ts 0 \<le> expiry_time u"
  by (metis in_set_conv_nth is_heap_root)

section \<open>Sifting up\<close>

lemma key_swap_at:
  "i < length ts \<Longrightarrow> j < length ts \<Longrightarrow> m < length ts \<Longrightarrow>
   key (swap_at ts i j) m = (if m = i then key ts j else if m = j then key ts i else key ts m)"
  by (simp add: nth_swap_at)

lemma heap_up_swap:
  assumes h: "heap_up ts k" and k: "0 < k" "k < length ts" and lt: "key ts k < key ts (parent k)"
  shows "heap_up (swap_at ts k (parent k)) (parent k)"
proof -
  let ?p = "parent k" and ?ts = "swap_at ts k (parent k)"
  have p: "?p < k" using k by auto
  have sw: "key ?ts i = (if i = k then key ts ?p else if i = ?p then key ts k else key ts i)"
    if "i < length ts" for i
    using that k p by (intro key_swap_at) auto
  have ord: "key ts (parent i) \<le> key ts i" if "0 < i" "i < length ts" "i \<noteq> k" for i
    using h that by (simp add: heap_up_def)
  have br: "key ts ?p \<le> key ts i" if "0 < i" "i < length ts" "parent i = k" for i
    using h that k by (simp add: heap_up_def bridged_def)
  have "key ?ts (parent i) \<le> key ?ts i" if i: "0 < i" "i < length ts" "i \<noteq> ?p" for i
  proof -
    have pi: "parent i < i" "parent i < length ts" using i by auto
    consider "i = k" | "i \<noteq> k" "parent i = k" | "i \<noteq> k" "parent i \<noteq> k" "parent i = ?p"
      | "i \<noteq> k" "parent i \<noteq> k" "parent i \<noteq> ?p" by blast
    then show ?thesis
    proof cases
      case 1 then show ?thesis using sw [of i] sw [OF pi(2)] lt p i by simp
    next
      case 2 then show ?thesis using sw [of i] sw [OF pi(2)] br [of i] i p pi by simp
    next
      case 3 then show ?thesis using sw [of i] sw [OF pi(2)] ord [of i] i lt by simp
    next
      case 4 then show ?thesis using sw [of i] sw [OF pi(2)] ord [of i] i by simp
    qed
  qed
  moreover have "bridged ?ts ?p"
    unfolding bridged_def
  proof (intro allI impI)
    fix i assume i: "0 < ?p \<and> 0 < i \<and> i < length ?ts \<and> parent i = ?p"
    then have pp: "parent ?p < ?p" "parent ?p < length ts" using p k by auto
    have "key ?ts (parent ?p) = key ts (parent ?p)" using sw [OF pp(2)] pp p by simp
    also have "\<dots> \<le> key ts ?p" using ord [of ?p] i p k by simp
    also have "\<dots> \<le> key ?ts i"
      using sw [of i] ord [of i] i parent_lt [of i] by (cases "i = k") auto
    finally show "key ?ts (parent ?p) \<le> key ?ts i" .
  qed
  ultimately show ?thesis by (simp add: heap_up_def)
qed

lemma HeapifyUp_heap:
  assumes "heap_up ts k" "k < length ts"
  shows "is_heap (HeapifyUp ts k)"
  using assms
proof (induction k arbitrary: ts rule: less_induct)
  case (less k)
  show ?case
  proof (cases "k \<noteq> 0 \<and> key ts k < key ts (parent k)")
    case True
    then have k: "parent k < k" "parent k < length ts" using less.prems(2) by auto
    have "heap_up (swap_at ts k (parent k)) (parent k)"
      using less.prems True by (intro heap_up_swap) auto
    then show ?thesis
      using less.IH [OF k(1)] True k by (simp add: HeapifyUp_step [of ts k])
  next
    case False
    then have "is_heap ts"
      using less.prems(1) unfolding heap_up_def is_heap_def by (metis leI less_nat_zero_code)
    then show ?thesis using False by (auto simp: HeapifyUp_step [of ts k])
  qed
qed

lemma mset_HeapifyUp: "k < length ts \<Longrightarrow> mset (HeapifyUp ts k) = mset ts"
proof (induction k arbitrary: ts rule: less_induct)
  case (less k)
  show ?case
  proof (cases "k \<noteq> 0 \<and> key ts k < key ts (parent k)")
    case True
    then have "parent k < k" "parent k < length ts" using less.prems by auto
    then show ?thesis
      using less True by (simp add: HeapifyUp_step [of ts k] mset_swap_at)
  qed (auto simp: HeapifyUp_step [of ts k])
qed

lemma heap_up_snoc:
  assumes "is_heap ts"
  shows "heap_up (ts @ [t]) (length ts)"
proof -
  have "key (ts @ [t]) (parent i) \<le> key (ts @ [t]) i" if "0 < i" "i < length ts" for i
    using that assms parent_less [of i "length ts"] by (simp add: is_heap_def nth_append)
  moreover have "parent i \<noteq> length ts" if "0 < i" "i < length (ts @ [t])" for i
    using parent_lt [OF that(1)] that(2) by (simp del: parent_lt)
  ultimately show ?thesis by (auto simp: heap_up_def bridged_def)
qed

lemma Push_heap: "is_heap ts \<Longrightarrow> length ts < 2 ^ 32 \<Longrightarrow> is_heap (Push ts t)"
  using HeapifyUp_heap [OF heap_up_snoc, of ts t] by (simp add: Push_def to_u32_def)

lemma mset_Push: "length ts < 2 ^ 32 \<Longrightarrow> mset (Push ts t) = add_mset t (mset ts)"
  by (simp add: Push_def to_u32_def mset_HeapifyUp)

lemma set_Push: "length ts < 2 ^ 32 \<Longrightarrow> set (Push ts t) = insert t (set ts)"
  by (metis mset_Push set_mset_add_mset_insert set_mset_mset)

section \<open>Sifting down\<close>

function sift_down :: "'t timer list \<Rightarrow> nat \<Rightarrow> 't timer list" where
  "sift_down ts k =
     (let s = smallest_of ts k (2 * k + 1) (2 * k + 2)
      in if s = k then ts else sift_down (swap_at ts s k) s)"
  by pat_completeness auto
termination
  by (relation "measure (\<lambda>(ts, k). length ts - k)") (auto simp: smallest_of_def Let_def split: if_splits)

declare sift_down.simps [simp del]

lemma smallest_of_child:
  assumes "s = smallest_of ts k (2 * k + 1) (2 * k + 2)" "s \<noteq> k"
  shows "k < s" "parent s = k" "s < length ts" "key ts s < key ts k"
proof -
  from assms consider "s = 2 * k + 1" "s < length ts" "key ts s < key ts k"
    | "s = 2 * k + 2" "s < length ts" "key ts s < key ts k"
    by (auto simp: smallest_of_def Let_def split: if_splits)
  then show "k < s" "parent s = k" "s < length ts" "key ts s < key ts k"
    by (cases; simp only: parent_child; simp)+
qed

lemma smallest_of_least:
  assumes "s = smallest_of ts k (2 * k + 1) (2 * k + 2)" "0 < i" "i < length ts" "parent i = k"
  shows "key ts s \<le> key ts i"
  using parent_eqD [OF assms(2,4)] assms(1,3) by (auto simp: smallest_of_def Let_def)

lemma heap_down_swap:
  assumes h: "heap_down ts k" and s: "s = smallest_of ts k (2 * k + 1) (2 * k + 2)" "s \<noteq> k"
  shows "heap_down (swap_at ts s k) s"
proof -
  let ?ts = "swap_at ts s k"
  note sk = smallest_of_child [OF s] and least = smallest_of_least [OF s(1)]
  have sw: "key ?ts i = (if i = s then key ts k else if i = k then key ts s else key ts i)"
    if "i < length ts" for i
    using that sk by (intro key_swap_at) auto
  have ord: "key ts (parent i) \<le> key ts i" if "0 < i" "i < length ts" "parent i \<noteq> k" for i
    using h that by (simp add: heap_down_def)
  have "key ?ts (parent i) \<le> key ?ts i" if i: "0 < i" "i < length ts" "parent i \<noteq> s" for i
  proof -
    have pi: "parent i < i" "parent i < length ts" using i by auto
    consider "i = k" | "i = s" | "i \<noteq> k" "i \<noteq> s" "parent i = k" | "i \<noteq> k" "i \<noteq> s" "parent i \<noteq> k" by blast
    then show ?thesis
    proof cases
      case 1
      then have "key ts (parent k) \<le> key ts s"
        using h i sk by (auto simp: heap_down_def bridged_def)
      then show ?thesis using 1 sw [of i] sw [OF pi(2)] pi i sk by simp
    next
      case 2 then show ?thesis using sw [of i] sw [OF pi(2)] i sk by simp
    next
      case 3 then show ?thesis using sw [of i] sw [OF pi(2)] least [of i] i sk by simp
    next
      case 4 then show ?thesis using sw [of i] sw [OF pi(2)] ord [of i] i by simp
    qed
  qed
  moreover have "bridged ?ts s"
    unfolding bridged_def
  proof (intro allI impI)
    fix i assume i: "0 < s \<and> 0 < i \<and> i < length ?ts \<and> parent i = s"
    then have "key ts s \<le> key ts i" using ord [of i] sk by simp
    moreover have "s < i" using i parent_lt [of i] by simp
    ultimately show "key ?ts (parent s) \<le> key ?ts i"
      using sw [of i] sw [of k] i sk by simp
  qed
  ultimately show ?thesis by (simp add: heap_down_def)
qed

lemma sift_down_correct:
  "(heap_down ts k \<longrightarrow> is_heap (sift_down ts k)) \<and> mset (sift_down ts k) = mset ts"
proof (induction ts k rule: sift_down.induct)
  case (1 ts k)
  define s where "s = smallest_of ts k (2 * k + 1) (2 * k + 2)"
  have step: "sift_down ts k = (if s = k then ts else sift_down (swap_at ts s k) s)"
    unfolding s_def by (subst sift_down.simps) (simp only: Let_def)
  show ?case
  proof (cases "s = k")
    case True
    have "is_heap ts" if "heap_down ts k"
      using that smallest_of_least [OF s_def] True unfolding heap_down_def is_heap_def by metis
    then show ?thesis using True step by simp
  next
    case False
    have "mset (swap_at ts s k) = mset ts"
      using smallest_of_child [OF s_def False] by (intro mset_swap_at) auto
    then show ?thesis
      using "1.IH" [OF s_def False] heap_down_swap [OF _ s_def False] False step by simp
  qed
qed

text \<open>The \<open>uint32_t\<close> indices do not wrap below \<open>2 ^ 31 - 1\<close> timers, so the recursion ends.\<close>

lemma HeapifyDown_sift_down:
  "length ts < 2 ^ 31 - 1 \<Longrightarrow> k \<le> length ts \<Longrightarrow> HeapifyDown ts k = Some (sift_down ts k)"
proof (induction ts k rule: sift_down.induct)
  case (1 ts k)
  define s where "s = smallest_of ts k (2 * k + 1) (2 * k + 2)"
  have "to_u32 (k * 2 + 1) = 2 * k + 1" "to_u32 (k * 2 + 2) = 2 * k + 2"
    using "1.prems" by (simp_all add: to_u32_def)
  then have "HeapifyDown ts k = (if s = k then Some ts else HeapifyDown (swap_at ts s k) s)"
    unfolding s_def by (subst HeapifyDown.simps) (auto simp: Let_def)
  moreover have "sift_down ts k = (if s = k then ts else sift_down (swap_at ts s k) s)"
    unfolding s_def by (subst sift_down.simps) (simp only: Let_def)
  moreover have "s \<noteq> k \<Longrightarrow> s < length ts"
    using smallest_of_child [OF s_def] by simp
  ultimately show ?case using "1.IH" [OF s_def] "1.prems" by (cases "s = k") simp_all
qed

section \<open>Erasing\<close>

lemma Erase_eq:
  assumes "length ts < 2 ^ 31" "k < length ts"
  shows "Erase ts k = Some (sift_down (butlast (swap_at ts k (length ts - 1))) k)"
  unfolding Erase_def using assms by (intro HeapifyDown_sift_down) auto

lemma mset_butlast_swap:
  assumes "k < length ts"
  shows "mset (butlast (swap_at ts k (length ts - 1))) = mset ts - {#ts ! k#}"
proof -
  let ?ts = "swap_at ts k (length ts - 1)"
  have ne: "?ts \<noteq> []" using assms by (metis length_0_conv length_swap_at less_nat_zero_code)
  have "last ?ts = ts ! k"
    using assms ne by (simp add: last_conv_nth nth_swap_at)
  then have "?ts = butlast ?ts @ [ts ! k]"
    using ne by (metis append_butlast_last_id)
  then have "mset ?ts = add_mset (ts ! k) (mset (butlast ?ts))"
    by (metis union_code mset_single_iff mset.simps add.right_neutral add_mset_add_single mset_append)
  moreover have "mset ?ts = mset ts"
    using assms by (intro mset_swap_at) auto
  ultimately show ?thesis by (metis add_mset_remove_trivial)
qed

lemma mset_Erase:
  assumes "length ts < 2 ^ 31" "k < length ts" "Erase ts k = Some ts'"
  shows "mset ts' = mset ts - {#ts ! k#}"
  using assms sift_down_correct [of "butlast (swap_at ts k (length ts - 1))" k] mset_butlast_swap [of k ts]
  by (simp add: Erase_eq)

lemma heap_down_erase:
  assumes h: "is_heap ts" and k: "k < length ts"
    and up: "0 < k \<Longrightarrow> key ts (parent k) \<le> key ts (length ts - 1)"
  shows "heap_down (butlast (swap_at ts k (length ts - 1))) k"
proof -
  let ?l = "length ts - 1" and ?ts = "butlast (swap_at ts k (length ts - 1))"
  have len: "length ?ts = ?l" by simp
  have sw: "key ?ts i = (if i = k then key ts ?l else key ts i)" if "i < ?l" for i
    using that k by (simp add: nth_butlast nth_swap_at)
  have ord: "key ts (parent i) \<le> key ts i" if "0 < i" "i < length ts" for i
    using h that by (simp add: is_heap_def)
  have "key ?ts (parent i) \<le> key ?ts i" if i: "0 < i" "i < ?l" "parent i \<noteq> k" for i
    using sw [of i] sw [OF parent_less [OF i(2)]] i ord [of i] up by auto
  moreover have "key ?ts (parent k) \<le> key ?ts i" if i: "0 < k" "0 < i" "i < ?l" "parent i = k" for i
  proof -
    have "k < i" using i parent_lt by blast
    then have k': "k < ?l" "i \<noteq> k" using i(3) by simp_all
    have "parent k < k" using i(1) by (rule parent_lt)
    then have "key ?ts (parent k) = key ts (parent k)"
      using sw [of "parent k"] k' by simp
    also have "\<dots> \<le> key ts k" using ord i(1) k by simp
    also have "\<dots> \<le> key ts i" using ord [of i] i by simp
    finally show ?thesis using sw [OF i(3)] k' by simp
  qed
  ultimately show ?thesis by (simp add: heap_down_def bridged_def len)
qed

lemma Erase_heap:
  assumes "is_heap ts" "length ts < 2 ^ 31" "k < length ts"
    and "0 < k \<Longrightarrow> key ts (parent k) \<le> key ts (length ts - 1)" "Erase ts k = Some ts'"
  shows "is_heap ts'"
  using assms heap_down_erase [of ts k] sift_down_correct [of "butlast (swap_at ts k (length ts - 1))" k]
  by (auto simp: Erase_eq)

lemma pop_Cons:
  assumes "is_heap ts" "ts \<noteq> []" "length ts < 2 ^ 31"
  obtains ts' where "pop ts = Some (case ts' of [] \<Rightarrow> DanglingTimer | t # _ \<Rightarrow> FrontTimer t, ts')"
    and "is_heap ts'" "mset ts' = mset ts - {#ts ! 0#}"
proof -
  have l: "0 < length ts" using assms(2) by simp
  obtain ts' where e: "Erase ts 0 = Some ts'" using Erase_eq [OF assms(3) l] by simp
  have "is_heap ts'" by (rule Erase_heap [OF assms(1,3) l _ e]) simp
  moreover have "mset ts' = mset ts - {#ts ! 0#}" by (rule mset_Erase [OF assms(3) l e])
  ultimately show ?thesis using e assms(2) by (intro that) (simp_all add: pop_def)
qed

section \<open>Looking a timer up\<close>

lemma find_timer_None: "find_timer i ts = None \<longleftrightarrow> (\<forall>t \<in> set ts. timer_id t \<noteq> i)"
  by (induction ts) auto

lemma find_timer_Some: "find_timer i ts = Some k \<Longrightarrow> k < length ts \<and> timer_id (ts ! k) = i"
  by (induction ts arbitrary: k) (auto split: if_splits)

section \<open>Ids of pending timers\<close>

definition pending :: "'t timer_manager \<Rightarrow> u64 set" where
  "pending tm = timer_id ` set (timers tm)"

definition tm_ids :: "'t timer_manager \<Rightarrow> bool" where
  "tm_ids tm \<longleftrightarrow> distinct (map timer_id (timers tm)) \<and> (\<forall>t \<in> set (timers tm). timer_id t < next_timer_id tm) \<and>
     length (timers tm) < 2 ^ 31"

text \<open>Room for one more timer: neither the heap nor the id counter is exhausted.\<close>

definition tm_room :: "'t timer_manager \<Rightarrow> bool" where
  "tm_room tm \<longleftrightarrow> length (timers tm) + 1 < 2 ^ 31 \<and> next_timer_id tm \<noteq> - 1"

lemma distinct_map_mset:
  "mset xs = mset ys \<Longrightarrow> distinct (map f xs) = distinct (map f ys)"
  by (metis mset_eq_imp_distinct_iff mset_map)

lemma tm_ids_add:
  assumes "tm_ids tm" "tm_room tm" "AddTimer now ms cb tm = (i, tm')"
  shows "tm_ids tm'" "i \<notin> pending tm" "pending tm' = insert i (pending tm)"
proof -
  define t where "t = \<lparr>expiry_time = now + int (unat ms) * 10 ^ 6, timer_id = next_timer_id tm, timer_task = cb\<rparr>"
  from assms(3) have i: "i = next_timer_id tm" and tm': "timers tm' = Push (timers tm) t"
    "next_timer_id tm' = i + 1"
    by (auto simp: AddTimer_def Let_def t_def)
  have len: "length (timers tm) < 2 ^ 32" using assms(1) by (simp add: tm_ids_def)
  note ms = mset_Push [OF len, of t] and st = set_Push [OF len, of t]
  have "\<forall>x \<in> set (timers tm). timer_id x < i" using assms(1) i by (simp add: tm_ids_def)
  then show fresh: "i \<notin> pending tm" by (auto simp: pending_def)
  have up: "i < i + 1" using assms(2) i by (simp add: tm_room_def word_less_succ)
  have "distinct (map timer_id (t # timers tm))"
    using assms(1) fresh i by (auto simp: tm_ids_def pending_def t_def)
  moreover have "mset (t # timers tm) = mset (timers tm')" using ms tm' by simp
  ultimately have "distinct (map timer_id (timers tm'))" using distinct_map_mset by blast
  moreover have "length (timers tm') = Suc (length (timers tm))"
    using ms tm' by (metis mset.simps(2) length_Cons size_mset)
  moreover have "\<forall>x \<in> set (timers tm'). timer_id x < next_timer_id tm'"
    using assms(1) up i st tm' by (auto simp: tm_ids_def t_def)
  ultimately show "tm_ids tm'" using assms(2) by (simp add: tm_ids_def tm_room_def)
  show "pending tm' = insert i (pending tm)"
    using st tm' i by (simp add: pending_def t_def)
qed

lemma mset_minus_nth_filter:
  assumes "distinct (map timer_id ts)" "k < length ts"
  shows "mset ts - {#ts ! k#} = mset (filter (\<lambda>t. timer_id t \<noteq> timer_id (ts ! k)) ts)"
proof -
  obtain xs x ys where ts: "ts = xs @ x # ys" "length xs = k"
    using assms(2) by (metis id_take_nth_drop length_take less_or_eq_imp_le min.absorb2)
  then have "filter (\<lambda>t. timer_id t \<noteq> timer_id x) xs = xs" "filter (\<lambda>t. timer_id t \<noteq> timer_id x) ys = ys"
    using assms(1) by (auto simp: filter_id_conv image_iff)
  moreover have "ts ! k = x" using ts by auto
  ultimately show ?thesis by (simp add: ts(1))
qed

lemma tm_ids_erase:
  assumes "tm_ids tm" "k < length (timers tm)" "Erase (timers tm) k = Some ts'"
  shows "tm_ids (tm\<lparr>timers := ts'\<rparr>)"
    and "mset ts' = mset (filter (\<lambda>t. timer_id t \<noteq> timer_id (timers tm ! k)) (timers tm))"
proof -
  let ?f = "filter (\<lambda>t. timer_id t \<noteq> timer_id (timers tm ! k)) (timers tm)"
  have d: "distinct (map timer_id (timers tm))" and l: "length (timers tm) < 2 ^ 31"
    using assms(1) by (auto simp: tm_ids_def)
  show m: "mset ts' = mset ?f"
    using mset_Erase [OF l assms(2,3)] mset_minus_nth_filter [OF d assms(2)] by simp
  have "distinct (map timer_id ts')"
    using distinct_map_mset [OF m, of timer_id] d by (simp add: distinct_map_filter)
  moreover have "set ts' \<subseteq> set (timers tm)" using m by (metis filter_is_subset mset_eq_setD)
  moreover have "length ts' \<le> length (timers tm)" using m by (metis length_filter_le mset_eq_length)
  ultimately show "tm_ids (tm\<lparr>timers := ts'\<rparr>)"
    using assms(1) l by (auto simp: tm_ids_def)
qed

lemma RemoveTimer_mset:
  assumes "tm_ids tm"
  obtains ts' where "RemoveTimer i tm = Some (tm\<lparr>timers := ts'\<rparr>)" "tm_ids (tm\<lparr>timers := ts'\<rparr>)"
    and "mset ts' = mset (filter (\<lambda>t. timer_id t \<noteq> i) (timers tm))"
proof (cases "find_timer i (timers tm)")
  case None
  then have "filter (\<lambda>t. timer_id t \<noteq> i) (timers tm) = timers tm"
    by (simp add: find_timer_None filter_id_conv)
  then show ?thesis using None assms by (intro that [of "timers tm"]) (simp_all add: RemoveTimer_def)
next
  case (Some k)
  then have k: "k < length (timers tm)" "timer_id (timers tm ! k) = i" by (auto dest: find_timer_Some)
  have l: "length (timers tm) < 2 ^ 31" using assms by (simp add: tm_ids_def)
  obtain ts' where e: "Erase (timers tm) k = Some ts'" using Erase_eq [OF l k(1)] by simp
  have "to_u32 k = k" using k l by (simp add: to_u32_def)
  then show ?thesis
    using Some e tm_ids_erase [OF assms k(1) e] k(2) by (intro that [of ts']) (simp_all add: RemoveTimer_def)
qed

lemma tick_round_ids:
  assumes "tm_ids tm" "tick_round now tm = Some (a, tm')"
  shows "tm_ids tm'"
proof (cases "tm_stop tm \<or> \<not> (timers tm \<noteq> [] \<and> expiry_time (timers tm ! 0) \<le> now)")
  case True
  then show ?thesis using assms by (auto simp: tick_round_def split: if_splits)
next
  case False
  then obtain ts' where "Erase (timers tm) 0 = Some ts'" "tm' = tm\<lparr>timers := ts'\<rparr>"
    using assms(2) by (auto simp: tick_round_def pop_def split: option.splits)
  then show ?thesis using tm_ids_erase(1) [OF assms(1), of 0] False by simp
qed

section \<open>The timer service as a step system\<close>

text \<open>Concurrent callers are serialised by the mutex; each critical section is one step.\<close>

inductive tm_step :: "'t timer_manager \<Rightarrow> 't timer_manager \<Rightarrow> bool" where
  add: "tm_room tm \<Longrightarrow> AddTimer now ms cb tm = (i, tm') \<Longrightarrow> tm_step tm tm'"
| remove: "RemoveTimer i tm = Some tm' \<Longrightarrow> tm_step tm tm'"
| tick: "tick_round now tm = Some (a, tm') \<Longrightarrow> tm_step tm tm'"
| shutdown: "tm_step tm (tm_shutdown tm)"

lemma tm_step_ids [step_inv]: "tm_step tm tm' \<Longrightarrow> tm_ids tm \<Longrightarrow> tm_ids tm'"
proof (induction rule: tm_step.induct)
  case (add tm now ms cb i tm')
  then show ?case by (blast intro: tm_ids_add)
next
  case (remove i tm tm')
  then show ?case by (metis RemoveTimer_mset option.inject)
next
  case (tick now tm a tm')
  then show ?case by (blast intro: tick_round_ids)
next
  case (shutdown tm)
  then show ?case by (simp add: tm_shutdown_def tm_ids_def)
qed

interpretation tm_sys: step_system "\<lambda>tm. tm = new_timer_manager" tm_step tm_ids
proof
  show "tm_ids tm" if "tm = new_timer_manager" for tm :: "'a timer_manager"
    using that by (simp add: tm_ids_def new_timer_manager_def)
qed (rule tm_step_ids)

text \<open>
  What the HTTP server relies on: a timer it adds gets an id no other pending timer has,
  and removing that id cancels this timer and no other.
\<close>

locale timer_service =
  fixes invar :: "'s \<Rightarrow> bool"
    and room :: "'s \<Rightarrow> bool"
    and ids :: "'s \<Rightarrow> u64 set"
    and add :: "int \<Rightarrow> u32 \<Rightarrow> 'c \<Rightarrow> 's \<Rightarrow> u64 \<times> 's"
    and remove :: "u64 \<Rightarrow> 's \<Rightarrow> 's option"
  assumes add_law: "invar s \<Longrightarrow> room s \<Longrightarrow> add now ms c s = (i, s') \<Longrightarrow>
      invar s' \<and> i \<notin> ids s \<and> ids s' = insert i (ids s)"
    and remove_law: "invar s \<Longrightarrow> \<exists>s'. remove i s = Some s' \<and> invar s' \<and> ids s' = ids s - {i}"
begin

lemma add_remove:
  assumes "invar s" "room s" "add now ms c s = (i, s')"
  shows "\<exists>s''. remove i s' = Some s'' \<and> invar s'' \<and> ids s'' = ids s"
  using add_law [OF assms] remove_law [of s' i] by auto

end

lemma RemoveTimer_pending:
  assumes "tm_ids tm"
  shows "\<exists>tm'. RemoveTimer i tm = Some tm' \<and> tm_ids tm' \<and> pending tm' = pending tm - {i}"
proof -
  obtain ts' where r: "RemoveTimer i tm = Some (tm\<lparr>timers := ts'\<rparr>)" "tm_ids (tm\<lparr>timers := ts'\<rparr>)"
    and m: "mset ts' = mset (filter (\<lambda>t. timer_id t \<noteq> i) (timers tm))"
    by (rule RemoveTimer_mset [OF assms])
  have "set ts' = {t \<in> set (timers tm). timer_id t \<noteq> i}" using mset_eq_setD [OF m] by simp
  then have "pending (tm\<lparr>timers := ts'\<rparr>) = pending tm - {i}" by (auto simp: pending_def)
  with r show ?thesis by blast
qed

interpretation tm_service: timer_service tm_ids tm_room pending AddTimer RemoveTimer
  by unfold_locales (auto dest: tm_ids_add intro: RemoveTimer_pending)

section \<open>Properties\<close>

text \<open>A manager with two pending timers, on which the properties below are instantiated.\<close>

definition two_timers :: "string timer_manager" where
  "two_timers = \<lparr>timers = [\<lparr>expiry_time = 1, timer_id = 0, timer_task = ''a''\<rparr>,
     \<lparr>expiry_time = 9, timer_id = 1, timer_task = ''c''\<rparr>], next_timer_id = 2, tm_stop = False\<rparr>"

lemma two_timers_ok: "tm_ids two_timers" "tm_room two_timers" "is_heap (timers two_timers)"
  by (auto simp: two_timers_def tm_ids_def tm_room_def is_heap_code parent_def)

text \<open>
  \<open>HeapifyDown\<close> returns for every vector of fewer than 2^31 - 1 timers: its
  32-bit child indices do not wrap, and the result is that of the textbook sift-down.
\<close>

theorem HeapifyDown_returns:
  assumes "length ts < 2 ^ 31 - 1" "index \<le> length ts"
  shows "HeapifyDown ts index = Some (sift_down ts index)"
  using assms by (rule HeapifyDown_sift_down)

theorem HeapifyDown_returns_witness:
  "HeapifyDown [\<lparr>expiry_time = 9, timer_id = 1, timer_task = ()\<rparr>, \<lparr>expiry_time = 4, timer_id = 2, timer_task = ()\<rparr>] 0 =
   Some (sift_down [\<lparr>expiry_time = 9, timer_id = 1, timer_task = ()\<rparr>, \<lparr>expiry_time = 4, timer_id = 2, timer_task = ()\<rparr>] 0)"
  by (rule HeapifyDown_returns) simp_all

text \<open>
  Claim C7. In a manager whose ids are below the counter and which has room for one more timer
  (fewer than 2^31 - 1 timers pending, the id counter not at its last value), \<open>AddTimer\<close> adds
  exactly one timer, with the computed expiry time, the returned id and the given callback. The
  id is that of no timer pending before, and the counter moves past it, so the pending ids are
  again distinct and below the counter. If the vector was a heap it still is one, and its front
  expires no later than any pending timer.
\<close>

theorem AddTimer_correct:
  assumes "tm_ids tm" "tm_room tm" "AddTimer now ms cb tm = (i, tm')"
  shows "mset (timers tm') = add_mset \<lparr>expiry_time = now + int (unat ms) * 10 ^ 6, timer_id = i, timer_task = cb\<rparr>
      (mset (timers tm)) \<and>
    i \<notin> pending tm \<and> i < next_timer_id tm' \<and> tm_ids tm' \<and>
    (is_heap (timers tm) \<longrightarrow> is_heap (timers tm') \<and>
      (\<forall>t \<in> set (timers tm'). expiry_time (timers tm' ! 0) \<le> expiry_time t))"
proof -
  define t where "t = \<lparr>expiry_time = now + int (unat ms) * 10 ^ 6, timer_id = i, timer_task = cb\<rparr>"
  have tm': "timers tm' = Push (timers tm) t" and nid: "next_timer_id tm' = next_timer_id tm + 1"
    "i = next_timer_id tm"
    using assms(3) by (auto simp: AddTimer_def Let_def t_def)
  have len: "length (timers tm) < 2 ^ 32" using assms(1) by (simp add: tm_ids_def)
  have "is_heap (timers tm')" if "is_heap (timers tm)" using that len tm' by (simp add: Push_heap)
  moreover from this
  have "\<forall>t \<in> set (timers tm'). expiry_time (timers tm' ! 0) \<le> expiry_time t" if "is_heap (timers tm)"
    using is_heap_root_set that by blast
  moreover have "i < next_timer_id tm'" using nid assms(2) by (simp add: tm_room_def word_less_succ)
  ultimately show ?thesis using len tm' tm_ids_add [OF assms] by (simp add: mset_Push t_def)
qed

theorem AddTimer_correct_witness:
  "mset (timers (snd (AddTimer 100 5 ''b'' two_timers))) =
      add_mset \<lparr>expiry_time = 100 + int (unat (5 :: u32)) * 10 ^ 6, timer_id = 2, timer_task = ''b''\<rparr>
        (mset (timers two_timers)) \<and>
    is_heap (timers (snd (AddTimer 100 5 ''b'' two_timers)))"
  using AddTimer_correct [of two_timers 100 5 "''b''" 2 "snd (AddTimer 100 5 ''b'' two_timers)"] two_timers_ok
  by (simp add: AddTimer_def Let_def two_timers_def)

text \<open>
  Claim C36. When the earliest of at least two timers is due, a round of \<open>Tick\<close> removes that
  timer but runs another one: the task it starts belongs to the earliest of the remaining
  timers, which stays pending. \<open>pop\<close> copies its result out of the front slot after
  erasing, so the due callback is lost.
\<close>

theorem tick_runs_the_next_timer:
  assumes "is_heap (timers tm)" "2 \<le> length (timers tm)" "length (timers tm) < 2 ^ 31"
    and "\<not> tm_stop tm" "expiry_time (timers tm ! 0) \<le> now"
  shows "\<exists>t ts. tick_round now tm = Some (TickRun (FrontTimer t), tm\<lparr>timers := t # ts\<rparr>) \<and>
    mset (t # ts) = mset (timers tm) - {#timers tm ! 0#} \<and>
    (\<forall>u \<in> set (t # ts). expiry_time t \<le> expiry_time u)"
proof -
  have ne: "timers tm \<noteq> []" using assms(2) by auto
  obtain ts' where p: "pop (timers tm) = Some (case ts' of [] \<Rightarrow> DanglingTimer | t # _ \<Rightarrow> FrontTimer t, ts')"
    and h: "is_heap ts'" and m: "mset ts' = mset (timers tm) - {#timers tm ! 0#}"
    by (rule pop_Cons [OF assms(1) ne assms(3)])
  have "length ts' = length (timers tm) - 1"
    using m ne by (metis nth_mem length_greater_0_conv set_mset_mset size_Diff_singleton size_mset)
  then obtain t ts where ts': "ts' = t # ts" using assms(2) by (cases ts') auto
  have "\<forall>u \<in> set (t # ts). expiry_time t \<le> expiry_time u"
    using is_heap_root_set [OF h] by (simp add: ts')
  moreover have "tick_round now tm = Some (TickRun (FrontTimer t), tm\<lparr>timers := t # ts\<rparr>)"
    using p ts' assms(4,5) ne by (simp add: tick_round_def)
  ultimately show ?thesis using m ts' by blast
qed

theorem tick_runs_the_next_timer_witness:
  "\<exists>t ts. tick_round 5 \<lparr>timers = [\<lparr>expiry_time = 1, timer_id = 0, timer_task = ''a''\<rparr>,
      \<lparr>expiry_time = 9, timer_id = 1, timer_task = ''b''\<rparr>], next_timer_id = 2, tm_stop = False\<rparr> =
    Some (TickRun (FrontTimer t), \<lparr>timers = [\<lparr>expiry_time = 1, timer_id = 0, timer_task = ''a''\<rparr>,
      \<lparr>expiry_time = 9, timer_id = 1, timer_task = ''b''\<rparr>], next_timer_id = 2, tm_stop = False\<rparr>\<lparr>timers := t # ts\<rparr>) \<and>
    mset (t # ts) = mset (timers \<lparr>timers = [\<lparr>expiry_time = 1, timer_id = 0, timer_task = ''a''\<rparr>,
      \<lparr>expiry_time = 9, timer_id = 1, timer_task = ''b''\<rparr>], next_timer_id = 2, tm_stop = False\<rparr>) -
      {#timers \<lparr>timers = [\<lparr>expiry_time = 1, timer_id = 0, timer_task = ''a''\<rparr>,
      \<lparr>expiry_time = 9, timer_id = 1, timer_task = ''b''\<rparr>], next_timer_id = 2, tm_stop = False\<rparr> ! 0#} \<and>
    (\<forall>u \<in> set (t # ts). expiry_time t \<le> expiry_time u)"
  by (rule tick_runs_the_next_timer) (auto simp: is_heap_def parent_def less_Suc_eq)

text \<open>
  With a single due timer the round starts a thread from a copy of a destroyed
  element.
\<close>

theorem tick_single_timer_dangles:
  assumes "timers tm = [t]" "\<not> tm_stop tm" "expiry_time t \<le> now"
  shows "tick_round now tm = Some (TickRun DanglingTimer, tm\<lparr>timers := []\<rparr>)"
proof -
  have "Erase [t] 0 = Some []"
    by (subst Erase_eq) (simp_all add: sift_down.simps [of "[]"] smallest_of_def)
  then show ?thesis using assms by (simp add: tick_round_def pop_def)
qed

theorem tick_single_timer_dangles_witness:
  "tick_round 7 (new_timer_manager\<lparr>timers := [\<lparr>expiry_time = 3, timer_id = 0, timer_task = ()\<rparr>]\<rparr>) =
    Some (TickRun DanglingTimer,
      new_timer_manager\<lparr>timers := [\<lparr>expiry_time = 3, timer_id = 0, timer_task = ()\<rparr>]\<rparr>\<lparr>timers := []\<rparr>)"
  by (rule tick_single_timer_dangles [where t = "\<lparr>expiry_time = 3, timer_id = 0, timer_task = ()\<rparr>"]) (simp_all add: new_timer_manager_def)

text \<open>
  Claim C23. \<open>RemoveTimer\<close> cancels exactly the timer with the given id and changes nothing
  else but the order of the vector; an unknown id changes nothing.
\<close>

theorem RemoveTimer_correct:
  assumes "tm_ids tm"
  shows "\<exists>ts'. RemoveTimer i tm = Some (tm\<lparr>timers := ts'\<rparr>) \<and>
    mset ts' = mset (filter (\<lambda>t. timer_id t \<noteq> i) (timers tm))"
  using RemoveTimer_mset [OF assms, of i] by metis

theorem RemoveTimer_correct_witness:
  "\<exists>ts'. RemoveTimer 0 two_timers = Some (two_timers\<lparr>timers := ts'\<rparr>) \<and>
    mset ts' = mset (filter (\<lambda>t. timer_id t \<noteq> 0) (timers two_timers))"
  by (rule RemoveTimer_correct) (rule two_timers_ok)

text \<open>
  Claim C24. In every state reachable from a new manager by adding (while there is room), removing,
  ticking and shutting down: the pending timers have distinct ids, all below the counter;
  \<open>RemoveTimer\<close> of any id returns, and afterwards this id is not pending and every other one is as
  before; and if there is room for one more timer, adding one gives an id that was not pending, and
  removing it again leaves the set of pending timers as it was.
\<close>

theorem reachable_ids_and_cancel:
  assumes "tm_step\<^sup>*\<^sup>* new_timer_manager tm"
  shows "distinct (map timer_id (timers tm)) \<and> (\<forall>t \<in> set (timers tm). timer_id t < next_timer_id tm) \<and>
    (\<forall>j. \<exists>tm''. RemoveTimer j tm = Some tm'' \<and> pending tm'' = pending tm - {j}) \<and>
    (\<forall>now ms cb i tm'. tm_room tm \<longrightarrow> AddTimer now ms cb tm = (i, tm') \<longrightarrow>
      i \<notin> pending tm \<and> (\<exists>tm''. RemoveTimer i tm' = Some tm'' \<and> pending tm'' = pending tm))"
proof -
  have ids: "tm_ids tm" using assms by (rule tm_sys.inv_reachable [OF refl])
  then have "\<exists>tm''. RemoveTimer j tm = Some tm'' \<and> pending tm'' = pending tm - {j}" for j
    using tm_service.remove_law by blast
  moreover have "i \<notin> pending tm \<and> (\<exists>tm''. RemoveTimer i tm' = Some tm'' \<and> pending tm'' = pending tm)"
    if "tm_room tm" "AddTimer now ms cb tm = (i, tm')" for now ms cb i tm'
    using tm_service.add_remove [OF ids that] tm_service.add_law [OF ids that] by blast
  ultimately show ?thesis using ids by (simp add: tm_ids_def)
qed

theorem reachable_ids_and_cancel_witness:
  "\<exists>tm''. RemoveTimer 0 (snd (AddTimer 0 1000 () new_timer_manager)) = Some tm'' \<and>
     pending tm'' = pending (snd (AddTimer 0 1000 () new_timer_manager)) - {0}"
proof -
  have "tm_step\<^sup>*\<^sup>* new_timer_manager (snd (AddTimer 0 1000 () new_timer_manager))"
    by (intro r_into_rtranclp tm_step.add [where now = 0 and ms = 1000 and cb = "()" and i = 0])
      (simp_all add: tm_room_def new_timer_manager_def AddTimer_def Let_def)
  then show ?thesis using reachable_ids_and_cancel by blast
qed

text \<open>
  Erasing keeps the heap order whenever the last element, which moves into the
  hole, expires no earlier than the parent of the hole; in particular at the root, so \<open>pop\<close>
  always leaves a heap.
\<close>

theorem Erase_keeps_heap:
  assumes "is_heap ts" "length ts < 2 ^ 31" "k < length ts"
    and "k = 0 \<or> expiry_time (ts ! ((k - 1) div 2)) \<le> expiry_time (ts ! (length ts - 1))"
  shows "\<exists>ts'. Erase ts k = Some ts' \<and> is_heap ts' \<and> mset ts' = mset ts - {#ts ! k#}"
proof -
  obtain ts' where e: "Erase ts k = Some ts'" using Erase_eq [OF assms(2,3)] by simp
  moreover have "is_heap ts'"
    using assms(4) by (intro Erase_heap [OF assms(1-3) _ e]) (auto simp: parent_def)
  ultimately show ?thesis using mset_Erase [OF assms(2,3) e] by blast
qed

definition removal_example :: "unit timer_manager" where
  "removal_example = \<lparr>timers = map (\<lambda>(e, i). \<lparr>expiry_time = e, timer_id = i, timer_task = ()\<rparr>)
     [(1, 0), (10, 1), (2, 2), (11, 3), (12, 4), (3, 5), (4, 6)], next_timer_id = 7, tm_stop = False\<rparr>"

lemma removal_example_heap: "is_heap (timers removal_example)"
  by (simp add: is_heap_code removal_example_def parent_def upt_rec)

theorem Erase_keeps_heap_witness:
  "\<exists>ts'. Erase (timers removal_example) 0 = Some ts' \<and> is_heap ts' \<and>
     mset ts' = mset (timers removal_example) - {#timers removal_example ! 0#}"
  by (rule Erase_keeps_heap [OF removal_example_heap]) (simp_all add: removal_example_def)

text \<open>
  \<open>RemoveTimer\<close> does not keep the heap order in general: it only sifts down. From
  the heap with expiry times 1, 10, 2, 11, 12, 3, 4, cancelling the timer that expires at 11
  moves the one that expires at 4 below the one that expires at 10.
\<close>

theorem RemoveTimer_breaks_heap:
  "is_heap (timers removal_example) \<and>
   (\<exists>tm'. RemoveTimer 3 removal_example = Some tm' \<and>
      map expiry_time (timers tm') = [1, 10, 2, 4, 12, 3] \<and> \<not> is_heap (timers tm'))"
proof -
  let ?ts = "map (\<lambda>(e, i). \<lparr>expiry_time = e, timer_id = i, timer_task = ()\<rparr>)
     [(1, 0), (10, 1), (2, 2), (4, 6), (12, 4), (3, 5)]"
  have "RemoveTimer 3 removal_example = Some (removal_example\<lparr>timers := ?ts\<rparr>)"
    by (simp add: RemoveTimer_def removal_example_def to_u32_def Erase_eq sift_down.simps smallest_of_def swap_at_def)
  moreover have "\<not> is_heap ?ts"
    unfolding is_heap_def by (auto simp: parent_def intro!: exI [of _ 3])
  ultimately show ?thesis using removal_example_heap by simp
qed

section \<open>Runs without cancelled timers\<close>

inductive tm_calm_step :: "'t timer_manager \<Rightarrow> 't timer_manager \<Rightarrow> bool" where
  calm_add: "tm_room tm \<Longrightarrow> AddTimer now ms cb tm = (i, tm') \<Longrightarrow> tm_calm_step tm tm'"
| calm_tick: "tick_round now tm = Some (a, tm') \<Longrightarrow> tm_calm_step tm tm'"
| calm_shutdown: "tm_calm_step tm (tm_shutdown tm)"

definition tm_ordered :: "'t timer_manager \<Rightarrow> bool" where
  "tm_ordered tm \<longleftrightarrow> tm_ids tm \<and> is_heap (timers tm)"

lemma tick_round_heap:
  assumes "tm_ordered tm" "tick_round now tm = Some (a, tm')"
  shows "is_heap (timers tm')"
proof (cases "tm_stop tm \<or> \<not> (timers tm \<noteq> [] \<and> expiry_time (timers tm ! 0) \<le> now)")
  case True
  then show ?thesis using assms by (auto simp: tick_round_def tm_ordered_def split: if_splits)
next
  case False
  then have ts: "is_heap (timers tm)" "timers tm \<noteq> []" "length (timers tm) < 2 ^ 31"
    using assms(1) by (auto simp: tm_ordered_def tm_ids_def)
  obtain ts' where "pop (timers tm) = Some (case ts' of [] \<Rightarrow> DanglingTimer | t # _ \<Rightarrow> FrontTimer t, ts')"
    "is_heap ts'" "mset ts' = mset (timers tm) - {#timers tm ! 0#}"
    by (rule pop_Cons [OF ts])
  then show ?thesis using assms(2) False by (auto simp: tick_round_def)
qed

lemma tm_calm_step_ordered: "tm_calm_step tm tm' \<Longrightarrow> tm_ordered tm \<Longrightarrow> tm_ordered tm'"
proof (induction rule: tm_calm_step.induct)
  case (calm_add tm now ms cb i tm')
  have "is_heap (timers tm')"
    using calm_add Push_heap [of "timers tm"] by (auto simp: AddTimer_def Let_def tm_ordered_def tm_ids_def)
  then show ?case using calm_add tm_step_ids [OF tm_step.add] by (auto simp: tm_ordered_def)
next
  case (calm_tick now tm a tm')
  then show ?case using tick_round_heap tick_round_ids by (auto simp: tm_ordered_def)
next
  case (calm_shutdown tm)
  then show ?case by (simp add: tm_shutdown_def tm_ordered_def tm_ids_def)
qed

interpretation tm_calm: step_system "\<lambda>tm. tm = new_timer_manager" tm_calm_step tm_ordered
proof
  show "tm_ordered tm" if "tm = new_timer_manager" for tm :: "'a timer_manager"
    using that by (simp add: tm_ordered_def tm_ids_def new_timer_manager_def is_heap_def)
qed (rule tm_calm_step_ordered)

text \<open>
  As long as no timer is cancelled the timers are kept in order: in every run of adding
  timers and rounds of \<open>Tick\<close> the array is a heap, the front timer expires first, and a
  round that finds nothing due at its front leaves no due timer behind.
\<close>

theorem calm_runs_keep_order:
  assumes "tm_calm_step\<^sup>*\<^sup>* new_timer_manager tm" "tick_round now tm = Some (TickSleep, tm')"
  shows "is_heap (timers tm) \<and> tm' = tm \<and> (\<forall>u \<in> set (timers tm). now < expiry_time u)"
proof -
  have "tm_ordered tm" by (rule tm_calm.inv_reachable [OF refl assms(1)])
  then have h: "is_heap (timers tm)" by (simp add: tm_ordered_def)
  have "tm' = tm" "timers tm = [] \<or> now < expiry_time (timers tm ! 0)"
    using assms(2) by (auto simp: tick_round_def split: if_splits option.splits)
  then show ?thesis using h is_heap_root_set [OF h] by fastforce
qed

theorem calm_runs_keep_order_witness:
  "\<forall>u \<in> set (timers (snd (AddTimer 5 2 () (new_timer_manager :: unit timer_manager)))). 6 < expiry_time u"
proof -
  let ?tm = "snd (AddTimer 5 2 () (new_timer_manager :: unit timer_manager))"
  have "tm_calm_step new_timer_manager ?tm"
    by (rule tm_calm_step.calm_add [OF _ prod.collapse [symmetric]]) (simp add: tm_room_def new_timer_manager_def)
  then have "tm_calm_step\<^sup>*\<^sup>* new_timer_manager ?tm" by blast
  moreover have "tick_round 6 ?tm = Some (TickSleep, ?tm)"
    by (simp add: tick_round_def AddTimer_def Let_def new_timer_manager_def Push_def to_u32_def HeapifyUp.simps [of _ 0])
  ultimately show ?thesis using calm_runs_keep_order by blast
qed

end
