(* ===== verification/Http_Server.thy ===== *)
theory Http_Server
  imports Http_Router Io_Awaiter Timer_Manager
begin

text \<open>
  The HTTP server: \<open>luce/net/http/http_server.{h,cpp}\<close> and \<open>luce/common/file_util.h\<close>.

  One connection is served by \<open>OnRequest\<close>: each round arms a timer, reads, parses, reads the
  rest of the body, disarms the timer, routes the request and sends the response. The
  state of a connection is the traces of its \<open>read\<close> and \<open>write\<close> calls, the bytes on the wire,
  the connection object and the timer manager; a timer task (which closes the connection)
  is \<open>()\<close>. \<open>OnRequest\<close> runs over the list of clock values its rounds see. The size of a
  file and the results of reading it come from the operating system and are parameters.
\<close>

datatype http_stop = Net net_stop | Bad http_error | InvalidArgument | BufferOverrun | Loops

record ('h, 'k) http_conn =
  h_reads :: "bytes sys list"
  h_writes :: "nat sys list"
  h_wire :: bytes
  h_conn :: "('h, 'k) tcp_connection"
  h_timers :: "unit timer_manager"

definition lift_error :: "('e \<Rightarrow> http_stop) \<Rightarrow> 'e + 'a \<Rightarrow> http_stop + 'a" where
  "lift_error f r = (case r of Inl e \<Rightarrow> Inl (f e) | Inr x \<Rightarrow> Inr x)"

text \<open>\<open>std::stoi\<close>: white space, a sign and digits; \<open>None\<close> when it throws.\<close>

definition stoi :: "string \<Rightarrow> int option" where
  "stoi s =
     (let s1 = dropWhile is_space s;
          neg = (s1 \<noteq> [] \<and> hd s1 = CHR ''-'');
          s2 = (if s1 \<noteq> [] \<and> (hd s1 = CHR ''-'' \<or> hd s1 = CHR ''+'') then tl s1 else s1);
          ds = takeWhile is_digit s2;
          v = (if neg then - digits_value ds else digits_value ds)
      in if ds = [] \<or> v < - (2 ^ 31) \<or> 2 ^ 31 \<le> v then None else Some v)"

section \<open>Reading a request\<close>

definition http_read :: "'k ctl \<Rightarrow> 'h \<Rightarrow> ('h, 'k) http_conn \<Rightarrow> http_stop + (bytes \<times> nat) \<times> ('h, 'k) http_conn" where
  "http_read ctl h st = lift_error Net
     (try_bind (AsyncRead ctl h (replicate MAX_REQUEST_SIZE 0) (h_reads st, h_conn st)) (\<lambda>(r, tr, c).
        Inr (r, st\<lparr>h_reads := tr, h_conn := c\<rparr>)))"

text \<open>\<open>buffer[recv_len] = '\0'\<close> and the C string \<open>buffer.data()\<close>. The buffer was resized to
  \<open>recv_len\<close>, so the store is past its end, which C++ leaves undefined; the model takes it to
  write the byte as long as it stays in the allocation, and to be an error when the read filled
  the buffer.\<close>

definition c_text :: "bytes \<times> nat \<Rightarrow> http_stop + string" where
  "c_text = (\<lambda>(buffer, recv_len).
     if recv_len < MAX_REQUEST_SIZE then Inr (string_of_bytes (takeWhile (\<lambda>b. b \<noteq> 0) buffer)) else Inl BufferOverrun)"

partial_function (option) read_body ::
  "'k ctl \<Rightarrow> 'h \<Rightarrow> int \<Rightarrow> http_request \<Rightarrow> ('h, 'k) http_conn \<Rightarrow> (http_stop + http_request \<times> ('h, 'k) http_conn) option" where
  "read_body ctl h content_len req st =
     (if int (length (body req)) = content_len then Some (Inr (req, st))
      else case http_read ctl h st of
        Inl e \<Rightarrow> Some (Inl e)
      | Inr (r, st') \<Rightarrow> (case c_text r of
          Inl e \<Rightarrow> Some (Inl e)
        | Inr s \<Rightarrow> read_body ctl h content_len (req\<lparr>body := body req @ s\<rparr>) st'))"

text \<open>The comparison with \<open>size_t\<close> turns a negative length into a huge one.\<close>

definition finish_body :: "'k ctl \<Rightarrow> 'h \<Rightarrow> http_request \<Rightarrow> ('h, 'k) http_conn \<Rightarrow> http_stop + http_request \<times> ('h, 'k) http_conn" where
  "finish_body ctl h req st = (case headers req ''Content-Length'' of
     None \<Rightarrow> Inr (req, st)
   | Some v \<Rightarrow> (case stoi v of
       None \<Rightarrow> Inl InvalidArgument
     | Some content_len \<Rightarrow> (case read_body ctl h (content_len mod 2 ^ 64) req st of
         None \<Rightarrow> Inl Loops | Some r \<Rightarrow> r)))"

section \<open>Answering\<close>

text \<open>\<open>std::make_shared\<close> value-initialises the response, so its status code is 0 until it is set.\<close>

definition new_response :: http_response where
  "new_response = \<lparr>resp_buffer = [], status_code = 0, resp_version = [], resp_headers = []\<rparr>"

definition send_bytes :: "'k ctl \<Rightarrow> 'h \<Rightarrow> bytes \<Rightarrow> ('h, 'k) http_conn \<Rightarrow> http_stop + nat \<times> ('h, 'k) http_conn" where
  "send_bytes ctl h buf st = lift_error Net
     (try_bind (AsyncWrite ctl h buf (h_writes st, h_wire st, h_conn st)) (\<lambda>(n, tr, wire, c).
        Inr (n, st\<lparr>h_writes := tr, h_wire := wire, h_conn := c\<rparr>)))"

definition SendResponse :: "'k ctl \<Rightarrow> 'h \<Rightarrow> http_response \<Rightarrow> ('h, 'k) http_conn \<Rightarrow> http_stop + http_response \<times> ('h, 'k) http_conn" where
  "SendResponse ctl h response st =
     try_bind (send_bytes ctl h (bytes_of_string (GetData response)) st) (\<lambda>(_, st').
       Inr (resp_clear response, st'))"

definition ServerHTTP :: "'k ctl \<Rightarrow> 'h \<Rightarrow> formatter \<Rightarrow> router \<Rightarrow> http_request \<Rightarrow> http_response \<Rightarrow>
    ('h, 'k) http_conn \<Rightarrow> http_stop + http_response \<times> ('h, 'k) http_conn" where
  "ServerHTTP ctl h fmt r req resp st = SendResponse ctl h (ctx_res (Handle fmt (new_context req resp) r)) st"

definition serve_once :: "'k ctl \<Rightarrow> 'h \<Rightarrow> formatter \<Rightarrow> router \<Rightarrow> int \<Rightarrow> ('h, 'k) http_conn \<Rightarrow>
    http_stop + bool \<times> ('h, 'k) http_conn" where
  "serve_once ctl h fmt r now st =
     (let (tid, tm) = AddTimer now 1000 () (h_timers st) in
      try_bind (http_read ctl h (st\<lparr>h_timers := tm\<rparr>)) (\<lambda>(rd, st1).
      if snd rd = 0 then Inr (True, st1)
      else try_bind (c_text rd) (\<lambda>s.
        try_bind (lift_error Bad (Parse s new_request)) (\<lambda>req0.
        try_bind (finish_body ctl h req0 st1) (\<lambda>(req, st2).
        case RemoveTimer tid (h_timers st2) of
          None \<Rightarrow> Inl Loops
        | Some tm' \<Rightarrow>
            try_bind (ServerHTTP ctl h fmt r req (SetHTTPVersion (http_version req) new_response) (st2\<lparr>h_timers := tm'\<rparr>)) (\<lambda>(_, st3).
              Inr (headers req ''Connection'' \<noteq> Some ''close'', st3)))))))"

fun OnRequest :: "'k ctl \<Rightarrow> 'h \<Rightarrow> formatter \<Rightarrow> router \<Rightarrow> int list \<Rightarrow> ('h, 'k) http_conn \<Rightarrow>
    http_stop + bool \<times> ('h, 'k) http_conn" where
  "OnRequest ctl h fmt r [] st = Inr (True, st)"
| "OnRequest ctl h fmt r (now # clock) st =
     try_bind (serve_once ctl h fmt r now st) (\<lambda>(go_on, st').
       if go_on then OnRequest ctl h fmt r clock st' else Inr (False, st'))"

text \<open>\<open>FileSize\<close> does not look at the result of \<open>stat\<close>; the structure it fills was zeroed.\<close>

definition FileSize :: "nat option \<Rightarrow> nat" where
  "FileSize stat = (case stat of None \<Rightarrow> 0 | Some st_size \<Rightarrow> st_size)"

text \<open>
  \<open>SendFile\<close>: the header, then the file in pieces, each piece written as the whole buffer
  of \<open>file_size\<close> bytes. \<open>stat\<close>, \<open>opened\<close> and \<open>file_reads\<close> are the results of the system calls
  on the file. The result tells whether the file's descriptor is still open; the first
  element of an empty buffer is undefined.
\<close>

fun send_pieces :: "'k ctl \<Rightarrow> 'h \<Rightarrow> bytes sys list \<Rightarrow> bytes \<Rightarrow> ('h, 'k) http_conn \<Rightarrow> http_stop + bool \<times> ('h, 'k) http_conn" where
  "send_pieces ctl h [] buffer st = Inl (Net Suspended)"
| "send_pieces ctl h (Err e # reads) buffer st = Inr (True, st)"
| "send_pieces ctl h (Ret bs # reads) buffer st =
     (if bs = [] then Inr (False, st)
      else let buffer' = overwrite buffer 0 bs in
        try_bind (send_bytes ctl h buffer' st) (\<lambda>(_, st'). send_pieces ctl h reads buffer' st'))"

definition file_head :: "string \<Rightarrow> nat \<Rightarrow> http_response \<Rightarrow> http_response" where
  "file_head file_type file_size response = SetBody crlf
     (SetHeader ''Content-Length:'' (to_string (int file_size)) (SetHeader ''Content-Type:'' file_type response))"

definition SendFile :: "'k ctl \<Rightarrow> 'h \<Rightarrow> string \<Rightarrow> nat option \<Rightarrow> bool \<Rightarrow> bytes sys list \<Rightarrow> http_response \<Rightarrow>
    ('h, 'k) http_conn \<Rightarrow> http_stop + bool \<times> ('h, 'k) http_conn" where
  "SendFile ctl h path stat opened file_reads response st =
     try_bind (lift_error Bad (GetFileType path)) (\<lambda>file_type.
     let file_size = FileSize stat in
     try_bind (SendResponse ctl h (file_head file_type file_size response) st) (\<lambda>(_, st1).
     if \<not> opened then Inr (False, st1)
     else if file_size = 0 then Inl (Bad OutOfRange)
     else send_pieces ctl h file_reads (replicate file_size 0) st1))"

text \<open>\<open>SetStaticPath\<close> ends the process unless the path starts with a slash; the front of
  an empty view is undefined.\<close>

definition SetStaticPath :: "string \<Rightarrow> http_stop + string" where
  "SetStaticPath path = (case path of [] \<Rightarrow> Inl (Bad OutOfRange)
     | c # _ \<Rightarrow> if c \<noteq> CHR ''/'' then Inl (Net Fatal) else Inr path)"

section \<open>Lemmas\<close>

lemma lift_error_simps [simp]: "lift_error f (Inr x) = Inr x" "lift_error f (Inl e) = Inl (f e)"
  by (simp_all add: lift_error_def)

definition st_inv :: "'k ctl \<Rightarrow> (int \<Rightarrow> 'k \<Rightarrow> 'k) \<Rightarrow> ('k \<Rightarrow> int \<rightharpoonup> u32) \<Rightarrow> ('h, 'k) http_conn \<Rightarrow> bool" where
  "st_inv ctl kclose interest st \<longleftrightarrow> conn_inv ctl kclose interest (h_conn st) \<and> tm_ids (h_timers st)"

lemma http_read_fair:
  assumes "conn_inv ctl kclose interest (h_conn st)" "h_reads st = tr @ rest" "fair tr" "oks tr = [bs]"
  obtains c where "http_read ctl h st = Inr ((bs, length bs), st\<lparr>h_reads := rest, h_conn := c\<rparr>)"
    "conn_inv ctl kclose interest c"
proof -
  obtain c where c: "AsyncRead ctl h (replicate MAX_REQUEST_SIZE 0) (tr @ rest, h_conn st) = Inr ((bs, length bs), rest, c)"
    "conn_inv ctl kclose interest c"
    using AsyncRead_fair [OF assms(1,3,4), of h "replicate MAX_REQUEST_SIZE 0" rest] by auto
  show ?thesis by (rule that [OF _ c(2)]) (simp add: http_read_def assms(2) c(1))
qed

lemma send_bytes_fair:
  assumes "conn_inv ctl kclose interest (h_conn st)" "h_writes st = tr @ rest" "fair tr" "0 \<notin> set (oks tr)"
    "sum_list (oks tr) = length buf"
  obtains c where "send_bytes ctl h buf st = Inr (length buf, st\<lparr>h_writes := rest, h_wire := h_wire st @ buf, h_conn := c\<rparr>)"
    "conn_inv ctl kclose interest c"
proof -
  have "\<exists>c. AsyncWrite_loop ctl h buf (length buf) 0 (tr @ rest, h_wire st, h_conn st) =
      Inr (length buf, rest, h_wire st @ drop 0 buf, c) \<and> conn_inv ctl kclose interest c"
    by (rule AsyncWrite_loop_fair [OF assms(1,3-5)]) simp
  then obtain c where c: "AsyncWrite_loop ctl h buf (length buf) 0 (tr @ rest, h_wire st, h_conn st) =
      Inr (length buf, rest, h_wire st @ buf, c)" "conn_inv ctl kclose interest c" by (simp only: drop_0) blast
  show ?thesis by (rule that [OF _ c(2)]) (simp add: send_bytes_def AsyncWrite_def assms(2) c(1))
qed

lemma c_text_plain:
  assumes "CHR 0x00 \<notin> set s" "length s < MAX_REQUEST_SIZE"
  shows "c_text (bytes_of_string s, length s) = Inr s"
proof -
  have nz: "of_char c \<noteq> (0 :: byte)" if "c \<noteq> CHR 0x00" for c
  proof
    assume "of_char c = (0 :: byte)"
    moreover have "(of_char (CHR 0x00) :: byte) = 0" by simp
    ultimately have "bytes_of_string [c] = bytes_of_string [CHR 0x00]"
      by (simp only: bytes_of_string_def list.map)
    then have "[c] = [CHR 0x00]" by (metis string_of_bytes_of_string)
    with that show False by simp
  qed
  have "b \<noteq> 0" if "b \<in> set (bytes_of_string s)" for b
  proof -
    obtain c where "c \<in> set s" "b = of_char c"
      using \<open>b \<in> set (bytes_of_string s)\<close> by (simp only: bytes_of_string_def set_map image_iff) blast
    then show ?thesis using nz [of c] assms(1) by metis
  qed
  then have "takeWhile (\<lambda>b. b \<noteq> 0) (bytes_of_string s) = bytes_of_string s"
    by (simp only: takeWhile_eq_all_conv) blast
  then show ?thesis using assms(2) by (simp only: c_text_def prod.case if_True string_of_bytes_of_string)
qed

text \<open>A body loop that returns a request was never past the length.\<close>

lemma read_body_returns:
  assumes "read_body ctl h content_len req st = Some r"
  shows "isl r \<or> int (length (body req)) \<le> content_len"
proof (rule read_body.raw_induct [OF _ assms, where P = "\<lambda>ctl h n req st r. isl r \<or> int (length (body req)) \<le> n"])
  fix rb ctl' h' n req' st' r'
  assume IH: "\<And>a b c d e y. rb a b c d e = Some y \<Longrightarrow> isl y \<or> int (length (body d)) \<le> c"
    and eq: "(if int (length (body req')) = n then Some (Inr (req', st'))
      else case http_read ctl' h' st' of Inl e \<Rightarrow> Some (Inl e)
        | Inr (x, st'') \<Rightarrow> (case c_text x of Inl e \<Rightarrow> Some (Inl e)
            | Inr s \<Rightarrow> rb ctl' h' n (req'\<lparr>body := body req' @ s\<rparr>) st'')) = Some r'"
  then show "isl r' \<or> int (length (body req')) \<le> n"
    by (fastforce split: if_splits sum.splits dest!: IH)
qed

section \<open>Whole exchanges\<close>

text \<open>Reads that bring the given pieces of text, each in one read after any number of waits.\<close>

fun brings_pieces :: "string list \<Rightarrow> bytes sys list \<Rightarrow> bytes sys list \<Rightarrow> bool" where
  "brings_pieces [] tr rest \<longleftrightarrow> tr = rest"
| "brings_pieces (s # ss) tr rest \<longleftrightarrow> (\<exists>t tr'. tr = t @ tr' \<and> fair t \<and> oks t = [bytes_of_string s] \<and>
     CHR 0x00 \<notin> set s \<and> s \<noteq> [] \<and> length s < MAX_REQUEST_SIZE \<and> brings_pieces ss tr' rest)"

lemma length_bytes_of_string [simp]: "length (bytes_of_string s) = length s"
  by (simp add: bytes_of_string_def)

lemma http_read_piece:
  assumes "conn_inv ctl kclose interest (h_conn st)" "brings_pieces (s # ss) (h_reads st) rest"
  obtains c tr where "http_read ctl h st = Inr ((bytes_of_string s, length s), st\<lparr>h_reads := tr, h_conn := c\<rparr>)"
    "conn_inv ctl kclose interest c" "brings_pieces ss tr rest" "c_text (bytes_of_string s, length s) = Inr s" "s \<noteq> []"
proof -
  obtain t tr where t: "h_reads st = t @ tr" "fair t" "oks t = [bytes_of_string s]" "CHR 0x00 \<notin> set s" "s \<noteq> []"
    "length s < MAX_REQUEST_SIZE" "brings_pieces ss tr rest" using assms(2) by auto
  obtain c where "http_read ctl h st = Inr ((bytes_of_string s, length (bytes_of_string s)), st\<lparr>h_reads := tr, h_conn := c\<rparr>)"
    "conn_inv ctl kclose interest c" by (rule http_read_fair [OF assms(1) t(1-3)])
  then show ?thesis using that t(5,7) c_text_plain [OF t(4,6)] by simp
qed

lemma read_body_pieces:
  assumes "conn_inv ctl kclose interest (h_conn st)" "brings_pieces ss (h_reads st) rest"
  shows "\<exists>c. read_body ctl h (int (length (body req @ concat ss))) req st =
      Some (Inr (req\<lparr>body := body req @ concat ss\<rparr>, st\<lparr>h_reads := rest, h_conn := c\<rparr>)) \<and> conn_inv ctl kclose interest c"
  using assms
proof (induction ss arbitrary: req st)
  case Nil
  then show ?case by (intro exI [of _ "h_conn st"]) (simp add: read_body.simps)
next
  case (Cons s ss)
  obtain c tr where r: "http_read ctl h st = Inr ((bytes_of_string s, length s), st\<lparr>h_reads := tr, h_conn := c\<rparr>)"
    "conn_inv ctl kclose interest c" "brings_pieces ss tr rest" "c_text (bytes_of_string s, length s) = Inr s" "s \<noteq> []"
    by (rule http_read_piece [OF Cons.prems])
  have "int (length s) + int (length (concat ss)) \<noteq> 0" using r(5) by (simp flip: of_nat_add)
  then show ?case
    using Cons.IH [of "st\<lparr>h_reads := tr, h_conn := c\<rparr>" "req\<lparr>body := body req @ s\<rparr>"] r
    by (simp add: read_body.simps [of ctl h _ req st])
qed

text \<open>The pieces that follow the header complete the body the request announces.\<close>

definition announced :: "http_request \<Rightarrow> string list \<Rightarrow> bool" where
  "announced req ss \<longleftrightarrow> (case headers req ''Content-Length'' of
     None \<Rightarrow> ss = []
   | Some v \<Rightarrow> stoi v = Some (int (length (body req @ concat ss))))"

lemma stoi_bound: "stoi v = Some n \<Longrightarrow> n < 2 ^ 31"
  by (auto simp: stoi_def Let_def split: if_splits)

lemma finish_body_pieces:
  assumes "conn_inv ctl kclose interest (h_conn st)" "brings_pieces ss (h_reads st) rest" "announced req ss"
  shows "\<exists>c. finish_body ctl h req st = Inr (req\<lparr>body := body req @ concat ss\<rparr>, st\<lparr>h_reads := rest, h_conn := c\<rparr>) \<and>
    conn_inv ctl kclose interest c"
proof (cases "headers req ''Content-Length''")
  case None
  then show ?thesis using assms by (intro exI [of _ "h_conn st"]) (simp add: finish_body_def announced_def)
next
  case (Some v)
  let ?n = "int (length (body req @ concat ss))"
  have v: "stoi v = Some ?n" using assms(3) Some by (simp add: announced_def)
  have "?n mod 2 ^ 64 = ?n" using stoi_bound [OF v] by (intro mod_pos_pos_trivial) simp_all
  then show ?thesis
    using read_body_pieces [OF assms(1,2), of h req] Some v by (auto simp: finish_body_def)
qed

text \<open>One exchange: what arrives, what is answered, and whether the connection stays open.\<close>

definition exchange :: "formatter \<Rightarrow> router \<Rightarrow> bytes sys list \<Rightarrow> bytes sys list \<Rightarrow> string \<Rightarrow> bool \<Rightarrow> bool" where
  "exchange fmt r tr rest reply keep \<longleftrightarrow> (\<exists>s ss req req'.
     brings_pieces (s # ss) tr rest \<and> Parse s new_request = Inr req \<and> announced req ss \<and>
     req' = req\<lparr>body := body req @ concat ss\<rparr> \<and>
     reply = GetData (ctx_res (Handle fmt (new_context req' (SetHTTPVersion (http_version req') new_response)) r)) \<and>
     keep = (headers req' ''Connection'' \<noteq> Some ''close''))"

definition sends :: "string \<Rightarrow> nat sys list \<Rightarrow> bool" where
  "sends reply tr \<longleftrightarrow> fair tr \<and> 0 \<notin> set (oks tr) \<and> sum_list (oks tr) = length reply"

lemma serve_once_exchange:
  assumes "conn_inv ctl kclose interest (h_conn st)" "tm_ids (h_timers st)" "tm_room (h_timers st)"
    and "exchange fmt r (h_reads st) rest reply keep" "h_writes st = wtr @ wrest" "sends reply wtr"
  shows "\<exists>c tm. serve_once ctl h fmt r now st = Inr (keep,
      st\<lparr>h_reads := rest, h_writes := wrest, h_wire := h_wire st @ bytes_of_string reply, h_conn := c, h_timers := tm\<rparr>) \<and>
    conn_inv ctl kclose interest c \<and> tm_ids tm \<and> pending tm = pending (h_timers st) \<and>
    next_timer_id tm = next_timer_id (h_timers st) + 1"
proof -
  obtain s ss req req' where x: "brings_pieces (s # ss) (h_reads st) rest" "Parse s new_request = Inr req" "announced req ss"
    "req' = req\<lparr>body := body req @ concat ss\<rparr>" "keep = (headers req' ''Connection'' \<noteq> Some ''close'')"
    "reply = GetData (ctx_res (Handle fmt (new_context req' (SetHTTPVersion (http_version req') new_response)) r))"
    using assms(4) unfolding exchange_def by blast
  obtain tid tm where t: "AddTimer now 1000 () (h_timers st) = (tid, tm)" by fastforce
  obtain tm' where tm': "RemoveTimer tid tm = Some tm'" "tm_ids tm'" "pending tm' = pending (h_timers st)"
    using tm_service.add_remove [OF assms(2,3) t] by auto
  have next_id: "next_timer_id tm' = next_timer_id (h_timers st) + 1"
    using t tm'(1) by (auto simp: AddTimer_def RemoveTimer_def Let_def split: option.splits)
  let ?st0 = "st\<lparr>h_timers := tm\<rparr>"
  obtain c1 tr where 1: "http_read ctl h ?st0 = Inr ((bytes_of_string s, length s), ?st0\<lparr>h_reads := tr, h_conn := c1\<rparr>)"
    "conn_inv ctl kclose interest c1" "brings_pieces ss tr rest" "c_text (bytes_of_string s, length s) = Inr s" "s \<noteq> []"
    using http_read_piece [of ctl kclose interest ?st0 s ss rest h] assms(1) x(1) by auto
  let ?st1 = "?st0\<lparr>h_reads := tr, h_conn := c1\<rparr>"
  obtain c2 where 2: "finish_body ctl h req ?st1 = Inr (req', ?st1\<lparr>h_reads := rest, h_conn := c2\<rparr>)" "conn_inv ctl kclose interest c2"
    using finish_body_pieces [of ctl kclose interest ?st1 ss rest req h] 1(2,3) x(3,4) by auto
  let ?st2 = "?st1\<lparr>h_reads := rest, h_conn := c2, h_timers := tm'\<rparr>"
  obtain c3 where 3: "send_bytes ctl h (bytes_of_string reply) ?st2 =
      Inr (length reply, ?st2\<lparr>h_writes := wrest, h_wire := h_wire st @ bytes_of_string reply, h_conn := c3\<rparr>)"
    "conn_inv ctl kclose interest c3"
    using send_bytes_fair [of ctl kclose interest ?st2 wtr wrest "bytes_of_string reply" h] assms(5,6) 2(2)
    by (auto simp: sends_def)
  have "serve_once ctl h fmt r now st =
      Inr (keep, ?st2\<lparr>h_writes := wrest, h_wire := h_wire st @ bytes_of_string reply, h_conn := c3\<rparr>)"
    using t tm'(1) 1(1,4,5) 2(1) 3(1) x(2,5,6) by (simp add: serve_once_def ServerHTTP_def SendResponse_def)
  then show ?thesis using tm'(2,3) next_id 3(2) by (intro exI [of _ c3] exI [of _ tm']) simp
qed

section \<open>Properties\<close>

definition hello_router :: router where
  "hello_router = GET ''/a/'' (ctx_SetBody ''hi'') new_router"

definition hello_request :: string where
  "hello_request = render_request ''GET'' ''/a/'' ''HTTP/1.1'' [(''Connection'', ''close'')] []"

definition hello_parsed :: http_request where
  "hello_parsed = \<lparr>req_method = ''GET'', url = ''/a/'', uri = ''/a/'', http_version = ''HTTP/1.1'', body = [],
     headers = [''Connection'' \<mapsto> ''close''], url_params = Map.empty, body_params = Map.empty\<rparr>"

definition hello_response :: http_response where
  "hello_response = SetBody ''hi'' \<lparr>resp_buffer = [], status_code = 0, resp_version = ''HTTP/1.1'', resp_headers = []\<rparr>"

definition hello_conn :: "(unit, int \<rightharpoonup> u32) http_conn" where
  "hello_conn = \<lparr>h_reads = [Err EAGAIN, Ret (bytes_of_string hello_request)], h_writes = [Ret (length (GetData hello_response))],
     h_wire = [], h_conn = example_conn, h_timers = new_timer_manager\<rparr>"

text \<open>A sequence of exchanges on one connection; only the last one may close it.\<close>

fun exchanges :: "formatter \<Rightarrow> router \<Rightarrow> string list \<Rightarrow> bytes sys list \<Rightarrow> bytes sys list \<Rightarrow> bool \<Rightarrow> bool" where
  "exchanges fmt r [] tr rest keep \<longleftrightarrow> tr = rest \<and> keep"
| "exchanges fmt r (reply # replies) tr rest keep \<longleftrightarrow> (\<exists>mid k. exchange fmt r tr mid reply k \<and>
     (if k then exchanges fmt r replies mid rest keep else replies = [] \<and> mid = rest \<and> \<not> keep))"

fun sends_all :: "string list \<Rightarrow> nat sys list \<Rightarrow> nat sys list \<Rightarrow> bool" where
  "sends_all [] tr rest \<longleftrightarrow> tr = rest"
| "sends_all (reply # replies) tr rest \<longleftrightarrow> (\<exists>t tr'. tr = t @ tr' \<and> sends reply t \<and> sends_all replies tr' rest)"

lemma pending_card: "tm_ids tm \<Longrightarrow> card (pending tm) = length (timers tm)"
  using distinct_card [of "map timer_id (timers tm)"] by (simp add: tm_ids_def pending_def)



text \<open>
  The end of the stream does not end the coroutine: every empty read starts the
  next round, and each round leaves one more armed timer behind. After \<open>n\<close> empty reads the
  loop is still running, nothing was sent and \<open>n\<close> timers are pending on top.
\<close>

theorem eof_spins_and_arms_timers:
  assumes "\<not> conn_closed (h_conn st)" "h_reads st = replicate (length clock) (Ret []) @ rest"
    "length (timers (h_timers st)) + length clock < 2 ^ 32"
  shows "\<exists>tm. OnRequest ctl h fmt r clock st = Inr (True, st\<lparr>h_reads := rest, h_timers := tm\<rparr>) \<and>
    length (timers tm) = length (timers (h_timers st)) + length clock"
  using assms
proof (induction clock arbitrary: st)
  case (Cons now clock)
  define tm where "tm = snd (AddTimer now 1000 () (h_timers st))"
  have len: "length (timers tm) = length (timers (h_timers st)) + 1"
    using mset_Push [of "timers (h_timers st)"] Cons.prems(3)
    by (simp add: tm_def AddTimer_def Let_def flip: size_mset)
  obtain tid where "AddTimer now 1000 () (h_timers st) = (tid, tm)" by (metis tm_def prod.collapse)
  then have "serve_once ctl h fmt r now st =
      Inr (True, st\<lparr>h_timers := tm, h_reads := replicate (length clock) (Ret []) @ rest\<rparr>)"
    using Cons.prems
    by (simp add: serve_once_def http_read_def AsyncRead.simps ReadInnerAwaiter_def Let_def split_beta)
  then show ?case
    using Cons.IH [of "st\<lparr>h_timers := tm, h_reads := replicate (length clock) (Ret []) @ rest\<rparr>"] Cons.prems len
    by auto
next
  case Nil
  then show ?case by (intro exI [of _ "h_timers st"]) simp
qed

theorem eof_spins_and_arms_timers_witness:
  "\<exists>tm. OnRequest map_ctl () (\<lambda>f args. f) new_router [10, 20, 30] (hello_conn\<lparr>h_reads := replicate (length [10, 20, 30 :: int]) (Ret []) @ []\<rparr>) =
     Inr (True, hello_conn\<lparr>h_reads := replicate (length [10, 20, 30 :: int]) (Ret []) @ [], h_reads := [], h_timers := tm\<rparr>) \<and> length (timers tm) = 3"
proof -
  have "\<not> conn_closed (h_conn hello_conn)" "length (timers (h_timers hello_conn)) = 0"
    by (simp_all add: hello_conn_def example_conn_def new_connection_def new_timer_manager_def)
  then show ?thesis
    using eof_spins_and_arms_timers [of "hello_conn\<lparr>h_reads := replicate (length [10, 20, 30 :: int]) (Ret []) @ []\<rparr>" "[10, 20, 30]" "[]"
        map_ctl "()" "\<lambda>f args. f" new_router] by auto
qed

text \<open>
  A body longer than its \<open>Content-Length\<close> is never served: the loop that waits for
  the missing bytes compares the sizes for equality, and from a size beyond the length no
  sequence of reads makes it return the request.
\<close>

theorem overlong_body_never_served:
  assumes "content_len < int (length (body req))"
  shows "read_body ctl h content_len req st \<noteq> Some (Inr result)"
  using read_body_returns assms by fastforce

theorem overlong_body_never_served_witness:
  "read_body map_ctl () 2 (new_request\<lparr>body := ''abc''\<rparr>) hello_conn \<noteq> Some (Inr (new_request, hello_conn))"
  by (rule overlong_body_never_served) simp

section \<open>Requests the server does not survive\<close>

lemma serve_once_first_piece:
  assumes "conn_inv ctl kclose interest (h_conn st)" "brings_pieces (s # ss) (h_reads st) rest"
  obtains st1 tid where "serve_once ctl h fmt r now st =
    try_bind (lift_error Bad (Parse s new_request)) (\<lambda>req0. try_bind (finish_body ctl h req0 st1) (\<lambda>(req, st2).
      case RemoveTimer tid (h_timers st2) of
        None \<Rightarrow> Inl Loops
      | Some tm' \<Rightarrow> try_bind (ServerHTTP ctl h fmt r req (SetHTTPVersion (http_version req) new_response) (st2\<lparr>h_timers := tm'\<rparr>))
          (\<lambda>(_, st3). Inr (headers req ''Connection'' \<noteq> Some ''close'', st3))))"
proof -
  obtain tid tm where t: "AddTimer now 1000 () (h_timers st) = (tid, tm)" by fastforce
  let ?st0 = "st\<lparr>h_timers := tm\<rparr>"
  obtain c1 tr where 1: "http_read ctl h ?st0 = Inr ((bytes_of_string s, length s), ?st0\<lparr>h_reads := tr, h_conn := c1\<rparr>)"
    "c_text (bytes_of_string s, length s) = Inr s" "s \<noteq> []"
    by (rule http_read_piece [of ctl kclose interest ?st0 s ss rest h]) (use assms in simp_all)
  show ?thesis by (rule that) (use t 1 in \<open>simp add: serve_once_def\<close>)
qed

text \<open>
  Claim C39. Two kinds of input end the coroutine abnormally before anything is sent. When
  the first read does not bring a text with a blank line and three words in its first line
  (in particular when the head of a good request arrives in two pieces, cut anywhere up to
  the end of its blank line), the parser indexes past the end of its parts; when the value
  of \<open>Content-Length\<close> is not a number of type \<open>int\<close>, \<open>std::stoi\<close> throws.
\<close>

theorem bad_requests_end_the_coroutine:
  assumes "conn_inv ctl kclose interest (h_conn st)" "brings_pieces (s # ss) (h_reads st) rest"
  shows "(\<not> parsable s \<longrightarrow> OnRequest ctl h fmt r (now # clock) st = Inl (Bad OutOfRange)) \<and>
    (find_sub (crlf @ crlf) data = Some i \<and> k < i + 4 \<and> s = take k data \<longrightarrow> \<not> parsable s) \<and>
    (Parse s new_request = Inr req \<and> headers req ''Content-Length'' = Some v \<and> stoi v = None \<longrightarrow>
      OnRequest ctl h fmt r (now # clock) st = Inl InvalidArgument)"
proof (intro conjI impI)
  obtain st1 tid where s: "serve_once ctl h fmt r now st =
    try_bind (lift_error Bad (Parse s new_request)) (\<lambda>req0. try_bind (finish_body ctl h req0 st1) (\<lambda>(req, st2).
      case RemoveTimer tid (h_timers st2) of
        None \<Rightarrow> Inl Loops
      | Some tm' \<Rightarrow> try_bind (ServerHTTP ctl h fmt r req (SetHTTPVersion (http_version req) new_response) (st2\<lparr>h_timers := tm'\<rparr>))
          (\<lambda>(_, st3). Inr (headers req ''Connection'' \<noteq> Some ''close'', st3))))"
    by (rule serve_once_first_piece [OF assms])
  show "OnRequest ctl h fmt r (now # clock) st = Inl (Bad OutOfRange)" if "\<not> parsable s"
    using Parse_outcome [of s new_request] that s by simp
  show "OnRequest ctl h fmt r (now # clock) st = Inl InvalidArgument"
    if "Parse s new_request = Inr req \<and> headers req ''Content-Length'' = Some v \<and> stoi v = None"
    using that s by (simp add: finish_body_def)
  show "\<not> parsable s" if "find_sub (crlf @ crlf) data = Some i \<and> k < i + 4 \<and> s = take k data"
    using find_sub_cut [of "crlf @ crlf" data i k] that by (simp add: parsable_def crlf_def)
qed

theorem bad_requests_end_the_coroutine_witness:
  "OnRequest map_ctl () (\<lambda>f args. f) new_router [7] (hello_conn\<lparr>h_reads := [Ret (bytes_of_string ''GET /a/ HTTP/1.1'')]\<rparr>) =
     Inl (Bad OutOfRange)"
proof -
  let ?st = "hello_conn\<lparr>h_reads := [Ret (bytes_of_string ''GET /a/ HTTP/1.1'')]\<rparr>"
  have c: "conn_inv map_ctl map_close id (h_conn ?st)" by (simp add: hello_conn_def example_conn_inv)
  have "brings_pieces [''GET /a/ HTTP/1.1''] ([Ret (bytes_of_string ''GET /a/ HTTP/1.1'')] @ []) []"
    by (simp only: brings_pieces.simps, intro exI conjI, rule refl) (simp_all add: MAX_REQUEST_SIZE_def)
  then have b: "brings_pieces [''GET /a/ HTTP/1.1''] (h_reads ?st) []" by simp
  have "\<not> parsable ''GET /a/ HTTP/1.1''" by (simp add: parsable_def crlf_def)
  with bad_requests_end_the_coroutine [OF c b, THEN conjunct1] show ?thesis by blast
qed

section \<open>Sending a file\<close>

text \<open>What each round of the loop of \<open>SendFile\<close> sends: the piece over what the buffer held.\<close>

fun file_buffers :: "bytes \<Rightarrow> bytes list \<Rightarrow> bytes list" where
  "file_buffers buffer [] = []"
| "file_buffers buffer (p # ps) = (let b = p @ drop (length p) buffer in b # file_buffers b ps)"

fun sends_bytes :: "bytes list \<Rightarrow> nat sys list \<Rightarrow> nat sys list \<Rightarrow> bool" where
  "sends_bytes [] tr rest \<longleftrightarrow> tr = rest"
| "sends_bytes (b # bs) tr rest \<longleftrightarrow> (\<exists>t tr'. tr = t @ tr' \<and> fair t \<and> 0 \<notin> set (oks t) \<and> sum_list (oks t) = length b \<and>
     sends_bytes bs tr' rest)"

lemma sends_bytes_Cons:
  "fair t \<Longrightarrow> 0 \<notin> set (oks t) \<Longrightarrow> sum_list (oks t) = length b \<Longrightarrow> sends_bytes bs tr rest \<Longrightarrow> sends_bytes (b # bs) (t @ tr) rest"
  by auto

lemma length_file_buffers:
  "\<forall>p \<in> set ps. length p \<le> length buffer \<Longrightarrow> \<forall>b \<in> set (file_buffers buffer ps). length b = length buffer"
proof (induction ps arbitrary: buffer)
  case (Cons p ps)
  define b where "b = p @ drop (length p) buffer"
  have len: "length b = length buffer" using Cons.prems by (simp add: b_def)
  then have "\<forall>x \<in> set (file_buffers b ps). length x = length buffer"
    using Cons.IH [of b] Cons.prems by simp
  then show ?case using len by (simp add: Let_def flip: b_def)
qed simp

lemma length_concat_const: "\<forall>b \<in> set bs. length b = n \<Longrightarrow> length (concat bs) = length bs * n"
  by (induction bs) auto

lemma length_file_buffers_list [simp]: "length (file_buffers buffer ps) = length ps"
  by (induction ps arbitrary: buffer) (auto simp: Let_def)

lemma send_pieces_sends:
  assumes "conn_inv ctl kclose interest (h_conn st)" "[] \<notin> set ps"
    "sends_bytes (file_buffers buffer ps) (h_writes st) rest" "last_read = Ret [] \<or> last_read = Err e"
  shows "\<exists>c. send_pieces ctl h (map Ret ps @ last_read # later) buffer st = Inr (last_read \<noteq> Ret [],
      st\<lparr>h_writes := rest, h_wire := h_wire st @ concat (file_buffers buffer ps), h_conn := c\<rparr>) \<and>
    conn_inv ctl kclose interest c"
  using assms(1-3)
proof (induction ps arbitrary: buffer st)
  case Nil
  then show ?case using assms(4) by (intro exI [of _ "h_conn st"]) auto
next
  case (Cons p ps)
  let ?b = "p @ drop (length p) buffer"
  obtain t tr where w: "h_writes st = t @ tr" "fair t" "0 \<notin> set (oks t)" "sum_list (oks t) = length ?b"
    "sends_bytes (file_buffers ?b ps) tr rest" using Cons.prems(3) by (auto simp: Let_def)
  obtain c where c: "send_bytes ctl h ?b st = Inr (length ?b, st\<lparr>h_writes := tr, h_wire := h_wire st @ ?b, h_conn := c\<rparr>)"
    "conn_inv ctl kclose interest c" by (rule send_bytes_fair [OF Cons.prems(1) w(1-4)])
  let ?st = "st\<lparr>h_writes := tr, h_wire := h_wire st @ ?b, h_conn := c\<rparr>"
  have "conn_inv ctl kclose interest (h_conn ?st)" "[] \<notin> set ps" "sends_bytes (file_buffers ?b ps) (h_writes ?st) rest"
    using c(2) Cons.prems(2) w(5) by simp_all
  from Cons.IH [OF this] obtain c' where "send_pieces ctl h (map Ret ps @ last_read # later) ?b ?st = Inr (last_read \<noteq> Ret [],
      ?st\<lparr>h_writes := rest, h_wire := h_wire ?st @ concat (file_buffers ?b ps), h_conn := c'\<rparr>)" "conn_inv ctl kclose interest c'"
    by (elim exE conjE)
  moreover have "p \<noteq> []" using Cons.prems(2) by auto
  ultimately show ?case using c(1) by (intro exI [of _ c']) (simp add: overwrite_def Let_def)
qed

text \<open>
  Sending a file of \<open>n\<close> bytes: over any short writes and waits the header goes out, and then
  one buffer of \<open>n\<close> bytes for every piece that \<open>read\<close> returned, so the body has \<open>n\<close> bytes
  times the number of pieces, of which the header announces \<open>n\<close>. A file read in one piece is
  sent as it is. The file is closed at its end, and stays open when a read fails.
\<close>

theorem SendFile_sends:
  assumes "conn_inv ctl kclose interest (h_conn st)" "GetFileType path = Inr file_type" "0 < n"
    and "[] \<notin> set ps" "\<forall>p \<in> set ps. length p \<le> n" "last_read = Ret [] \<or> last_read = Err e"
    and "sends_bytes (bytes_of_string (GetData (file_head file_type n response)) # file_buffers (replicate n 0) ps) (h_writes st) rest"
  shows "\<exists>st' content. SendFile ctl h path (Some n) True (map Ret ps @ last_read # later) response st = Inr (last_read \<noteq> Ret [], st') \<and>
    h_wire st' = h_wire st @ bytes_of_string (GetData (file_head file_type n response)) @ content \<and>
    length content = length ps * n \<and> (\<forall>p. ps = [p] \<and> length p = n \<longrightarrow> content = p) \<and>
    h_writes st' = rest \<and> conn_inv ctl kclose interest (h_conn st')"
proof -
  let ?head = "bytes_of_string (GetData (file_head file_type n response))"
  obtain t tr where w: "h_writes st = t @ tr" "fair t" "0 \<notin> set (oks t)" "sum_list (oks t) = length ?head"
    "sends_bytes (file_buffers (replicate n 0) ps) tr rest" using assms(7) by auto
  obtain c where c: "send_bytes ctl h ?head st = Inr (length ?head, st\<lparr>h_writes := tr, h_wire := h_wire st @ ?head, h_conn := c\<rparr>)"
    "conn_inv ctl kclose interest c" by (rule send_bytes_fair [OF assms(1) w(1-4)])
  let ?st = "st\<lparr>h_writes := tr, h_wire := h_wire st @ ?head, h_conn := c\<rparr>"
  obtain c' where p: "send_pieces ctl h (map Ret ps @ last_read # later) (replicate n 0) ?st = Inr (last_read \<noteq> Ret [],
      ?st\<lparr>h_writes := rest, h_wire := h_wire ?st @ concat (file_buffers (replicate n 0) ps), h_conn := c'\<rparr>)"
    "conn_inv ctl kclose interest c'"
    using send_pieces_sends [of ctl kclose interest ?st ps "replicate n 0" rest last_read e h later] assms(4,6) w(5) c(2) by auto
  have "length (concat (file_buffers (replicate n 0) ps)) = length ps * n"
    using length_concat_const length_file_buffers [of ps "replicate n 0"] assms(5) by fastforce
  moreover have "concat (file_buffers (replicate n 0) ps) = p" if "ps = [p]" "length p = n" for p
    using that by simp
  moreover have "SendFile ctl h path (Some n) True (map Ret ps @ last_read # later) response st =
      send_pieces ctl h (map Ret ps @ last_read # later) (replicate n 0) ?st"
    using assms(2,3) c(1) by (simp add: SendFile_def FileSize_def SendResponse_def Let_def)
  ultimately show ?thesis using p
    by (intro exI [of _ "?st\<lparr>h_writes := rest, h_wire := h_wire ?st @ concat (file_buffers (replicate n 0) ps), h_conn := c'\<rparr>"]
        exI [of _ "concat (file_buffers (replicate n 0) ps)"]) simp
qed

theorem SendFile_sends_witness:
  "\<exists>st' content. SendFile map_ctl () ''a.png'' (Some 2) True (map Ret [[1], [2]] @ Err EOTHER # []) new_response
      (hello_conn\<lparr>h_writes := map Ret [length (GetData (file_head ''image/png'' 2 new_response)), 2, 1, 1]\<rparr>) = Inr (True, st') \<and>
    length content = 4 \<and> h_wire st' = bytes_of_string (GetData (file_head ''image/png'' 2 new_response)) @ content"
proof -
  let ?head = "GetData (file_head ''image/png'' 2 new_response)"
  have "length ?head \<noteq> 0" by (simp add: file_head_def GetData_def SetBody_def)
  then have "sends_bytes (bytes_of_string ?head # file_buffers (replicate 2 0) [[1], [2]])
      ([Ret (length ?head)] @ [Ret 2] @ [Ret 1, Ret 1] @ []) []"
    unfolding file_buffers.simps Let_def
    by (intro sends_bytes_Cons) (simp_all add: numeral_2_eq_2)
  moreover have "GetFileType ''a.png'' = Inr ''image/png''" 
    by (simp add: GetFileType_def split_s_eq split_parts.simps file_type_of_def)
  moreover have "conn_inv map_ctl map_close id (h_conn hello_conn)" by (simp add: hello_conn_def example_conn_inv)
  ultimately show ?thesis
    using SendFile_sends [of map_ctl map_close id "hello_conn\<lparr>h_writes := map Ret [length ?head, 2, 1, 1]\<rparr>" "''a.png''"
        "''image/png''" 2 "[[1], [2]]" "Err EOTHER" EOTHER new_response "[]" "()" "[]"]
    by (auto simp: hello_conn_def)
qed

end
