(* ===== verification/Serializer.thy ===== *)
theory Serializer
  imports Luce_Prelude
begin

text \<open>
  \<open>luce/codec/serializer.h\<close> with the type traits of \<open>luce/codec/type_helper.h\<close>.

  The C++ overload set is a recursion over the type of the value. The model makes the
  type a datatype \<open>ty\<close> and the value a datatype \<open>val\<close>: arithmetic types by their width
  (signed and floating types by their bit pattern), \<open>std::string\<close>, the four sequence
  containers (whose overloads are one template), \<open>std::map\<close> (its entries in key order),
  \<open>std::tuple\<close>, and classes with \<open>serialize\<close>/\<open>deserialize\<close> methods that handle their
  fields in order. The state is the byte buffer and the \<open>int\<close> read position, kept at
  32 bits: it wraps as the C++ conversion does. A read outside the buffer is undefined
  behaviour and the error \<open>OutOfBounds\<close>.
\<close>

datatype ser_error = OutOfBounds | IllFormed

record serializer =
  ser_buffer :: bytes
  ser_pos :: "32 word"

definition empty_serializer :: serializer where
  "empty_serializer = \<lparr>ser_buffer = [], ser_pos = 0\<rparr>"

definition serializer_of :: "bytes \<Rightarrow> serializer" where
  "serializer_of data = \<lparr>ser_buffer = data, ser_pos = 0\<rparr>"

definition str :: "serializer \<Rightarrow> bytes" where
  "str s = ser_buffer s"

definition ser_size :: "serializer \<Rightarrow> nat" where
  "ser_size s = length (ser_buffer s)"

definition ser_clear :: "serializer \<Rightarrow> serializer" where
  "ser_clear s = s\<lparr>ser_buffer := [], ser_pos := 0\<rparr>"

datatype ty = TU8 | TU16 | TU32 | TU64 | TStr | TSeq ty | TMap ty ty | TTup "ty list" | TObj "ty list"

datatype val = VU8 byte | VU16 u16 | VU32 u32 | VU64 u64 | VStr bytes
  | VSeq "val list" | VMap "(val \<times> val) list" | VTup "val list" | VObj "val list"

text \<open>The sequence containers the trait \<open>IsSequenceContainerType\<close> accepts.\<close>

datatype container = Vector | Deque | List | ForwardList | OtherContainer

fun is_sequence_container_type :: "container \<Rightarrow> bool" where
  "is_sequence_container_type Vector = True"
| "is_sequence_container_type Deque = True"
| "is_sequence_container_type List = True"
| "is_sequence_container_type ForwardList = True"
| "is_sequence_container_type OtherContainer = False"

section \<open>Writing\<close>

definition append_bytes :: "bytes \<Rightarrow> serializer \<Rightarrow> serializer" where
  "append_bytes bs s = s\<lparr>ser_buffer := ser_buffer s @ bs\<rparr>"

definition serialize_arith :: "'a::len word \<Rightarrow> serializer \<Rightarrow> serializer" where
  "serialize_arith w s = append_bytes (le_bytes w) s"

definition serialize_string :: "bytes \<Rightarrow> serializer \<Rightarrow> serializer" where
  "serialize_string v s = append_bytes v (serialize_arith (of_nat (length v) :: u64) s)"

text \<open>
  \<open>size\<close> is a \<open>uint32_t\<close> for the sequence containers (taken from \<open>size()\<close> or counted
  element by element) and a \<open>size_t\<close> for maps and strings.
\<close>

fun serialize :: "val \<Rightarrow> serializer \<Rightarrow> serializer" where
  "serialize (VU8 w) s = serialize_arith w s"
| "serialize (VU16 w) s = serialize_arith w s"
| "serialize (VU32 w) s = serialize_arith w s"
| "serialize (VU64 w) s = serialize_arith w s"
| "serialize (VStr v) s = serialize_string v s"
| "serialize (VSeq vs) s = fold serialize vs (serialize_arith (of_nat (length vs) :: u32) s)"
| "serialize (VMap kvs) s =
     fold (\<lambda>kv s. serialize (snd kv) (serialize (fst kv) s)) kvs
       (serialize_arith (of_nat (length kvs) :: u64) s)"
| "serialize (VTup vs) s = fold serialize vs s"
| "serialize (VObj vs) s = fold serialize vs s"

section \<open>Reading\<close>

definition read_bytes :: "nat \<Rightarrow> serializer \<Rightarrow> ser_error + bytes \<times> serializer" where
  "read_bytes n s =
     (let pos = sint (ser_pos s)
      in if 0 \<le> pos \<and> nat pos + n \<le> length (ser_buffer s)
         then Inr (take n (drop (nat pos) (ser_buffer s)),
                   s\<lparr>ser_pos := ser_pos s + of_nat n\<rparr>)
         else Inl OutOfBounds)"

definition deserialize_arith :: "serializer \<Rightarrow> ser_error + 'a::len word \<times> serializer" where
  "deserialize_arith s =
     try_bind (read_bytes (LENGTH('a) div 8) s) (\<lambda>(bs, s'). Inr (le_word bs, s'))"

definition deserialize_string :: "serializer \<Rightarrow> ser_error + bytes \<times> serializer" where
  "deserialize_string s =
     try_bind (deserialize_arith s) (\<lambda>(size :: u64, s1). read_bytes (unat size) s1)"

fun des_times ::
  "nat \<Rightarrow> (serializer \<Rightarrow> ser_error + 'a \<times> serializer) \<Rightarrow> serializer \<Rightarrow> ser_error + 'a list \<times> serializer"
where
  "des_times 0 f s = Inr ([], s)"
| "des_times (Suc n) f s =
     try_bind (f s) (\<lambda>(x, s1). try_bind (des_times n f s1) (\<lambda>(xs, s2). Inr (x # xs, s2)))"

text \<open>
  The \<open>std::map\<close> overload of \<open>deserialize\<close> passes \<open>key\<close> and \<open>val\<close> where the other
  overloads take pointers, so no overload matches and the template cannot be
  instantiated: \<open>IllFormed\<close>.
\<close>

fun deserialize :: "ty \<Rightarrow> serializer \<Rightarrow> ser_error + val \<times> serializer"
  and deserialize_all :: "ty list \<Rightarrow> serializer \<Rightarrow> ser_error + val list \<times> serializer"
where
  "deserialize TU8 s = try_bind (deserialize_arith s) (\<lambda>(w, s'). Inr (VU8 w, s'))"
| "deserialize TU16 s = try_bind (deserialize_arith s) (\<lambda>(w, s'). Inr (VU16 w, s'))"
| "deserialize TU32 s = try_bind (deserialize_arith s) (\<lambda>(w, s'). Inr (VU32 w, s'))"
| "deserialize TU64 s = try_bind (deserialize_arith s) (\<lambda>(w, s'). Inr (VU64 w, s'))"
| "deserialize TStr s = try_bind (deserialize_string s) (\<lambda>(v, s'). Inr (VStr v, s'))"
| "deserialize (TSeq t) s =
     try_bind (deserialize_arith s) (\<lambda>(size :: u32, s1).
       try_bind (des_times (unat size) (\<lambda>s. deserialize t s) s1) (\<lambda>(vs, s2). Inr (VSeq vs, s2)))"
| "deserialize (TMap k v) s = Inl IllFormed"
| "deserialize (TTup ts) s = try_bind (deserialize_all ts s) (\<lambda>(vs, s'). Inr (VTup vs, s'))"
| "deserialize (TObj ts) s = try_bind (deserialize_all ts s) (\<lambda>(vs, s'). Inr (VObj vs, s'))"
| "deserialize_all [] s = Inr ([], s)"
| "deserialize_all (t # ts) s =
     try_bind (deserialize t s) (\<lambda>(v, s1).
       try_bind (deserialize_all ts s1) (\<lambda>(vs, s2). Inr (v # vs, s2)))"

section \<open>Typing\<close>

text \<open>
  A value fits a type when its shape does and its element counts fit the length
  prefixes: \<open>uint32_t\<close> for sequences, \<open>size_t\<close> for strings and maps.
\<close>

fun has_type :: "val \<Rightarrow> ty \<Rightarrow> bool" where
  "has_type (VU8 _) t = (t = TU8)"
| "has_type (VU16 _) t = (t = TU16)"
| "has_type (VU32 _) t = (t = TU32)"
| "has_type (VU64 _) t = (t = TU64)"
| "has_type (VStr v) t = (t = TStr \<and> length v < 2 ^ 64)"
| "has_type (VSeq vs) t =
     (case t of TSeq e \<Rightarrow> length vs < 2 ^ 32 \<and> (\<forall>v \<in> set vs. has_type v e) | _ \<Rightarrow> False)"
| "has_type (VMap kvs) t =
     (case t of TMap a b \<Rightarrow> length kvs < 2 ^ 64 \<and>
        (\<forall>kv \<in> set kvs. has_type (fst kv) a \<and> has_type (snd kv) b) | _ \<Rightarrow> False)"
| "has_type (VTup vs) t =
     (case t of TTup ts \<Rightarrow> list_all2 (\<lambda>v t. has_type v t) vs ts | _ \<Rightarrow> False)"
| "has_type (VObj vs) t =
     (case t of TObj ts \<Rightarrow> list_all2 (\<lambda>v t. has_type v t) vs ts | _ \<Rightarrow> False)"

fun instantiable :: "ty \<Rightarrow> bool" where
  "instantiable (TSeq t) = instantiable t"
| "instantiable (TMap _ _) = False"
| "instantiable (TTup ts) = (\<forall>t \<in> set ts. instantiable t)"
| "instantiable (TObj ts) = (\<forall>t \<in> set ts. instantiable t)"
| "instantiable _ = True"

section \<open>The byte image of a value\<close>

fun wire :: "val \<Rightarrow> bytes" where
  "wire (VU8 w) = le_bytes w"
| "wire (VU16 w) = le_bytes w"
| "wire (VU32 w) = le_bytes w"
| "wire (VU64 w) = le_bytes w"
| "wire (VStr v) = le_bytes (of_nat (length v) :: u64) @ v"
| "wire (VSeq vs) = le_bytes (of_nat (length vs) :: u32) @ concat (map wire vs)"
| "wire (VMap kvs) =
     le_bytes (of_nat (length kvs) :: u64) @ concat (map (\<lambda>kv. wire (fst kv) @ wire (snd kv)) kvs)"
| "wire (VTup vs) = concat (map wire vs)"
| "wire (VObj vs) = concat (map wire vs)"

lemma append_bytes_append [simp]:
  "append_bytes cs (append_bytes bs s) = append_bytes (bs @ cs) s"
  by (simp add: append_bytes_def)

lemma append_bytes_Nil [simp]: "append_bytes [] s = s"
  by (simp add: append_bytes_def)

lemma fold_append_bytes:
  "(\<And>x s. x \<in> set xs \<Longrightarrow> f x s = append_bytes (g x) s) \<Longrightarrow>
   fold f xs s = append_bytes (concat (map g xs)) s"
  by (induction xs arbitrary: s) auto

lemma serialize_image: "serialize v s = append_bytes (wire v) s"
proof (induction v s rule: serialize.induct)
  case (6 vs s)
  then show ?case
    by (simp add: serialize_arith_def fold_append_bytes [where g = wire])
next
  case (7 kvs s)
  then show ?case
    by (simp add: serialize_arith_def
        fold_append_bytes [where g = "\<lambda>kv. wire (fst kv) @ wire (snd kv)"])
qed (simp_all add: serialize_arith_def serialize_string_def fold_append_bytes [where g = wire])

lemma fold_serialize_image: "fold serialize vs s = append_bytes (concat (map wire vs)) s"
  by (simp add: fold_append_bytes serialize_image)

section \<open>Reading back what was written\<close>

text \<open>\<open>cursor pre post\<close> is a serializer whose read position is between \<open>pre\<close> and \<open>post\<close>.\<close>

definition cursor :: "bytes \<Rightarrow> bytes \<Rightarrow> serializer" where
  "cursor pre post = \<lparr>ser_buffer = pre @ post, ser_pos = of_nat (length pre)\<rparr>"

lemma read_bytes_cursor:
  assumes "length (pre @ bs @ post) < 2 ^ 31" "n = length bs"
  shows "read_bytes n (cursor pre (bs @ post)) = Inr (bs, cursor (pre @ bs) post)"
  using assms by (simp add: read_bytes_def cursor_def sint_of_nat_u31)

text \<open>
  The interface between the overload set and its users: \<open>dec\<close> at the start of an encoded
  value returns it and stands behind it. The laws are assumed of the element type and
  proved for the containers over it.
\<close>

locale codec =
  fixes enc :: "'v \<Rightarrow> bytes"
    and dec :: "serializer \<Rightarrow> ser_error + 'v \<times> serializer"
    and valid :: "'v \<Rightarrow> bool"
  assumes dec_enc: "valid v \<Longrightarrow> length (pre @ enc v @ post) < 2 ^ 31 \<Longrightarrow>
    dec (cursor pre (enc v @ post)) = Inr (v, cursor (pre @ enc v) post)"
begin

lemma dec_times:
  "\<forall>v \<in> set vs. valid v \<Longrightarrow> length (pre @ concat (map enc vs) @ post) < 2 ^ 31 \<Longrightarrow>
   des_times (length vs) dec (cursor pre (concat (map enc vs) @ post)) =
     Inr (vs, cursor (pre @ concat (map enc vs)) post)"
proof (induction vs arbitrary: pre)
  case Nil
  then show ?case by simp
next
  case (Cons v vs)
  have "dec (cursor pre (enc v @ concat (map enc vs) @ post)) =
      Inr (v, cursor (pre @ enc v) (concat (map enc vs) @ post))"
    using Cons.prems by (intro dec_enc) auto
  moreover have "des_times (length vs) dec (cursor (pre @ enc v) (concat (map enc vs) @ post)) =
      Inr (vs, cursor ((pre @ enc v) @ concat (map enc vs)) post)"
    using Cons.prems by (intro Cons.IH) auto
  ultimately show ?case by simp
qed

lemma enc_prefix_free:
  assumes "valid v" "valid w" "enc v @ p = enc w @ q" "length (enc v @ p) < 2 ^ 31"
  shows "v = w \<and> p = q"
proof -
  have "dec (cursor [] (enc v @ p)) = Inr (v, cursor (enc v) p)"
    using dec_enc [of v "[]" p] assms by simp
  moreover have "dec (cursor [] (enc w @ q)) = Inr (w, cursor (enc w) q)"
    using dec_enc [of w "[]" q] assms by simp
  ultimately show ?thesis using assms by simp
qed

end

lemma deserialize_arith_cursor:
  assumes "8 dvd LENGTH('a)" "length (pre @ le_bytes (w :: 'a::len word) @ post) < 2 ^ 31"
  shows "deserialize_arith (cursor pre (le_bytes w @ post)) = Inr (w, cursor (pre @ le_bytes w) post)"
  using assms by (simp add: deserialize_arith_def read_bytes_cursor)

interpretation arith8: codec "le_bytes :: byte \<Rightarrow> bytes" deserialize_arith "\<lambda>_. True"
  by unfold_locales (rule deserialize_arith_cursor; simp)

interpretation arith16: codec "le_bytes :: u16 \<Rightarrow> bytes" deserialize_arith "\<lambda>_. True"
  by unfold_locales (rule deserialize_arith_cursor; simp)

interpretation arith32: codec "le_bytes :: u32 \<Rightarrow> bytes" deserialize_arith "\<lambda>_. True"
  by unfold_locales (rule deserialize_arith_cursor; simp)

interpretation arith64: codec "le_bytes :: u64 \<Rightarrow> bytes" deserialize_arith "\<lambda>_. True"
  by unfold_locales (rule deserialize_arith_cursor; simp)

lemmas arith_cursor = arith8.dec_enc [simplified] arith16.dec_enc [simplified]
  arith32.dec_enc [simplified] arith64.dec_enc [simplified]

lemma deserialize_string_cursor:
  assumes "length v < 2 ^ 64" "length (pre @ wire (VStr v) @ post) < 2 ^ 31"
  shows "deserialize_string (cursor pre (wire (VStr v) @ post)) =
    Inr (v, cursor (pre @ wire (VStr v)) post)"
  using assms arith64.dec_enc [where v = "of_nat (length v)" and pre = pre and post = "v @ post"]
  by (simp add: deserialize_string_def unat_of_nat read_bytes_cursor)

interpretation string_codec: codec "\<lambda>v. wire (VStr v)" deserialize_string "\<lambda>v. length v < 2 ^ 64"
  by unfold_locales (rule deserialize_string_cursor)

section \<open>The round trip at every type\<close>

text \<open>
  One element type after another: if every field is read back at its place, so is the
  whole tuple. Sequences use the client lemma of the interface instead, since all their
  elements have the same type.
\<close>

lemma deserialize_all_cursor:
  assumes "list_all2 (\<lambda>v t. codec wire (deserialize t) (\<lambda>x. x = v)) vs ts"
    and "length (pre @ concat (map wire vs) @ post) < 2 ^ 31"
  shows "deserialize_all ts (cursor pre (concat (map wire vs) @ post)) =
    Inr (vs, cursor (pre @ concat (map wire vs)) post)"
  using assms
proof (induction vs ts arbitrary: pre rule: list_all2_induct)
  case Nil
  then show ?case by simp
next
  case (Cons v vs t ts)
  have "deserialize t (cursor pre (wire v @ concat (map wire vs) @ post)) =
      Inr (v, cursor (pre @ wire v) (concat (map wire vs) @ post))"
    using Cons.prems by (intro codec.dec_enc [OF Cons.hyps(1)]) auto
  moreover have "deserialize_all ts (cursor (pre @ wire v) (concat (map wire vs) @ post)) =
      Inr (vs, cursor ((pre @ wire v) @ concat (map wire vs)) post)"
    using Cons.prems by (intro Cons.IH) auto
  ultimately show ?case by simp
qed

lemma deserialize_seq_cursor:
  assumes "\<forall>v \<in> set vs. codec wire (deserialize t) (\<lambda>x. x = v)" "length vs < 2 ^ 32"
    and "length (pre @ wire (VSeq vs) @ post) < 2 ^ 31"
  shows "deserialize (TSeq t) (cursor pre (wire (VSeq vs) @ post)) =
    Inr (VSeq vs, cursor (pre @ wire (VSeq vs)) post)"
proof -
  let ?n = "of_nat (length vs) :: u32"
  have elem: "codec wire (deserialize t) (\<lambda>x. x \<in> set vs)"
    using assms(1) unfolding codec_def by blast
  have "deserialize_arith (cursor pre (le_bytes ?n @ concat (map wire vs) @ post)) =
      Inr (?n, cursor (pre @ le_bytes ?n) (concat (map wire vs) @ post))"
    using assms(3) by (intro arith32.dec_enc) auto
  moreover have "des_times (length vs) (deserialize t)
      (cursor (pre @ le_bytes ?n) (concat (map wire vs) @ post)) =
      Inr (vs, cursor ((pre @ le_bytes ?n) @ concat (map wire vs)) post)"
    using assms(3) by (intro codec.dec_times [OF elem]) auto
  moreover have "unat ?n = length vs"
    using assms(2) by (simp add: unat_of_nat)
  ultimately show ?thesis by simp
qed

lemma codec_singleton:
  assumes "\<And>pre post. length (pre @ enc v @ post) < 2 ^ 31 \<Longrightarrow>
    dec (cursor pre (enc v @ post)) = Inr (v, cursor (pre @ enc v) post)"
  shows "codec enc dec (\<lambda>x. x = v)"
  by (rule codec.intro) (use assms in blast)

lemma codec_arith_values:
  "codec wire (deserialize TU8) (\<lambda>x. x = VU8 a)"
  "codec wire (deserialize TU16) (\<lambda>x. x = VU16 b)"
  "codec wire (deserialize TU32) (\<lambda>x. x = VU32 c)"
  "codec wire (deserialize TU64) (\<lambda>x. x = VU64 d)"
  by (rule codec_singleton, simp add: arith_cursor)+

lemma codec_fields:
  assumes "\<And>v t. v \<in> set vs \<Longrightarrow> has_type v t \<Longrightarrow> instantiable t \<Longrightarrow>
      codec wire (deserialize t) (\<lambda>x. x = v)"
    and "list_all2 has_type vs ts" "\<forall>t \<in> set ts. instantiable t"
  shows "list_all2 (\<lambda>v t. codec wire (deserialize t) (\<lambda>x. x = v)) vs ts"
  using assms by (auto simp: list_all2_conv_all_nth)

lemma codec_value:
  "has_type v t \<Longrightarrow> instantiable t \<Longrightarrow> codec wire (deserialize t) (\<lambda>x. x = v)"
proof (induction v arbitrary: t)
  case (VStr v)
  then have "t = TStr" "length v < 2 ^ 64" by simp_all
  then show ?case
    by (intro codec_singleton) (simp only: deserialize.simps deserialize_string_cursor try_bind_simps prod.case)
next
  case (VSeq vs)
  then obtain e where t: "t = TSeq e" "length vs < 2 ^ 32" "\<forall>v \<in> set vs. has_type v e" "instantiable e"
    by (auto split: ty.splits)
  then have "\<forall>v \<in> set vs. codec wire (deserialize e) (\<lambda>x. x = v)"
    using VSeq.IH by blast
  then show ?case
    unfolding t(1) using t(2) by (intro codec_singleton deserialize_seq_cursor)
next
  case (VMap kvs)
  then show ?case by (auto split: ty.splits)
next
  case (VTup vs)
  then obtain ts where t: "t = TTup ts" "list_all2 has_type vs ts" "\<forall>t \<in> set ts. instantiable t"
    by (auto split: ty.splits)
  from codec_fields [OF VTup.IH t(2,3)] show ?case
    unfolding t(1) by (intro codec_singleton) (simp add: deserialize_all_cursor)
next
  case (VObj vs)
  then obtain ts where t: "t = TObj ts" "list_all2 has_type vs ts" "\<forall>t \<in> set ts. instantiable t"
    by (auto split: ty.splits)
  from codec_fields [OF VObj.IH t(2,3)] show ?case
    unfolding t(1) by (intro codec_singleton) (simp add: deserialize_all_cursor)
qed (simp_all add: codec_arith_values)

interpretation value_codec: codec wire "deserialize t" "\<lambda>v. has_type v t \<and> instantiable t" for t
  using codec_value by (fastforce simp: codec_def)

section \<open>What a successful read says about the buffer\<close>

definition reads :: "(serializer \<Rightarrow> ser_error + 'v \<times> serializer) \<Rightarrow> ('v \<Rightarrow> bytes) \<Rightarrow> ('v \<Rightarrow> bool) \<Rightarrow> bool" where
  "reads dec enc P \<longleftrightarrow> (\<forall>pre rest v s'. length (pre @ rest) < 2 ^ 31 \<longrightarrow>
     dec (cursor pre rest) = Inr (v, s') \<longrightarrow>
     P v \<and> (\<exists>post. rest = enc v @ post \<and> s' = cursor (pre @ enc v) post))"

lemma readsI:
  assumes "\<And>pre rest v s'. length (pre @ rest) < 2 ^ 31 \<Longrightarrow> dec (cursor pre rest) = Inr (v, s') \<Longrightarrow>
     P v \<and> (\<exists>post. rest = enc v @ post \<and> s' = cursor (pre @ enc v) post)"
  shows "reads dec enc P"
  using assms unfolding reads_def by blast

lemma readsE:
  assumes "reads dec enc P" "dec (cursor pre rest) = Inr (v, s')" "length (pre @ rest) < 2 ^ 31"
  obtains post where "P v" "rest = enc v @ post" "s' = cursor (pre @ enc v) post"
  using assms unfolding reads_def by blast

lemma reads_read_bytes: "reads (read_bytes n) (\<lambda>bs. bs) (\<lambda>bs. length bs = n)"
proof (rule readsI)
  fix pre rest v s'
  assume len: "length (pre @ rest) < 2 ^ 31" and r: "read_bytes n (cursor pre rest) = Inr (v, s')"
  from len have "length pre < 2 ^ 31" by simp
  then have pos: "sint (of_nat (length pre) :: 32 word) = int (length pre)"
    by (rule sint_of_nat_u31)
  from r have n: "n \<le> length rest" and v: "v = take n rest"
    and s': "s' = (cursor pre rest)\<lparr>ser_pos := of_nat (length pre) + of_nat n\<rparr>"
    by (auto simp: read_bytes_def cursor_def pos split: if_splits)
  have "length v = n \<and> rest = v @ drop n rest \<and> s' = cursor (pre @ v) (drop n rest)"
    using n by (simp add: v s' cursor_def)
  then show "length v = n \<and> (\<exists>post. rest = v @ post \<and> s' = cursor (pre @ v) post)"
    by blast
qed

lemma reads_arith:
  assumes "8 dvd LENGTH('a)"
  shows "reads deserialize_arith (le_bytes :: 'a::len word \<Rightarrow> bytes) (\<lambda>_. True)"
proof (rule readsI)
  fix pre rest and v :: "'a word" and s'
  assume len: "length (pre @ rest) < 2 ^ 31" and r: "deserialize_arith (cursor pre rest) = Inr (v, s')"
  then obtain bs where bs: "read_bytes (LENGTH('a) div 8) (cursor pre rest) = Inr (bs, s')" "v = le_word bs"
    by (auto simp: deserialize_arith_def try_bind_eq_Inr)
  from reads_read_bytes bs(1) len obtain post
    where "length bs = LENGTH('a) div 8" "rest = bs @ post" "s' = cursor (pre @ bs) post"
    by (rule readsE)
  then show "True \<and> (\<exists>post. rest = le_bytes v @ post \<and> s' = cursor (pre @ le_bytes v) post)"
    using assms by (auto simp: bs(2) le_bytes_le_word)
qed

lemma reads_map:
  assumes "reads dec enc P" "\<And>v. P v \<Longrightarrow> enc' (g v) = enc v \<and> Q (g v)"
    and "\<And>s. dec' s = try_bind (dec s) (\<lambda>(v, s'). Inr (g v, s'))"
  shows "reads dec' enc' Q"
proof (rule readsI)
  fix pre rest v s'
  assume len: "length (pre @ rest) < 2 ^ 31" and "dec' (cursor pre rest) = Inr (v, s')"
  then obtain u where "dec (cursor pre rest) = Inr (u, s')" "v = g u"
    by (auto simp: assms(3) try_bind_eq_Inr)
  with assms(1,2) len show "Q v \<and> (\<exists>post. rest = enc' v @ post \<and> s' = cursor (pre @ enc' v) post)"
    by (fastforce elim: readsE)
qed

lemma reads_bind:
  assumes d: "reads d e P" and f: "\<And>x. P x \<Longrightarrow> reads (f x) (e' x) (Q x)"
    and dec: "\<And>s. dec s = try_bind (d s) (\<lambda>(x, s1). try_bind (f x s1) (\<lambda>(y, s2). Inr (g x y, s2)))"
    and enc: "\<And>x y. P x \<Longrightarrow> Q x y \<Longrightarrow> enc (g x y) = e x @ e' x y \<and> R (g x y)"
  shows "reads dec enc R"
proof (rule readsI)
  fix pre rest v s'
  assume len: "length (pre @ rest) < 2 ^ 31" and "dec (cursor pre rest) = Inr (v, s')"
  then obtain x s1 y where x: "d (cursor pre rest) = Inr (x, s1)" and y: "f x s1 = Inr (y, s')"
    and v: "v = g x y"
    by (auto simp: dec try_bind_eq_Inr)
  from d x len obtain mid where px: "P x" and mid: "rest = e x @ mid" "s1 = cursor (pre @ e x) mid"
    by (rule readsE)
  have "length ((pre @ e x) @ mid) < 2 ^ 31" using len mid by simp
  from f [OF px] y [unfolded mid] this obtain post
    where "Q x y" "mid = e' x y @ post" "s' = cursor ((pre @ e x) @ e' x y) post"
    by (rule readsE)
  then show "R v \<and> (\<exists>post. rest = enc v @ post \<and> s' = cursor (pre @ enc v) post)"
    using enc [OF px, of y] by (simp add: v mid)
qed

lemma reads_times:
  assumes "reads dec enc P"
  shows "reads (des_times n dec) (\<lambda>vs. concat (map enc vs)) (\<lambda>vs. length vs = n \<and> (\<forall>v \<in> set vs. P v))"
proof (induction n)
  case 0
  show ?case by (rule readsI) auto
next
  case (Suc n)
  show ?case
    by (rule reads_bind [OF assms Suc, where g = "(#)"]) auto
qed

lemma reads_string: "reads deserialize_string (\<lambda>v. wire (VStr v)) (\<lambda>v. length v < 2 ^ 64)"
proof (rule reads_bind [where g = "\<lambda>_ y. y" and d = "deserialize_arith" and e = "le_bytes :: u64 \<Rightarrow> bytes"
      and P = "\<lambda>_. True" and f = "\<lambda>size. read_bytes (unat size)" and e' = "\<lambda>_ v. v"
      and Q = "\<lambda>size v. length v = unat size"])
  show "reads deserialize_arith (le_bytes :: u64 \<Rightarrow> bytes) (\<lambda>_. True)"
    by (rule reads_arith) simp
  fix size :: u64 and v :: bytes
  assume "length v = unat size"
  then show "wire (VStr v) = le_bytes size @ v \<and> length v < 2 ^ 64"
    using unsigned_less [of size, where ?'a = nat] by simp
qed (auto simp: deserialize_string_def reads_read_bytes try_bind_def split: sum.splits)

lemma reads_values_if:
  assumes "\<And>t. t \<in> set ts \<Longrightarrow> reads (deserialize t) wire (\<lambda>v. has_type v t)"
  shows "reads (deserialize_all ts) (\<lambda>vs. concat (map wire vs)) (\<lambda>vs. list_all2 has_type vs ts)"
  using assms
proof (induction ts)
  case Nil
  show ?case by (rule readsI) auto
next
  case (Cons t ts)
  have "reads (deserialize t) wire (\<lambda>v. has_type v t)"
    "reads (deserialize_all ts) (\<lambda>vs. concat (map wire vs)) (\<lambda>vs. list_all2 has_type vs ts)"
    using Cons by auto
  then show ?case
    by (rule reads_bind [where g = "(#)"]) auto
qed

lemma reads_value: "reads (deserialize t) wire (\<lambda>v. has_type v t)"
proof (induction t)
  case TU8
  show ?case by (rule reads_map [OF reads_arith, where g = VU8]) auto
next
  case TU16
  show ?case by (rule reads_map [OF reads_arith, where g = VU16]) auto
next
  case TU32
  show ?case by (rule reads_map [OF reads_arith, where g = VU32]) auto
next
  case TU64
  show ?case by (rule reads_map [OF reads_arith, where g = VU64]) auto
next
  case TStr
  show ?case by (rule reads_map [OF reads_string, where g = VStr]) auto
next
  case (TSeq t)
  show ?case
  proof (rule reads_bind [where g = "\<lambda>_ vs. VSeq vs" and d = deserialize_arith
        and e = "le_bytes :: u32 \<Rightarrow> bytes" and P = "\<lambda>_. True"])
    show "reads deserialize_arith (le_bytes :: u32 \<Rightarrow> bytes) (\<lambda>_. True)"
      by (rule reads_arith) simp
    show "reads (des_times (unat size) (deserialize t)) (\<lambda>vs. concat (map wire vs))
        (\<lambda>vs. length vs = unat size \<and> (\<forall>v \<in> set vs. has_type v t))" for size :: u32
      by (rule reads_times [OF TSeq])
    show "wire (VSeq vs) = le_bytes size @ concat (map wire vs) \<and> has_type (VSeq vs) (TSeq t)"
      if "length vs = unat size \<and> (\<forall>v \<in> set vs. has_type v t)" for size :: u32 and vs
      using that unsigned_less [of size, where ?'a = nat] by simp
  qed simp
next
  case (TMap k v)
  show ?case by (rule readsI) simp
next
  case (TTup ts)
  have "reads (deserialize_all ts) (\<lambda>vs. concat (map wire vs)) (\<lambda>vs. list_all2 has_type vs ts)"
    by (rule reads_values_if) (rule TTup)
  then show ?case by (rule reads_map [where g = VTup]) auto
next
  case (TObj ts)
  have "reads (deserialize_all ts) (\<lambda>vs. concat (map wire vs)) (\<lambda>vs. list_all2 has_type vs ts)"
    by (rule reads_values_if) (rule TObj)
  then show ?case by (rule reads_map [where g = VObj]) auto
qed

lemmas reads_values = reads_values_if [OF reads_value]

section \<open>Short buffers\<close>

text \<open>A read at an instantiable type fails only by running past the end of the buffer.\<close>

lemma read_bytes_error: "read_bytes n s \<noteq> Inl IllFormed"
  by (simp add: read_bytes_def Let_def)

lemma arith_error: "deserialize_arith s \<noteq> Inl IllFormed"
  by (auto simp: deserialize_arith_def try_bind_eq_Inl read_bytes_error)

lemma string_error: "deserialize_string s \<noteq> Inl IllFormed"
  by (auto simp: deserialize_string_def try_bind_eq_Inl read_bytes_error arith_error)

lemma des_times_error: "(\<And>s. f s \<noteq> Inl IllFormed) \<Longrightarrow> des_times n f s \<noteq> Inl IllFormed"
  by (induction n arbitrary: s) (auto simp: try_bind_eq_Inl)

lemma deserialize_all_error_if:
  "(\<And>t s. t \<in> set ts \<Longrightarrow> deserialize t s \<noteq> Inl IllFormed) \<Longrightarrow> deserialize_all ts s \<noteq> Inl IllFormed"
  by (induction ts arbitrary: s) (auto simp: try_bind_eq_Inl)

lemma deserialize_error: "instantiable t \<Longrightarrow> deserialize t s \<noteq> Inl IllFormed"
  by (induction t arbitrary: s)
    (simp_all add: try_bind_eq_Inl arith_error string_error des_times_error deserialize_all_error_if)

lemma deserialize_all_error: "\<forall>t \<in> set ts. instantiable t \<Longrightarrow> deserialize_all ts s \<noteq> Inl IllFormed"
  by (simp add: deserialize_all_error_if deserialize_error)

lemma ser_error_cases: "m \<noteq> Inl IllFormed \<Longrightarrow> m = Inl e \<Longrightarrow> m = Inl OutOfBounds"
  by (cases e) auto

text \<open>
  A codec that accepts only its own encodings: reading a proper prefix of an encoded value
  fails, since a value read from it would share its encoding with the whole one.
\<close>

locale canonical_codec = codec +
  assumes canonical: "valid v \<Longrightarrow> reads dec enc valid"
begin

lemma dec_truncated:
  assumes "valid v" "length (pre @ enc v) < 2 ^ 31" "k < length (enc v)"
  shows "\<exists>e. dec (cursor pre (take k (enc v))) = Inl e"
proof (rule ccontr)
  assume "\<nexists>e. dec (cursor pre (take k (enc v))) = Inl e"
  then obtain w s' where w: "dec (cursor pre (take k (enc v))) = Inr (w, s')"
    by (metis prod.exhaust sum.exhaust)
  have "length (pre @ take k (enc v)) < 2 ^ 31" using assms(2,3) by simp
  from readsE [OF canonical [OF assms(1)] w this] obtain post
    where "valid w" "take k (enc v) = enc w @ post" by metis
  then have "enc v @ [] = enc w @ (post @ drop k (enc v))"
    by (metis append.assoc append.right_neutral append_take_drop_id)
  with enc_prefix_free [OF assms(1) \<open>valid w\<close> this] assms(2) have "drop k (enc v) = []" by auto
  then show False using assms(3) by simp
qed

end

interpretation string_codec: canonical_codec "\<lambda>v. wire (VStr v)" deserialize_string "\<lambda>v. length v < 2 ^ 64"
  by unfold_locales (rule reads_string)

interpretation value_codec: canonical_codec wire "deserialize t" "\<lambda>v. has_type v t \<and> instantiable t" for t
  using reads_value [of t] by unfold_locales (auto simp: reads_def)

interpretation values_codec: canonical_codec "\<lambda>vs. concat (map wire vs)" "deserialize_all ts"
  "\<lambda>vs. list_all2 has_type vs ts \<and> (\<forall>t \<in> set ts. instantiable t)" for ts
proof
  show "deserialize_all ts (cursor pre (concat (map wire vs) @ post)) =
      Inr (vs, cursor (pre @ concat (map wire vs)) post)"
    if "list_all2 has_type vs ts \<and> (\<forall>t \<in> set ts. instantiable t)"
      "length (pre @ concat (map wire vs) @ post) < 2 ^ 31" for vs pre post
    using that by (intro deserialize_all_cursor codec_fields codec_value) auto
qed (use reads_values [of ts] in \<open>auto simp: reads_def\<close>)

section \<open>Properties\<close>

lemma cursor_serializer_of: "serializer_of data = cursor [] data"
  by (simp add: serializer_of_def cursor_def)

lemma str_fold_serialize: "str (fold serialize vs empty_serializer) = concat (map wire vs)"
  by (simp add: fold_serialize_image str_def append_bytes_def empty_serializer_def)

text \<open>
  Claim C2. Writing any sequence of values of deserializable types into a fresh serializer
  and reading the produced bytes back with a second serializer returns exactly those
  values in order and leaves the read position at the end of the buffer, as long as the
  buffer fits the 32-bit read position.
\<close>

theorem serializer_roundtrip:
  assumes "list_all2 has_type vs ts" "\<forall>t \<in> set ts. instantiable t"
    and "ser_size (fold serialize vs empty_serializer) < 2 ^ 31"
  shows "deserialize_all ts (serializer_of (str (fold serialize vs empty_serializer))) =
    Inr (vs, \<lparr>ser_buffer = str (fold serialize vs empty_serializer),
              ser_pos = of_nat (ser_size (fold serialize vs empty_serializer))\<rparr>)"
proof -
  let ?b = "concat (map wire vs)"
  have "list_all2 (\<lambda>v t. codec wire (deserialize t) (\<lambda>x. x = v)) vs ts"
    using assms(1,2) by (intro codec_fields codec_value)
  from deserialize_all_cursor [OF this, of "[]" "[]"] show ?thesis
    using assms(3) str_fold_serialize [of vs]
    by (simp add: ser_size_def cursor_serializer_of str_def cursor_def)
qed

theorem serializer_roundtrip_witness:
  "deserialize_all [TStr, TSeq TU16] (serializer_of (str (fold serialize
      [VStr [65, 66], VSeq [VU16 7, VU16 515]] empty_serializer))) =
   Inr ([VStr [65, 66], VSeq [VU16 7, VU16 515]],
     \<lparr>ser_buffer = str (fold serialize [VStr [65, 66], VSeq [VU16 7, VU16 515]] empty_serializer),
      ser_pos = of_nat (ser_size (fold serialize [VStr [65, 66], VSeq [VU16 7, VU16 515]] empty_serializer))\<rparr>)"
  by (rule serializer_roundtrip)
    (simp_all add: ser_size_def serialize_arith_def serialize_string_def append_bytes_def
      empty_serializer_def)

text \<open>
  Claim C25. Reading is sound and canonical: whatever bytes arrive, if a read at a type
  succeeds then the result is a value of that type and the bytes consumed are exactly the
  serialized form of that value.
\<close>

theorem deserialize_canonical:
  assumes "length data < 2 ^ 31" "deserialize t (serializer_of data) = Inr (v, s')"
  shows "has_type v t \<and>
    (\<exists>post. data = str (serialize v empty_serializer) @ post \<and>
       s' = \<lparr>ser_buffer = data, ser_pos = of_nat (length data - length post)\<rparr>)"
proof -
  from assms have "length ([] @ data) < 2 ^ 31" "deserialize t (cursor [] data) = Inr (v, s')"
    by (simp_all add: cursor_serializer_of)
  from readsE [OF reads_value this(2,1)] obtain post
    where "has_type v t" "data = wire v @ post" "s' = cursor ([] @ wire v) post"
    by metis
  then show ?thesis
    by (auto simp: serialize_image str_def append_bytes_def empty_serializer_def cursor_def)
qed

theorem deserialize_canonical_witness:
  "has_type (VU16 513) TU16 \<and>
    (\<exists>post. [1, 2, 3] = str (serialize (VU16 513) empty_serializer) @ post \<and>
       serializer_of [1, 2, 3]\<lparr>ser_pos := 2\<rparr> =
         \<lparr>ser_buffer = [1, 2, 3], ser_pos = of_nat (length [1 :: byte, 2, 3] - length post)\<rparr>)"
proof (rule deserialize_canonical)
  show "deserialize TU16 (serializer_of [1, 2, 3]) = Inr (VU16 513, serializer_of [1, 2, 3]\<lparr>ser_pos := 2\<rparr>)"
    by (simp add: deserialize_arith_def read_bytes_def serializer_of_def)
qed simp

text \<open>
  The encoding is prefix-free: two values of the same type whose serialized
  forms start the same byte stream are equal, and so is what follows them.
\<close>

theorem serialize_prefix_free:
  assumes "has_type v t" "has_type w t" "instantiable t"
    and "str (serialize v empty_serializer) @ p = str (serialize w empty_serializer) @ q"
    and "length (str (serialize v empty_serializer) @ p) < 2 ^ 31"
  shows "v = w \<and> p = q"
  using assms value_codec.enc_prefix_free [of v t w p q]
  by (simp add: serialize_image str_def append_bytes_def empty_serializer_def)

theorem serialize_prefix_free_witness:
  "VU8 5 = VU8 5 \<and> [6 :: byte] = [6]"
proof (rule serialize_prefix_free [where t = TU8])
  show "length (str (serialize (VU8 5) empty_serializer) @ [6]) < 2 ^ 31"
    by (simp add: str_def serialize_arith_def append_bytes_def empty_serializer_def)
qed simp_all

end
