(* ===== verification/Rpc.thy ===== *)
theory Rpc
  imports Serializer Io_Awaiter
begin

text \<open>
  Remote procedure calls: \<open>luce/net/rpc/rpc_value.h\<close>, \<open>invoke_helper.h\<close>, \<open>rpc_server.h\<close>,
  \<open>rpc_client.h\<close> and \<open>rpc_err_code.h\<close>.

  A bound function is application code: its parameter types and a function on argument
  values. A function that returns \<open>void\<close> makes \<open>call_helper\<close> run off the end of a function
  with a result, the error \<open>MissingReturn\<close>. Names are byte strings; \<open>Bind\<close> takes the C
  string of its name. The blocking client makes its system calls directly; their results
  are traces as in the awaiters.
\<close>

datatype rpc_error = Ser ser_error | Stop net_stop | MissingReturn

definition RPC_SUCCECC :: u16 where "RPC_SUCCECC = 0"
definition RPC_ERR_FUNCTION_NOT_FOUND :: u16 where "RPC_ERR_FUNCTION_NOT_FOUND = 1"
definition RPC_ERR_RECV_TIMEOUT :: u16 where "RPC_ERR_RECV_TIMEOUT = 2"

section \<open>Responses\<close>

record rpc_response =
  err_code :: u16
  err_msg :: bytes
  detail_value :: val

definition response_value :: "rpc_response \<Rightarrow> val" where
  "response_value r = VObj [VU16 (err_code r), VStr (err_msg r), detail_value r]"

definition response_serialize :: "rpc_response \<Rightarrow> serializer \<Rightarrow> serializer" where
  "response_serialize r s = serialize (response_value r) s"

definition response_deserialize :: "ty \<Rightarrow> serializer \<Rightarrow> ser_error + rpc_response \<times> serializer" where
  "response_deserialize t s =
     try_bind (deserialize_arith s) (\<lambda>(code, s1).
     try_bind (deserialize_string s1) (\<lambda>(msg, s2).
     try_bind (deserialize t s2) (\<lambda>(v, s3).
       Inr (\<lparr>err_code = code, err_msg = msg, detail_value = v\<rparr>, s3))))"

definition lift_ser :: "ser_error + 'a \<Rightarrow> rpc_error + 'a" where
  "lift_ser r = (case r of Inl e \<Rightarrow> Inl (Ser e) | Inr x \<Rightarrow> Inr x)"

definition lift_net :: "net_stop + 'a \<Rightarrow> rpc_error + 'a" where
  "lift_net r = (case r of Inl e \<Rightarrow> Inl (Stop e) | Inr x \<Rightarrow> Inr x)"

section \<open>The server\<close>

datatype rpc_func = Returns "ty list" "val list \<Rightarrow> val" | ReturnsVoid "ty list"

type_synonym handlers = "bytes \<rightharpoonup> rpc_func"

definition c_string :: "bytes \<Rightarrow> bytes" where
  "c_string bs = takeWhile (\<lambda>b. b \<noteq> 0) bs"

definition Bind :: "bytes \<Rightarrow> rpc_func \<Rightarrow> handlers \<Rightarrow> handlers" where
  "Bind name func hs = hs(c_string name \<mapsto> func)"

text \<open>\<open>invoke\<close> and \<open>call_helper\<close>: the call itself.\<close>

definition call_helper :: "rpc_func \<Rightarrow> val list \<Rightarrow> rpc_error + val" where
  "call_helper func args = (case func of Returns _ f \<Rightarrow> Inr (f args) | ReturnsVoid _ \<Rightarrow> Inl MissingReturn)"

fun param_types :: "rpc_func \<Rightarrow> ty list" where
  "param_types (Returns ts f) = ts"
| "param_types (ReturnsVoid ts) = ts"

definition CallProxy :: "rpc_func \<Rightarrow> serializer \<Rightarrow> serializer \<Rightarrow> rpc_error + serializer" where
  "CallProxy func input output =
     try_bind (lift_ser (deserialize_all (param_types func) input)) (\<lambda>(args, _).
     try_bind (call_helper func args) (\<lambda>res.
       Inr (response_serialize \<lparr>err_code = RPC_SUCCECC, err_msg = [], detail_value = res\<rparr> output)))"

definition not_bound :: "bytes \<Rightarrow> bytes" where
  "not_bound name = bytes_of_string ''function not bind: '' @ name"

definition CallImpl :: "handlers \<Rightarrow> bytes \<Rightarrow> serializer \<Rightarrow> rpc_error + serializer" where
  "CallImpl hs name input = (case hs name of
     None \<Rightarrow> Inr (serialize (VStr (not_bound name)) (serialize (VU16 RPC_ERR_FUNCTION_NOT_FOUND) empty_serializer))
   | Some func \<Rightarrow> CallProxy func input empty_serializer)"

definition serve_packet :: "handlers \<Rightarrow> bytes \<Rightarrow> rpc_error + bytes" where
  "serve_packet hs buffer =
     try_bind (lift_ser (deserialize_string (serializer_of buffer))) (\<lambda>(func_name, s).
     try_bind (CallImpl hs func_name s) (\<lambda>out. Inr (str out)))"

record ('h, 'k) rpc_conn =
  r_reads :: "bytes sys list"
  r_writes :: "nat sys list"
  r_wire :: bytes
  r_conn :: "('h, 'k) tcp_connection"

definition rpc_SendResponse :: "'k ctl \<Rightarrow> 'h \<Rightarrow> bytes \<Rightarrow> ('h, 'k) writer \<Rightarrow> rpc_error + ('h, 'k) writer" where
  "rpc_SendResponse ctl h reply io = try_bind (lift_net (AsyncWritePacket ctl h reply io)) (\<lambda>(_, io'). Inr io')"

text \<open>One round of \<open>OnRequest\<close>; the flag tells whether the loop goes on.\<close>

definition rpc_round :: "'k ctl \<Rightarrow> 'h \<Rightarrow> bytes \<Rightarrow> handlers \<Rightarrow> ('h, 'k) rpc_conn \<Rightarrow> rpc_error + bool \<times> ('h, 'k) rpc_conn" where
  "rpc_round ctl h junk hs st =
     try_bind (lift_net (AsyncReadPacket ctl h junk [] (r_reads st, r_conn st))) (\<lambda>((succ, buffer), tr, c).
     if \<not> succ then Inr (False, st\<lparr>r_reads := tr, r_conn := c\<rparr>)
     else try_bind (serve_packet hs buffer) (\<lambda>reply.
       try_bind (rpc_SendResponse ctl h reply (r_writes st, r_wire st, c)) (\<lambda>(wtr, sent, c').
         Inr (True, st\<lparr>r_reads := tr, r_writes := wtr, r_wire := sent, r_conn := c'\<rparr>))))"

text \<open>The loop itself; \<open>None\<close> is a loop that never ends.\<close>

partial_function (option) rpc_OnRequest ::
  "'k ctl \<Rightarrow> 'h \<Rightarrow> bytes \<Rightarrow> handlers \<Rightarrow> ('h, 'k) rpc_conn \<Rightarrow> (rpc_error + ('h, 'k) rpc_conn) option"
where
  "rpc_OnRequest ctl h junk hs st = (case rpc_round ctl h junk hs st of
     Inl e \<Rightarrow> Some (Inl e)
   | Inr p \<Rightarrow> if fst p then rpc_OnRequest ctl h junk hs (snd p) else Some (Inr (snd p)))"

section \<open>The blocking client\<close>

text \<open>
  The constructor: up to 50 attempts to connect the non-blocking socket, given by their
  results. The result is the member \<open>client_fd_\<close>, whether or not an attempt succeeded.
\<close>

datatype connect_result = Connected | InProgress | ConnectError

fun connect_loop :: "nat \<Rightarrow> connect_result list \<Rightarrow> net_stop + connect_result list" where
  "connect_loop 0 tr = Inr tr"
| "connect_loop (Suc retry_times) [] = Inl Suspended"
| "connect_loop (Suc retry_times) (r # tr) = (case r of
     Connected \<Rightarrow> Inr tr
   | InProgress \<Rightarrow> connect_loop retry_times tr
   | ConnectError \<Rightarrow> Inl Fatal)"

definition BlockingRpcClient :: "int \<Rightarrow> connect_result list \<Rightarrow> net_stop + int" where
  "BlockingRpcClient fd tr = try_bind (connect_loop 50 tr) (\<lambda>_. Inr fd)"

definition destroy_client :: "(int \<Rightarrow> 'k \<Rightarrow> 'k) \<Rightarrow> int \<Rightarrow> 'k \<Rightarrow> 'k" where
  "destroy_client close_fd fd k = (if fd \<noteq> - 1 then close_fd fd k else k)"

definition call_request :: "bytes \<Rightarrow> val list \<Rightarrow> bytes" where
  "call_request name args = str (serialize (VTup args) (serialize (VStr name) empty_serializer))"

text \<open>\<open>WritePacket\<close>: the result, as \<open>size_t\<close> with -1 for the failed header, and the bytes sent.\<close>

fun write_rest :: "nat \<Rightarrow> nat \<Rightarrow> bytes \<Rightarrow> nat sys list \<Rightarrow> bytes \<Rightarrow> net_stop + int \<times> nat sys list \<times> bytes" where
  "write_rest left already buf tr sent =
     (if left = 0 then Inr (int already, tr, sent)
      else case tr of
        [] \<Rightarrow> Inl Suspended
      | Ret n # tr' \<Rightarrow>
          if n = 0 then Inr (int already, tr', sent)
          else write_rest (left - n) (already + n) buf tr' (sent @ take n (take left (drop already buf)))
      | Err e # tr' \<Rightarrow> if retry e then write_rest left already buf tr' sent else Inr (int already, tr', sent))"

declare write_rest.simps [simp del]

definition WritePacket :: "bytes \<Rightarrow> nat sys list \<Rightarrow> bytes \<Rightarrow> net_stop + int \<times> nat sys list \<times> bytes" where
  "WritePacket buf tr sent =
     (let head = le_bytes (of_nat (length buf) :: u32) in
      case tr of
        [] \<Rightarrow> Inl Suspended
      | Err _ # tr' \<Rightarrow> Inr (- 1, tr', sent)
      | Ret n # tr' \<Rightarrow> if n = 0 then Inr (- 1, tr', sent) else write_rest (length buf) 0 buf tr' (sent @ take n head))"

text \<open>The server has the same function for any descriptor; \<open>wires\<close> has the bytes written to each.\<close>

definition server_WritePacket :: "int \<Rightarrow> bytes \<Rightarrow> nat sys list \<Rightarrow> (int \<Rightarrow> bytes) \<Rightarrow> net_stop + int \<times> nat sys list \<times> (int \<Rightarrow> bytes)" where
  "server_WritePacket fd buf tr wires =
     (let head = le_bytes (of_nat (length buf) :: u32) in
      case tr of
        [] \<Rightarrow> Inl Suspended
      | Err _ # tr' \<Rightarrow> Inr (- 1, tr', wires)
      | Ret n # tr' \<Rightarrow>
          if n = 0 then Inr (- 1, tr', wires)
          else try_bind (write_rest (length buf) 0 buf tr' (wires fd @ take n head)) (\<lambda>(res, tr'', sent).
            Inr (res, tr'', wires(fd := sent))))"

text \<open>\<open>ReadPacket\<close>: each header read goes to the start of the header buffer, and a closed
  connection (an empty read) does not end the loop.\<close>

fun read_head :: "nat \<Rightarrow> bytes \<Rightarrow> bytes sys list \<Rightarrow> net_stop + bytes option \<times> bytes sys list" where
  "read_head got head tr =
     (if got = HEADER_SIZE then Inr (Some head, tr)
      else case tr of
        [] \<Rightarrow> Inl Suspended
      | Ret bs # tr' \<Rightarrow> read_head (got + length bs) (overwrite head 0 bs) tr'
      | Err e # tr' \<Rightarrow> if retry e then read_head got head tr' else Inr (None, tr'))"

declare read_head.simps [simp del]

fun read_rest :: "nat \<Rightarrow> nat \<Rightarrow> bytes \<Rightarrow> bytes sys list \<Rightarrow> net_stop + (bytes \<times> nat) \<times> bytes sys list" where
  "read_rest left already buf tr =
     (if left = 0 then Inr ((resize already buf, already), tr)
      else case tr of
        [] \<Rightarrow> Inl Suspended
      | Ret bs # tr' \<Rightarrow>
          if bs = [] then Inr ((resize already buf, already), tr')
          else read_rest (left - length bs) (already + length bs) (overwrite buf already bs) tr'
      | Err e # tr' \<Rightarrow> if retry e then read_rest left already buf tr' else Inr ((resize already buf, already), tr'))"

declare read_rest.simps [simp del]

definition ReadPacket :: "bytes \<Rightarrow> bytes sys list \<Rightarrow> net_stop + (bytes \<times> int) \<times> bytes sys list" where
  "ReadPacket junk tr =
     try_bind (read_head 0 junk tr) (\<lambda>(head, tr'). case head of
       None \<Rightarrow> Inr (([], - 1), tr')
     | Some hb \<Rightarrow>
         let total_read_size = unat (le_word (take HEADER_SIZE hb) :: u32) in
         try_bind (read_rest total_read_size 0 (resize total_read_size []) tr') (\<lambda>((buf, n), tr''). Inr ((buf, int n), tr'')))"

text \<open>\<open>NetCall\<close>: \<open>last_err\<close> is the member \<open>err_code_\<close>. The results of the packet functions are
  \<open>size_t\<close>, so the tests for negative results never hold. A failed send ends the process.\<close>

definition NetCall :: "ty \<Rightarrow> val \<Rightarrow> bytes \<Rightarrow> bytes \<Rightarrow> int \<Rightarrow> nat sys list \<Rightarrow> bytes sys list \<Rightarrow>
    rpc_error + rpc_response \<times> int \<times> bytes" where
  "NetCall t fresh junk request last_err wtr rtr =
     try_bind (if last_err \<noteq> uint RPC_ERR_RECV_TIMEOUT
               then try_bind (lift_net (WritePacket request wtr [])) (\<lambda>(res, _, sent).
                 if res \<noteq> int (length request) then Inl (Stop Fatal) else Inr sent)
               else Inr []) (\<lambda>sent.
     try_bind (lift_net (ReadPacket junk rtr)) (\<lambda>((reply, recv_res), _).
     if recv_res = 0
     then Inr (\<lparr>err_code = RPC_ERR_RECV_TIMEOUT, err_msg = bytes_of_string ''recv timeout'', detail_value = fresh\<rparr>,
               uint RPC_ERR_RECV_TIMEOUT, sent)
     else try_bind (lift_ser (response_deserialize t (serializer_of reply))) (\<lambda>(value, _).
       Inr (value, uint RPC_SUCCECC, sent))))"

section \<open>Lemmas\<close>

lemma lift_simps [simp]:
  "lift_ser (Inr x) = Inr x" "lift_ser (Inl e) = Inl (Ser e)" "lift_net (Inr x) = Inr x" "lift_net (Inl n) = Inl (Stop n)"
  by (simp_all add: lift_ser_def lift_net_def)

interpretation binds: key_table "\<lambda>name. 0 \<notin> set name" Bind "\<lambda>hs name. hs name"
proof
  fix k k' :: bytes and v :: rpc_func and t :: handlers
  assume "0 \<notin> set k"
  then have "c_string k = k" by (auto simp: c_string_def takeWhile_eq_all_conv)
  then show "(Bind k v t) k' = (if k' = k then Some v else t k')" by (simp add: Bind_def)
qed

lemma u16_bytes [simp]: "le_bytes (w :: u16) \<noteq> []"
  by (simp flip: length_0_conv)

lemma call_request_eq: "call_request name args = wire (VStr name) @ wire (VTup args)"
  by (simp add: call_request_def serialize_image str_def append_bytes_def empty_serializer_def)

lemma deserialize_all_args:
  assumes "list_all2 has_type args ts" "\<forall>t \<in> set ts. instantiable t" "length (pre @ wire (VTup args)) < 2 ^ 31"
  shows "deserialize_all ts (cursor pre (wire (VTup args))) = Inr (args, cursor (pre @ wire (VTup args)) [])"
proof -
  have "deserialize (TTup ts) (cursor pre (wire (VTup args) @ [])) = Inr (VTup args, cursor (pre @ wire (VTup args)) [])"
    using value_codec.dec_enc [of "VTup args" "TTup ts" pre "[]"] assms by simp
  then show ?thesis by (auto simp: try_bind_eq_Inr)
qed

lemma response_roundtrip:
  assumes "has_type v t" "instantiable t" "length msg < 2 ^ 64"
    and "r = \<lparr>err_code = c, err_msg = msg, detail_value = v\<rparr>" "length (wire (response_value r)) < 2 ^ 31"
  shows "\<exists>s. response_deserialize t (serializer_of (wire (response_value r))) = Inr (r, s)"
proof -
  let ?a = "le_bytes c" and ?b = "wire (VStr msg)" and ?v = "wire v"
  have s: "serializer_of (wire (response_value r)) = cursor [] (?a @ ?b @ ?v)"
    using assms(4) by (simp add: response_value_def serializer_of_def cursor_def)
  have len: "length (?a @ ?b @ ?v) < 2 ^ 31" using assms(4,5) by (simp add: response_value_def)
  have "deserialize_arith (cursor [] (?a @ ?b @ ?v)) = Inr (c, cursor ?a (?b @ ?v))"
    using deserialize_arith_cursor [of "[]" c "?b @ ?v"] len by simp
  moreover have "deserialize_string (cursor ?a (?b @ ?v)) = Inr (msg, cursor (?a @ ?b) ?v)"
    using string_codec.dec_enc [of msg ?a ?v] assms(3) len by simp
  moreover have "deserialize t (cursor (?a @ ?b) ?v) = Inr (v, cursor ((?a @ ?b) @ ?v) [])"
    using value_codec.dec_enc [of v t "?a @ ?b" "[]"] assms(1,2) len by simp
  ultimately show ?thesis using s assms(4) by (simp add: response_deserialize_def)
qed

lemma serve_packet_bound:
  assumes "hs name = Some (Returns ts f)" "list_all2 has_type args ts" "\<forall>t \<in> set ts. instantiable t"
    and "length (call_request name args) < 2 ^ 31"
  shows "serve_packet hs (call_request name args) =
    Inr (wire (response_value \<lparr>err_code = RPC_SUCCECC, err_msg = [], detail_value = f args\<rparr>))"
proof -
  let ?n = "wire (VStr name)" and ?a = "wire (VTup args)"
  have s: "serializer_of (call_request name args) = cursor [] (?n @ ?a)"
    by (simp only: call_request_eq serializer_of_def cursor_def) simp
  have len: "length (?n @ ?a) < 2 ^ 31" using assms(4) by (simp only: call_request_eq)
  then have "length name < 2 ^ 64" by simp
  then have "deserialize_string (cursor [] (?n @ ?a)) = Inr (name, cursor ?n ?a)"
    using string_codec.dec_enc [of name "[]" ?a] len by simp
  moreover have "deserialize_all ts (cursor ?n ?a) = Inr (args, cursor (?n @ ?a) [])"
    using deserialize_all_args [OF assms(2,3), of ?n] len by simp
  ultimately show ?thesis
    using assms(1) s
    by (simp add: serve_packet_def CallImpl_def CallProxy_def call_helper_def response_serialize_def serialize_image
        str_def append_bytes_def empty_serializer_def)
qed

text \<open>The client's transfers over fair traces.\<close>

definition framed :: "bytes \<Rightarrow> bytes" where
  "framed bs = le_bytes (of_nat (length bs) :: u32) @ bs"

lemma framed_parts [simp]:
  "take HEADER_SIZE (framed bs) = le_bytes (of_nat (length bs) :: u32)" "drop HEADER_SIZE (framed bs) = bs"
  by (simp_all add: framed_def HEADER_SIZE_def)

lemma write_rest_fair:
  assumes "fair tr" "0 \<notin> set (oks tr)" "sum_list (oks tr) = left" "length buf = already + left"
  shows "write_rest left already buf tr sent = Inr (int (already + left), [], sent @ drop already buf)"
  using assms
proof (induction tr arbitrary: left already sent)
  case Nil
  then show ?case by (simp add: write_rest.simps)
next
  case (Cons r tr)
  from fair_next [OF Cons.prems(1)] have f: "fair tr" by simp
  show ?case
  proof (cases r)
    case (Ret n)
    then have n: "0 < n" "sum_list (oks tr) = left - n" "n \<le> left" "0 \<notin> set (oks tr)" using Cons.prems by auto
    have "take n (take left (drop already buf)) @ drop (already + n) buf = drop already buf"
      using n(3) by (simp add: min_def add.commute [of already] flip: drop_drop)
    moreover have "length buf = (already + n) + (left - n)" using Cons.prems(4) n(3) by simp
    ultimately show ?thesis
      using Cons.IH [OF f n(4,2), of "already + n" "sent @ take n (take left (drop already buf))"] n Ret
      by (simp add: write_rest.simps [of left])
  next
    case (Err e)
    then have "retry e" "tr \<noteq> []" using fair_Err Cons.prems(1) by blast+
    moreover have "left \<noteq> 0"
      using Cons.prems(2,3) Err oks_fair_Nil [OF f] \<open>tr \<noteq> []\<close> by (cases "oks tr") auto
    ultimately show ?thesis using Cons.IH [OF f, of left already sent] Cons.prems Err
      by (simp add: write_rest.simps [of left already buf "_ # _"])
  qed
qed

lemma read_head_fair:
  assumes "fair tr" "oks tr = [bs]" "length bs = HEADER_SIZE"
  shows "read_head 0 junk (tr @ rest) = Inr (Some (overwrite junk 0 bs), rest)"
  using assms
proof (induction tr)
  case (Cons r tr)
  from fair_next [OF Cons.prems(1)] have f: "fair tr" by simp
  show ?case
  proof (cases r)
    case (Ret x)
    then have "tr = []" using Cons.prems oks_fair_Nil [OF f] by simp
    then show ?thesis using Ret Cons.prems by (simp add: read_head.simps HEADER_SIZE_def)
  next
    case (Err e)
    then show ?thesis using fair_Err [of e tr] Cons f by (simp add: read_head.simps [of 0] HEADER_SIZE_def)
  qed
qed simp

lemma read_rest_fair:
  assumes "fair tr" "[] \<notin> set (oks tr)" "length (concat (oks tr)) = left" "length buf = already + left"
  shows "read_rest left already buf tr = Inr ((take already buf @ concat (oks tr), already + left), [])"
  using assms
proof (induction tr arbitrary: left already buf)
  case Nil
  then show ?case by (simp add: read_rest.simps resize_def)
next
  case (Cons r tr)
  from fair_next [OF Cons.prems(1)] have f: "fair tr" by simp
  show ?case
  proof (cases r)
    case (Ret bs)
    then have n: "bs \<noteq> []" "length (concat (oks tr)) = left - length bs" "length bs \<le> left" "[] \<notin> set (oks tr)"
      using Cons.prems by auto
    have "length (overwrite buf already bs) = (already + length bs) + (left - length bs)"
      and "take (already + length bs) (overwrite buf already bs) = take already buf @ bs"
      using Cons.prems(4) n(3) by (simp_all add: overwrite_def)
    moreover have "0 < left" using n(1,3) by (cases bs) auto
    ultimately show ?thesis
      using Cons.IH [OF f n(4,2), of "overwrite buf already bs" "already + length bs"] n Ret
      by (simp add: read_rest.simps [of left])
  next
    case (Err e)
    then have "retry e" "tr \<noteq> []" using fair_Err Cons.prems(1) by blast+
    moreover have "left \<noteq> 0"
      using Cons.prems(2,3) Err oks_fair_Nil [OF f] \<open>tr \<noteq> []\<close> by (cases "oks tr") auto
    ultimately show ?thesis using Cons.IH [OF f, of left buf already] Cons.prems Err
      by (simp add: read_rest.simps [of left already buf "_ # _"])
  qed
qed

lemma WritePacket_fair:
  assumes "fair tr" "0 \<notin> set (oks tr)" "sum_list (oks tr) = length buf"
  shows "WritePacket buf (Ret HEADER_SIZE # tr) sent = Inr (int (length buf), [], sent @ framed buf)"
  using write_rest_fair [OF assms, of buf 0 "sent @ le_bytes (of_nat (length buf) :: u32)"]
  by (simp add: WritePacket_def HEADER_SIZE_def framed_def)

lemma server_WritePacket_eq:
  "server_WritePacket fd buf tr wires = try_bind (WritePacket buf tr (wires fd)) (\<lambda>(res, tr', sent). Inr (res, tr', wires(fd := sent)))"
  by (simp add: server_WritePacket_def WritePacket_def Let_def split: list.splits sys.splits)

lemma ReadPacket_fair:
  assumes "fair ht" "oks ht = [take HEADER_SIZE (framed buf)]" "length buf < 2 ^ 32"
    and "fair tr" "[] \<notin> set (oks tr)" "concat (oks tr) = buf"
  shows "ReadPacket junk (ht @ tr) = Inr ((buf, int (length buf)), [])"
proof -
  let ?h = "le_bytes (of_nat (length buf) :: u32)"
  have "read_head 0 junk (ht @ tr) = Inr (Some (overwrite junk 0 ?h), tr)"
    using read_head_fair [OF assms(1), of ?h] assms(2) by (simp add: HEADER_SIZE_def framed_def)
  moreover have "take HEADER_SIZE (overwrite junk 0 ?h) = ?h" by (simp add: overwrite_def HEADER_SIZE_def)
  moreover have "unat (of_nat (length buf) :: u32) = length buf" using assms(3) by (simp add: unat_of_nat)
  moreover have "read_rest (length buf) 0 (resize (length buf) []) tr = Inr ((buf, length buf), [])"
    using read_rest_fair [OF assms(4,5), of "length buf" "resize (length buf) []" 0] assms(6) by (simp add: resize_def)
  ultimately show ?thesis by (simp add: ReadPacket_def Let_def)
qed

section \<open>Properties\<close>

text \<open>A trace that takes all of \<open>n\<close> bytes, and one that brings exactly the bytes \<open>bs\<close>.\<close>

definition takes_all :: "nat \<Rightarrow> nat sys list \<Rightarrow> bool" where
  "takes_all n tr \<longleftrightarrow> fair tr \<and> 0 \<notin> set (oks tr) \<and> sum_list (oks tr) = n"

definition brings :: "bytes \<Rightarrow> bytes sys list \<Rightarrow> bool" where
  "brings bs tr \<longleftrightarrow> fair tr \<and> [] \<notin> set (oks tr) \<and> concat (oks tr) = bs"

lemma NetCall_reply:
  assumes "last_err \<noteq> uint RPC_ERR_RECV_TIMEOUT" "takes_all (length request) cw"
    and "fair ch" "oks ch = [take HEADER_SIZE (framed reply)]" "brings reply cr" "length reply < 2 ^ 32" "reply \<noteq> []"
  shows "NetCall t fresh junk request last_err (Ret HEADER_SIZE # cw) (ch @ cr) =
    try_bind (lift_ser (response_deserialize t (serializer_of reply))) (\<lambda>(value, _).
      Inr (value, uint RPC_SUCCECC, framed request))"
proof -
  have "WritePacket request (Ret HEADER_SIZE # cw) [] = Inr (int (length request), [], framed request)"
    using WritePacket_fair [of cw request "[]"] assms(2) by (simp add: takes_all_def)
  moreover have "ReadPacket junk (ch @ cr) = Inr ((reply, int (length reply)), [])"
    using ReadPacket_fair [OF assms(3,4,6)] assms(5) by (simp add: brings_def)
  ultimately show ?thesis using assms(1,7) by (simp add: NetCall_def)
qed

lemma rpc_round_reply:
  assumes "serve_packet hs request = Inr reply" "length request < 2 ^ 32" "length reply < 2 ^ 32"
    and "conn_inv ctl kclose interest (r_conn st)"
    and "r_reads st = rhd @ rtr @ rrest" "one_call (take HEADER_SIZE (framed request)) rhd" "brings request rtr"
    and "r_writes st = whd @ wtr @ wrest" "one_call HEADER_SIZE whd" "takes_all (length reply) wtr"
  shows "\<exists>c. rpc_round ctl h junk hs st =
      Inr (True, st\<lparr>r_reads := rrest, r_writes := wrest, r_wire := r_wire st @ framed reply, r_conn := c\<rparr>) \<and>
    conn_inv ctl kclose interest c"
proof -
  obtain c1 where 1: "AsyncReadPacket ctl h junk [] (rhd @ rtr @ rrest, r_conn st) = Inr ((True, request), rrest, c1)"
    "conn_inv ctl kclose interest c1"
    using AsyncReadPacket_data [OF assms(4) _ assms(2)] assms(6,7) unfolding brings_def framed_parts by blast
  obtain c2 where "AsyncWritePacket ctl h reply (whd @ wtr @ wrest, r_wire st, c1) = Inr (True, wrest, r_wire st @ framed reply, c2)"
    "conn_inv ctl kclose interest c2"
    using AsyncWritePacket_wire [OF 1(2) assms(9,3)] assms(10) unfolding takes_all_def framed_def by blast
  then show ?thesis using 1 assms(1,5,8) by (auto simp: rpc_round_def rpc_SendResponse_def)
qed

lemma response_image: "str (response_serialize r empty_serializer) = wire (response_value r)"
  by (simp add: response_serialize_def serialize_image str_def append_bytes_def empty_serializer_def)

text \<open>
  Claim C1. A remote call returns what the bound function returns. The client's request
  goes through any fair sequence of short writes, the server reads it,
  calls the function bound to the name on the arguments and frames its reply, and the
  client reads the reply: the value the caller gets is the function's
  result with code 0, the client's error state is cleared and the server goes on serving.
  The bodies of the two packets may be fragmented in any way, with waits and interrupted calls in
  between; each of the two four-byte headers has to go through in one call at either end, since
  the code does not look at how much of a header was transferred. The client's member \<open>err_code_\<close>,
  which its constructor does not set, must not hold the time-out code.
\<close>

theorem rpc_call_correct:
  assumes bound: "hs name = Some (Returns ts f)"
    and typed: "list_all2 has_type args ts" "\<forall>t \<in> set ts. instantiable t" "has_type (f args) t" "instantiable t"
    and request: "request = call_request name args" "length request < 2 ^ 31"
    and reply: "reply = str (response_serialize \<lparr>err_code = 0, err_msg = [], detail_value = f args\<rparr> empty_serializer)"
      "length reply < 2 ^ 31"
    and server: "conn_inv ctl kclose interest (r_conn st)"
      "r_reads st = rhd @ rtr @ rrest" "one_call (take HEADER_SIZE (framed request)) rhd" "brings request rtr"
      "r_writes st = whd @ wtr @ wrest" "one_call HEADER_SIZE whd" "takes_all (length reply) wtr"
    and client: "last_err \<noteq> uint RPC_ERR_RECV_TIMEOUT" "takes_all (length request) cw"
      "fair ch" "oks ch = [take HEADER_SIZE (framed reply)]" "brings reply cr"
  shows "(\<exists>st'. rpc_round ctl h junk hs st = Inr (True, st') \<and> r_wire st' = r_wire st @ framed reply \<and>
      conn_inv ctl kclose interest (r_conn st')) \<and>
    NetCall t fresh junk' request last_err (Ret HEADER_SIZE # cw) (ch @ cr) =
      Inr (\<lparr>err_code = 0, err_msg = [], detail_value = f args\<rparr>, 0, framed request)"
proof
  let ?r = "\<lparr>err_code = 0, err_msg = [], detail_value = f args\<rparr>"
  have reply': "reply = wire (response_value ?r)" using reply(1) by (simp only: response_image)
  have serve: "serve_packet hs request = Inr reply"
    using serve_packet_bound [of hs name ts f args] bound typed(1,2) request reply' by (simp add: RPC_SUCCECC_def)
  from rpc_round_reply [OF serve _ _ server] request(2) reply(2)
  show "\<exists>st'. rpc_round ctl h junk hs st = Inr (True, st') \<and> r_wire st' = r_wire st @ framed reply \<and>
      conn_inv ctl kclose interest (r_conn st')" by fastforce
  obtain s where "response_deserialize t (serializer_of reply) = Inr (?r, s)"
    using response_roundtrip [OF typed(3,4) _ refl, of "[]" 0] reply(2) reply' by auto
  moreover have "reply \<noteq> []" using reply' by (simp add: response_value_def)
  ultimately show "NetCall t fresh junk' request last_err (Ret HEADER_SIZE # cw) (ch @ cr) = Inr (?r, 0, framed request)"
    using NetCall_reply [OF client] reply(2) by (simp add: RPC_SUCCECC_def)
qed

definition add16 :: "val list \<Rightarrow> val" where
  "add16 args = (case args of [VU16 a, VU16 b] \<Rightarrow> VU16 (a + b) | _ \<Rightarrow> VU16 0)"

definition example_server :: "(unit, int \<rightharpoonup> u32) rpc_conn" where
  "example_server = \<lparr>r_reads = [Err EAGAIN, Ret [15, 0, 0, 0], Ret [3, 0, 0, 0, 0, 0, 0, 0, 97, 100, 100], Ret [2, 0, 3, 0]],
     r_writes = [Ret 4, Ret 10, Ret 2], r_wire = [], r_conn = example_conn\<rparr>"

lemma example_request: "call_request [97, 100, 100] [VU16 2, VU16 3] = [3, 0, 0, 0, 0, 0, 0, 0, 97, 100, 100, 2, 0, 3, 0]"
  by (simp add: call_request_eq le_bytes_def upt_rec)

lemma example_reply:
  "str (response_serialize \<lparr>err_code = 0, err_msg = [], detail_value = VU16 5\<rparr> empty_serializer) =
    [0, 0, 0, 0, 0, 0, 0, 0, 0, 0, 5, 0]"
  by (simp add: response_image response_value_def le_bytes_def upt_rec)

theorem rpc_call_correct_witness:
  "NetCall TU16 (VU16 0) [0, 0, 0, 0] (call_request [97, 100, 100] [VU16 2, VU16 3]) 0
     (Ret HEADER_SIZE # [Ret 15]) ([Err EAGAIN, Ret [12, 0, 0, 0]] @ [Ret [0, 0, 0, 0, 0, 0, 0, 0, 0, 0], Ret [5, 0]]) =
   Inr (\<lparr>err_code = 0, err_msg = [], detail_value = VU16 5\<rparr>, 0, framed (call_request [97, 100, 100] [VU16 2, VU16 3]))"
proof -
  let ?hs = "Bind [97, 100, 100] (Returns [TU16, TU16] add16) Map.empty"
  have "c_string [97, 100, 100] = [97, 100, 100]" by (simp add: c_string_def)
  then have bound: "?hs [97, 100, 100] = Some (Returns [TU16, TU16] add16)" by (simp add: Bind_def)
  note c = rpc_call_correct [of ?hs "[97, 100, 100]" "[TU16, TU16]" add16 "[VU16 2, VU16 3]" TU16, OF bound _ _ _ _ refl _ refl _,
      where ctl = map_ctl and kclose = map_close and interest = id and st = example_server
        and rhd = "[Err EAGAIN, Ret [15, 0, 0, 0]]" and rtr = "[Ret [3, 0, 0, 0, 0, 0, 0, 0, 97, 100, 100], Ret [2, 0, 3, 0]]"
        and whd = "[Ret 4]" and wtr = "[Ret 10, Ret 2]" and rrest = "[]" and wrest = "[]" and cw = "[Ret 15]" and ch = "[Err EAGAIN, Ret [12, 0, 0, 0]]"
        and cr = "[Ret [0, 0, 0, 0, 0, 0, 0, 0, 0, 0], Ret [5, 0]]" and h = "()"]
  show ?thesis
    using c [THEN conjunct2, of 0 "VU16 0" "[0, 0, 0, 0]"] example_conn_inv
    unfolding example_request
    by (simp add: add16_def example_reply example_server_def HEADER_SIZE_def framed_def le_bytes_def upt_rec
        brings_def takes_all_def retry_def RPC_ERR_RECV_TIMEOUT_def)
qed

lemma serve_packet_unbound:
  assumes "hs name = None" "length (call_request name args) < 2 ^ 31"
  shows "serve_packet hs (call_request name args) =
    Inr (le_bytes RPC_ERR_FUNCTION_NOT_FOUND @ wire (VStr (not_bound name)))"
proof -
  let ?n = "wire (VStr name)" and ?a = "wire (VTup args)"
  have "serializer_of (call_request name args) = cursor [] (?n @ ?a)" by (simp only: call_request_eq cursor_serializer_of)
  moreover have "deserialize_string (cursor [] (?n @ ?a)) = Inr (name, cursor ?n ?a)"
    using string_codec.dec_enc [of name "[]" ?a] assms(2) call_request_eq [of name args] by simp
  ultimately show ?thesis
    using assms(1) by (simp add: serve_packet_def CallImpl_def serialize_image str_def append_bytes_def empty_serializer_def)
qed

text \<open>
  Claim C37. A call of a function that is not bound never reaches the caller as the error
  the server reports: the reply holds the code and the message and no value, and the client,
  which reads a value after them whatever the code is, runs past the end of the reply. This
  holds for every result type that the reading templates accept and whose values all take at least
  one byte. As in the other properties of the connection the bodies may be fragmented in any way,
  the header of the reply arrives in one call, and the client's \<open>err_code_\<close> is not the time-out
  code before the call.
\<close>

theorem rpc_unbound_not_reported:
  assumes "hs name = None" "length request < 2 ^ 31" "length (not_bound name) < 2 ^ 30"
    and "request = call_request name args" "instantiable t" "\<And>v. has_type v t \<Longrightarrow> str (serialize v empty_serializer) \<noteq> []"
    and "last_err \<noteq> uint RPC_ERR_RECV_TIMEOUT" "takes_all (length request) cw"
    and "serve_packet hs request = Inr reply"
    and "fair ch" "oks ch = [take HEADER_SIZE (framed reply)]" "brings reply cr"
  shows "reply = str (serialize (VObj [VU16 RPC_ERR_FUNCTION_NOT_FOUND, VStr (not_bound name)]) empty_serializer) \<and>
    NetCall t fresh junk request last_err (Ret HEADER_SIZE # cw) (ch @ cr) = Inl (Ser OutOfBounds)"
proof -
  let ?c = "le_bytes RPC_ERR_FUNCTION_NOT_FOUND" and ?m = "wire (VStr (not_bound name))"
  have reply: "reply = ?c @ ?m" using serve_packet_unbound [of hs name args] assms(1,2,4,9) by simp
  have len: "length (?c @ ?m) < 2 ^ 31" using assms(3) by simp
  have 1: "deserialize_arith (cursor [] (?c @ ?m)) = Inr (RPC_ERR_FUNCTION_NOT_FOUND, cursor ?c ?m)"
    using deserialize_arith_cursor [of "[]" RPC_ERR_FUNCTION_NOT_FOUND ?m] len by simp
  have 2: "deserialize_string (cursor ?c ?m) = Inr (not_bound name, cursor (?c @ ?m) [])"
    using string_codec.dec_enc [of "not_bound name" ?c "[]"] assms(3) len by simp
  have "deserialize t (cursor (?c @ ?m) []) = Inl OutOfBounds"
  proof (cases "deserialize t (cursor (?c @ ?m) [])")
    case (Inr p)
    then obtain v s where "deserialize t (cursor (?c @ ?m) []) = Inr (v, s)" by (cases p) auto
    then obtain post where "has_type v t" "[] = wire v @ post" by (rule readsE [OF reads_value]) (use len in auto)
    then show ?thesis using assms(6) [of v] by (simp add: serialize_image str_def append_bytes_def empty_serializer_def)
  qed (rule ser_error_cases [OF deserialize_error [OF assms(5)]])
  then show ?thesis
    using NetCall_reply [OF assms(7,8,10-12)] reply 1 2 len
    by (auto simp: response_deserialize_def cursor_serializer_of serialize_image str_def append_bytes_def empty_serializer_def)
qed

theorem rpc_unbound_not_reported_witness:
  "NetCall TU8 (VU8 0) [0, 0, 0, 0] (call_request [97] []) 0 (Ret HEADER_SIZE # [Ret 9])
     ([Ret [30, 0, 0, 0]] @
      [Ret ([1, 0, 20, 0, 0, 0, 0, 0, 0, 0] @ not_bound [97])]) = Inl (Ser OutOfBounds)"
proof -
  have rq: "call_request [97] [] = [1, 0, 0, 0, 0, 0, 0, 0, 97]" by (simp add: call_request_eq le_bytes_def upt_rec)
  have n: "length (not_bound [97]) = 20" by (simp add: not_bound_def bytes_of_string_def)
  have srv: "serve_packet Map.empty (call_request [97] []) = Inr ([1, 0, 20, 0, 0, 0, 0, 0, 0, 0] @ not_bound [97])"
    using serve_packet_unbound [of Map.empty "[97]" "[]"]
    by (simp add: rq n RPC_ERR_FUNCTION_NOT_FOUND_def le_bytes_def upt_rec)
  have ne: "has_type v TU8 \<Longrightarrow> str (serialize v empty_serializer) \<noteq> []" for v
    by (cases v) (simp_all add: serialize_arith_def append_bytes_def str_def le_bytes_def)
  show ?thesis
    using rpc_unbound_not_reported [THEN conjunct2, OF _ _ _ refl _ ne _ _ srv, of TU8 0 "[Ret 9]" "[Ret [30, 0, 0, 0]]"
        "[Ret ([1, 0, 20, 0, 0, 0, 0, 0, 0, 0] @ not_bound [97])]" "VU8 0" "[0, 0, 0, 0]"]
    by (simp add: rq n takes_all_def brings_def RPC_ERR_RECV_TIMEOUT_def framed_def HEADER_SIZE_def le_bytes_def upt_rec)
qed

text \<open>Traces that carry a sequence of packets one after the other.\<close>

fun packets_in :: "bytes list \<Rightarrow> bytes sys list \<Rightarrow> bytes sys list \<Rightarrow> bool" where
  "packets_in [] tr rest \<longleftrightarrow> tr = rest"
| "packets_in (p # ps) tr rest \<longleftrightarrow>
     (\<exists>hd body tr'. tr = hd @ body @ tr' \<and> one_call (take HEADER_SIZE (framed p)) hd \<and> brings p body \<and> packets_in ps tr' rest)"

fun packets_out :: "bytes list \<Rightarrow> nat sys list \<Rightarrow> nat sys list \<Rightarrow> bool" where
  "packets_out [] tr rest \<longleftrightarrow> tr = rest"
| "packets_out (p # ps) tr rest \<longleftrightarrow>
     (\<exists>hd body tr'. tr = hd @ body @ tr' \<and> one_call HEADER_SIZE hd \<and> takes_all (length p) body \<and> packets_out ps tr' rest)"

text \<open>
  Claim C19. Requests sent one after the other on a connection are answered one after the
  other: the loop of \<open>OnRequest\<close>, from a state in which the packets arrive and the replies
  can be sent, is the loop from the state in which exactly the framed replies have been
  written, in the order of the requests.
\<close>

theorem rpc_serves_in_order:
  assumes "list_all2 (\<lambda>rq rp. serve_packet hs rq = Inr rp \<and> length rq < 2 ^ 32 \<and> length rp < 2 ^ 32) requests replies"
    and "packets_in requests (r_reads st) rrest" "packets_out replies (r_writes st) wrest"
    and "conn_inv ctl kclose interest (r_conn st)"
  shows "\<exists>c. conn_inv ctl kclose interest c \<and> rpc_OnRequest ctl h junk hs st = rpc_OnRequest ctl h junk hs
    (st\<lparr>r_reads := rrest, r_writes := wrest, r_wire := r_wire st @ concat (map framed replies), r_conn := c\<rparr>)"
  using assms
proof (induction arbitrary: st rule: list_all2_induct)
  case Nil
  then have "st = st\<lparr>r_reads := rrest, r_writes := wrest, r_wire := r_wire st @ concat (map framed []), r_conn := r_conn st\<rparr>"
    by simp
  then show ?case using Nil(3) by metis
next
  case (Cons rq rqs rp rps)
  obtain rhd rtr rt where r: "r_reads st = rhd @ rtr @ rt" "one_call (take HEADER_SIZE (framed rq)) rhd" "brings rq rtr"
    "packets_in rqs rt rrest" using Cons.prems(1) by auto
  obtain whd wtr wt where w: "r_writes st = whd @ wtr @ wt" "one_call HEADER_SIZE whd" "takes_all (length rp) wtr"
    "packets_out rps wt wrest" using Cons.prems(2) by auto
  have rp: "serve_packet hs rq = Inr rp" "length rq < 2 ^ 32" "length rp < 2 ^ 32" using Cons.hyps(1) by auto
  obtain c where c: "conn_inv ctl kclose interest c" "rpc_round ctl h junk hs st =
      Inr (True, st\<lparr>r_reads := rt, r_writes := wt, r_wire := r_wire st @ framed rp, r_conn := c\<rparr>)"
    using rpc_round_reply [OF rp Cons.prems(3) r(1-3) w(1-3), of h junk] by blast
  let ?st = "st\<lparr>r_reads := rt, r_writes := wt, r_wire := r_wire st @ framed rp, r_conn := c\<rparr>"
  have "rpc_OnRequest ctl h junk hs st = rpc_OnRequest ctl h junk hs ?st"
    by (subst rpc_OnRequest.simps) (simp add: c)
  then show ?case using Cons.IH [of ?st] r(4) w(4) c(1) by simp
qed

theorem rpc_serves_in_order_witness:
  "\<exists>c. rpc_OnRequest map_ctl () [0, 0, 0, 0] [[97, 100, 100] \<mapsto> Returns [TU16, TU16] add16] example_server =
    rpc_OnRequest map_ctl () [0, 0, 0, 0] [[97, 100, 100] \<mapsto> Returns [TU16, TU16] add16]
     (example_server\<lparr>r_reads := [], r_writes := [],
        r_wire := r_wire example_server @ concat (map framed [[0, 0, 0, 0, 0, 0, 0, 0, 0, 0, 5, 0]]), r_conn := c\<rparr>)"
proof -
  let ?hs = "[[97, 100, 100] \<mapsto> Returns [TU16, TU16] add16]"
  let ?rq = "[3, 0, 0, 0, 0, 0, 0, 0, 97, 100, 100, 2, 0, 3, 0] :: bytes" and ?rp = "[0, 0, 0, 0, 0, 0, 0, 0, 0, 0, 5, 0] :: bytes"
  have 1: "list_all2 (\<lambda>rq rp. serve_packet ?hs rq = Inr rp \<and> length rq < 2 ^ 32 \<and> length rp < 2 ^ 32) [?rq] [?rp]"
    using serve_packet_bound [of ?hs "[97, 100, 100]" "[TU16, TU16]" add16 "[VU16 2, VU16 3]"] example_reply
    by (simp add: example_request response_image add16_def RPC_SUCCECC_def)
  have "packets_in [?rq] ([Err EAGAIN, Ret [15, 0, 0, 0]] @ [Ret [3, 0, 0, 0, 0, 0, 0, 0, 97, 100, 100], Ret [2, 0, 3, 0]] @ []) []"
    by (simp only: packets_in.simps, intro exI conjI, rule refl)
      (simp_all add: brings_def framed_def HEADER_SIZE_def le_bytes_def upt_rec)
  then have 2: "packets_in [?rq] (r_reads example_server) []" by (simp add: example_server_def)
  have "packets_out [?rp] ([Ret 4] @ [Ret 10, Ret 2] @ []) []"
    by (simp only: packets_out.simps, intro exI conjI, rule refl) (simp_all add: takes_all_def HEADER_SIZE_def)
  then have 3: "packets_out [?rp] (r_writes example_server) []" by (simp add: example_server_def)
  have "conn_inv map_ctl map_close id (r_conn example_server)" using example_conn_inv by (simp add: example_server_def)
  from rpc_serves_in_order [OF 1 2 3 this, of "()" "[0, 0, 0, 0]"] show ?thesis by blast
qed

text \<open>
  The constructor of the client ends the process when an attempt fails for another reason
  than \<open>EINPROGRESS\<close> (a repeated \<open>connect\<close> fails with \<open>EALREADY\<close>), and returns with a socket that
  is not connected after 50 attempts in progress.
\<close>

lemma client_connects:
  "n < 50 \<Longrightarrow> BlockingRpcClient fd (replicate n InProgress @ Connected # tr) = Inr fd"
  "n < 50 \<Longrightarrow> BlockingRpcClient fd (replicate n InProgress @ ConnectError # tr) = Inl Fatal"
  "BlockingRpcClient fd (replicate 50 InProgress) = Inr fd"
proof -
  have loop: "n < m \<Longrightarrow> connect_loop m (replicate n InProgress @ Connected # tr) = Inr tr \<and>
      connect_loop m (replicate n InProgress @ ConnectError # tr) = Inl Fatal" for n m
    by (induction m arbitrary: n) (auto simp: less_Suc_eq_0_disj)
  have "connect_loop m (replicate m InProgress) = Inr []" for m by (induction m) auto
  then show "BlockingRpcClient fd (replicate 50 InProgress) = Inr fd" by (simp only: BlockingRpcClient_def) simp
  show "n < 50 \<Longrightarrow> BlockingRpcClient fd (replicate n InProgress @ Connected # tr) = Inr fd"
    "n < 50 \<Longrightarrow> BlockingRpcClient fd (replicate n InProgress @ ConnectError # tr) = Inl Fatal"
    using loop [of n 50] by (simp_all only: BlockingRpcClient_def) simp_all
qed

section \<open>Requests cut short\<close>

lemma serve_packet_truncated:
  assumes "hs name = Some (Returns ts f)" "list_all2 has_type args ts" "\<forall>t \<in> set ts. instantiable t"
    and "length (call_request name args) < 2 ^ 31" "k < length (call_request name args)"
  shows "serve_packet hs (take k (call_request name args)) = Inl (Ser OutOfBounds)"
proof -
  let ?n = "wire (VStr name)" and ?a = "concat (map wire args)"
  have len: "length (?n @ ?a) < 2 ^ 31" and k: "k < length (?n @ ?a)" using assms(4,5) by (simp_all add: call_request_eq)
  then have name: "length name < 2 ^ 64" by simp
  show ?thesis
  proof (cases "k < length ?n")
    case True
    then have "\<exists>e. deserialize_string (cursor [] (take k ?n)) = Inl e"
      using string_codec.dec_truncated [of name "[]" k] name len by auto
    with ser_error_cases [OF string_error] have "deserialize_string (cursor [] (take k ?n)) = Inl OutOfBounds" by blast
    then show ?thesis
      using True by (simp add: serve_packet_def cursor_serializer_of call_request_eq del: wire.simps(5))
  next
    case False
    then have cut: "take k (call_request name args) = ?n @ take (k - length ?n) ?a" by (simp add: call_request_eq)
    have short: "k - length ?n < length ?a" using False k by simp
    have "deserialize_string (cursor [] (?n @ take (k - length ?n) ?a)) = Inr (name, cursor ?n (take (k - length ?n) ?a))"
      using string_codec.dec_enc [of name "[]"] name len by simp
    moreover have "\<exists>e. deserialize_all ts (cursor ?n (take (k - length ?n) ?a)) = Inl e"
      using values_codec.dec_truncated [of args ts ?n "k - length ?n"] assms(2,3) len short by auto
    with ser_error_cases [OF deserialize_all_error [OF assms(3)]]
    have "deserialize_all ts (cursor ?n (take (k - length ?n) ?a)) = Inl OutOfBounds" by blast
    ultimately show ?thesis
      using assms(1) cut by (simp add: serve_packet_def cursor_serializer_of CallImpl_def CallProxy_def del: wire.simps(5))
  qed
qed

text \<open>
  Claim C38. The server does not survive a request cut short: when the packet that arrives
  is any proper prefix of a well-formed call of a bound function, cut inside the name or
  inside the arguments, the loop of \<open>OnRequest\<close> ends by reading past the end of the packet;
  the function is not called and nothing is sent. The code checks neither the length of the
  packet nor the results of its reads.
\<close>

theorem truncated_request_overreads:
  assumes "hs name = Some (Returns ts f)" "list_all2 has_type args ts" "\<forall>t \<in> set ts. instantiable t"
    and "length (call_request name args) < 2 ^ 31" "k < length (call_request name args)"
    and "packet = take k (call_request name args)" "conn_inv ctl kclose interest (r_conn st)"
    and "r_reads st = rhd @ rtr @ rrest" "one_call (take HEADER_SIZE (framed packet)) rhd" "brings packet rtr"
  shows "rpc_OnRequest ctl h junk hs st = Some (Inl (Ser OutOfBounds))"
proof -
  have "length packet < 2 ^ 32" using assms(4-6) by simp
  then obtain c where "AsyncReadPacket ctl h junk [] (rhd @ rtr @ rrest, r_conn st) = Inr ((True, packet), rrest, c)"
    using AsyncReadPacket_data [OF assms(7), of packet] assms(9,10) unfolding brings_def framed_parts by blast
  then have "rpc_round ctl h junk hs st = Inl (Ser OutOfBounds)"
    using serve_packet_truncated [of hs name ts f args k, OF assms(1-5)] assms(6,8) by (simp add: rpc_round_def)
  then show ?thesis by (simp add: rpc_OnRequest.simps)
qed

theorem truncated_request_overreads_witness:
  "rpc_OnRequest map_ctl () [0, 0, 0, 0] [[97, 100, 100] \<mapsto> Returns [TU16, TU16] add16]
     (example_server\<lparr>r_reads := [Ret [13, 0, 0, 0], Ret [3, 0, 0, 0, 0, 0, 0, 0, 97, 100, 100, 2, 0]]\<rparr>) =
   Some (Inl (Ser OutOfBounds))"
proof (rule truncated_request_overreads [where name = "[97, 100, 100]" and args = "[VU16 2, VU16 3]" and k = 13
      and ts = "[TU16, TU16]" and f = add16
      and rhd = "[Ret [13, 0, 0, 0]]" and rtr = "[Ret [3, 0, 0, 0, 0, 0, 0, 0, 97, 100, 100, 2, 0]]" and rrest = "[]"
      and kclose = map_close and interest = id, OF _ _ _ _ _ refl])
  show "conn_inv map_ctl map_close id (r_conn (example_server
      \<lparr>r_reads := [Ret [13, 0, 0, 0], Ret [3, 0, 0, 0, 0, 0, 0, 0, 97, 100, 100, 2, 0]]\<rparr>))"
    using example_conn_inv by (simp add: example_server_def)
qed (simp_all add: example_request brings_def framed_def HEADER_SIZE_def le_bytes_def upt_rec)

end
