(* ===== verification/Sys_Util.thy ===== *)
theory Sys_Util
  imports Rpc
begin

text \<open>
  Small utilities: \<open>luce/net/inet_address.h\<close> with the address the RPC client builds,
  \<open>luce/common/Timestamp.{h,cpp}\<close>, the macros of \<open>luce/common/logger.h\<close> and
  \<open>luce/common/singleton.h\<close>.

  \<open>inet_addr\<close>, \<open>localtime\<close> and the functions of the logging library are parameters. A
  \<open>string_view\<close> is the text from its first character to the terminating zero byte and its
  length, because the code passes \<open>data()\<close> to C functions, which do not see the length.
\<close>

section \<open>Addresses\<close>

record sockaddr_in =
  sin_family :: nat
  sin_port :: u16
  s_addr :: u32

definition AF_INET :: nat where "AF_INET = 2"

definition htons :: "u16 \<Rightarrow> u16" where
  "htons p = push_bit 8 p OR drop_bit 8 p"

type_synonym view = "string \<times> nat"

definition view_data :: "view \<Rightarrow> string" where
  "view_data v = fst v"

definition InetAddress :: "(string \<Rightarrow> u32) \<Rightarrow> u16 \<Rightarrow> view \<Rightarrow> sockaddr_in" where
  "InetAddress inet_addr port ipv4 = \<lparr>sin_family = AF_INET, sin_port = htons port, s_addr = inet_addr (view_data ipv4)\<rparr>"

definition SetSockAddr :: "sockaddr_in \<Rightarrow> sockaddr_in \<Rightarrow> sockaddr_in" where
  "SetSockAddr a old = a"

definition GetSockAddr :: "sockaddr_in \<Rightarrow> sockaddr_in" where
  "GetSockAddr a = a"

text \<open>The address of the RPC client's constructor; the port is an \<open>int\<close>.\<close>

definition server_addr :: "(string \<Rightarrow> u32) \<Rightarrow> string \<Rightarrow> int \<Rightarrow> sockaddr_in" where
  "server_addr inet_addr server_ip server_port =
     \<lparr>sin_family = AF_INET, sin_port = htons (word_of_int server_port), s_addr = inet_addr server_ip\<rparr>"

lemma bit_htons: "bit (htons p) n \<longleftrightarrow> n < 16 \<and> (if n < 8 then bit p (n + 8) else bit p (n - 8))"
proof (cases "n < 16")
  case True
  have "bit p (n + 8) \<longleftrightarrow> False" if "8 \<le> n" using that bit_imp_le_length [of p "n + 8"] by auto
  then show ?thesis using True by (auto simp: htons_def bit_or_iff bit_push_bit_iff bit_drop_bit_eq ac_simps)
next
  case False
  then show ?thesis using bit_imp_le_length [of "htons p" n] by auto
qed

lemma htons_htons: "htons (htons p) = p"
  by (rule bit_word_eqI) (auto simp: bit_htons)

text \<open>On the little-endian host the stored port is in network order.\<close>

lemma htons_bytes: "le_bytes (htons p) = rev (le_bytes p)"
proof -
  have "[0..<2] = [0, 1 :: nat]" by (simp add: upt_rec)
  then show ?thesis
    by (simp add: le_bytes_def, intro conjI; intro bit_word_eqI)
      (auto simp: bit_ucast_iff bit_drop_bit_eq bit_htons ac_simps dest: bit_imp_le_length)
qed

text \<open>
  Client and server mean the same endpoint: for a port in the range of ports the RPC client
  connects to the address the server binds, the view's length playing no part; and the port
  is stored with its high byte first, as the network needs it.
\<close>

theorem client_and_server_address:
  assumes "0 \<le> port" "port < 2 ^ 16"
  shows "server_addr inet_addr ip port = InetAddress inet_addr (word_of_int port) (ip, len) \<and>
    map uint (le_bytes (sin_port (server_addr inet_addr ip port))) = [port div 256, port mod 256]"
proof -
  have w: "[0..<2] = [0, 1 :: nat]" by (simp add: upt_rec)
  have "map uint (le_bytes (word_of_int port :: u16)) = [port mod 256, port div 256]"
    using assms by (simp add: le_bytes_def w unsigned_ucast_eq unsigned_drop_bit_eq drop_bit_eq_div take_bit_eq_mod
        unsigned_of_int uint_div_distrib)
  then show ?thesis by (simp add: server_addr_def InetAddress_def view_data_def htons_bytes rev_map [symmetric])
qed

theorem client_and_server_address_witness:
  "map uint (le_bytes (sin_port (server_addr (\<lambda>_. 0) ''127.0.0.1'' 12345))) = [48, 57]"
  using client_and_server_address [of 12345 "\<lambda>_. 0" "''127.0.0.1''"] by simp

section \<open>Time stamps\<close>

record tm =
  tm_year :: int
  tm_mon :: int
  tm_mday :: int
  tm_hour :: int
  tm_min :: int
  tm_sec :: int

record timestamp = microSecondsSinceEpoch :: int

definition new_timestamp :: timestamp where
  "new_timestamp = \<lparr>microSecondsSinceEpoch = 0\<rparr>"

text \<open>\<open>now\<close> stores what \<open>time\<close> returns, which counts seconds.\<close>

definition timestamp_now :: "int \<Rightarrow> timestamp" where
  "timestamp_now time = \<lparr>microSecondsSinceEpoch = time\<rparr>"

definition pad :: "char \<Rightarrow> nat \<Rightarrow> string \<Rightarrow> string" where
  "pad c n s = replicate (n - length s) c @ s"

text \<open>\<open>snprintf\<close> into 128 bytes; \<open>None\<close> when \<open>localtime\<close> returns a null pointer.\<close>

definition toString :: "(int \<Rightarrow> tm option) \<Rightarrow> timestamp \<Rightarrow> string option" where
  "toString localtime ts = map_option (\<lambda>t. take 127 (
     pad (CHR '' '') 4 (to_string (tm_year t + 1900)) @ ''/'' @ pad (CHR ''0'') 2 (to_string (tm_mon t + 1)) @ ''/'' @
     pad (CHR ''0'') 2 (to_string (tm_mday t)) @ '' '' @ pad (CHR ''0'') 2 (to_string (tm_hour t)) @ '':'' @
     pad (CHR ''0'') 2 (to_string (tm_min t)) @ '':'' @ pad (CHR ''0'') 2 (to_string (tm_sec t))))
     (localtime (microSecondsSinceEpoch ts))"

lemma pad2:
  assumes "0 \<le> n" "n < 100"
  shows "length (pad (CHR ''0'') 2 (to_string n)) = 2 \<and> digits_value (pad (CHR ''0'') 2 (to_string n)) = n"
proof (cases "n < 10")
  case True
  then have "to_string n = [char_of (48 + nat n)]" using assms by (simp add: to_string_def show_nat.simps)
  then show ?thesis using assms True digit_char_value [of "nat n"] by (simp add: pad_def digits_value_def)
next
  case False
  obtain m where n: "n = int m" using assms(1) by (metis nonneg_int_cases)
  then have "\<not> m < 10" "m div 10 < 10" using assms False by auto
  then have "length (show_nat m) = 2" by (simp add: show_nat.simps [of m] show_nat.simps [of "m div 10"])
  then show ?thesis using n show_nat_digits [of m] by (simp add: pad_def to_string_def)
qed

lemma pad4:
  assumes "1000 \<le> n" "n < 10000"
  shows "length (pad (CHR '' '') 4 (to_string n)) = 4 \<and> digits_value (pad (CHR '' '') 4 (to_string n)) = n"
proof -
  obtain m where n: "n = int m" using assms(1) by (metis nonneg_int_cases order_trans zero_le_numeral)
  then have "\<not> m < 10" "\<not> m div 10 < 10" "\<not> m div 100 < 10" "m div 1000 < 10" using assms by auto
  then have "length (show_nat m) = 4"
    by (simp add: show_nat.simps [of m] show_nat.simps [of "m div 10"] show_nat.simps [of "m div 100"]
        show_nat.simps [of "m div 1000"] div_mult2_eq [symmetric])
  then show ?thesis using n show_nat_digits [of m] by (simp add: pad_def to_string_def)
qed

text \<open>
  The text of a time stamp has fixed columns that give back the broken-down time, for years
  of four digits.
\<close>

theorem toString_columns:
  assumes "localtime (microSecondsSinceEpoch ts) = Some t" "1000 \<le> tm_year t + 1900" "tm_year t + 1900 < 10000"
    and "0 \<le> tm_mon t" "tm_mon t < 12" "1 \<le> tm_mday t" "tm_mday t \<le> 31" "0 \<le> tm_hour t" "tm_hour t < 24"
    and "0 \<le> tm_min t" "tm_min t < 60" "0 \<le> tm_sec t" "tm_sec t \<le> 60"
  shows "\<exists>s. toString localtime ts = Some s \<and> length s = 19 \<and>
    map (\<lambda>(i, n). digits_value (take n (drop i s))) [(0, 4), (5, 2), (8, 2), (11, 2), (14, 2), (17, 2)] =
    [tm_year t + 1900, tm_mon t + 1, tm_mday t, tm_hour t, tm_min t, tm_sec t]"
proof -
  note p = pad4 [of "tm_year t + 1900"] pad2 [of "tm_mon t + 1"] pad2 [of "tm_mday t"] pad2 [of "tm_hour t"]
    pad2 [of "tm_min t"] pad2 [of "tm_sec t"]
  show ?thesis using assms p by (simp add: toString_def)
qed

theorem toString_columns_witness:
  "\<exists>s. toString (\<lambda>_. Some \<lparr>tm_year = 123, tm_mon = 3, tm_mday = 9, tm_hour = 8, tm_min = 7, tm_sec = 6\<rparr>) (timestamp_now 0) = Some s \<and>
    length s = 19"
  using toString_columns [of "\<lambda>_. Some \<lparr>tm_year = 123, tm_mon = 3, tm_mday = 9, tm_hour = 8, tm_min = 7, tm_sec = 6\<rparr>" "timestamp_now 0"]
  by auto

section \<open>Logging\<close>

text \<open>The macros call the logging library with a level; \<open>LOG_FATAL\<close> logs a warning and ends the
  process.\<close>

datatype log_level = L_debug | L_info | L_warn | L_err

datatype 's logged = Logged 's | Exited int 's

type_synonym 's spdlog = "log_level \<Rightarrow> string \<Rightarrow> string list \<Rightarrow> 's \<Rightarrow> 's"

definition LOG_INFO :: "'s spdlog \<Rightarrow> string \<Rightarrow> string list \<Rightarrow> 's \<Rightarrow> 's logged" where
  "LOG_INFO spdlog f args s = Logged (spdlog L_info f args s)"

definition LOG_DEBUG :: "'s spdlog \<Rightarrow> string \<Rightarrow> string list \<Rightarrow> 's \<Rightarrow> 's logged" where
  "LOG_DEBUG spdlog f args s = Logged (spdlog L_debug f args s)"

definition LOG_ERROR :: "'s spdlog \<Rightarrow> string \<Rightarrow> string list \<Rightarrow> 's \<Rightarrow> 's logged" where
  "LOG_ERROR spdlog f args s = Logged (spdlog L_err f args s)"

definition LOG_FATAL :: "'s spdlog \<Rightarrow> string \<Rightarrow> string list \<Rightarrow> 's \<Rightarrow> 's logged" where
  "LOG_FATAL spdlog f args s = Exited (- 1) (spdlog L_warn f args s)"

definition LOG_WARN :: "'s spdlog \<Rightarrow> string \<Rightarrow> string list \<Rightarrow> 's \<Rightarrow> 's logged" where
  "LOG_WARN spdlog f args s = Logged (spdlog L_warn f args s)"

fun level_rank :: "log_level \<Rightarrow> nat" where
  "level_rank L_debug = 1"
| "level_rank L_info = 2"
| "level_rank L_warn = 3"
| "level_rank L_err = 4"

text \<open>
  With the library's level set to \<open>err\<close>, which drops messages of lower levels, errors are
  logged and the message that says why the process ends is not.
\<close>

theorem fatal_message_dropped:
  assumes "\<And>l f args s. level_rank l < 4 \<Longrightarrow> spdlog l f args s = s"
  shows "LOG_FATAL spdlog f args s = Exited (- 1) s"
  using assms by (simp add: LOG_FATAL_def)

theorem fatal_message_dropped_witness:
  "LOG_FATAL (\<lambda>l f args s. if level_rank l < 4 then s else f # s) ''bind failed'' [] [] = Exited (- 1) []"
  by (rule fatal_message_dropped) simp

section \<open>Singletons\<close>

text \<open>The function-local static of \<open>GetInstance\<close>: made by the first call, shared by all.\<close>

definition GetInstance :: "'t \<Rightarrow> 't option \<Rightarrow> 't \<times> 't option" where
  "GetInstance fresh inst = (case inst of None \<Rightarrow> (fresh, Some fresh) | Some x \<Rightarrow> (x, Some x))"

lemma GetInstance_shared: "GetInstance fresh' (snd (GetInstance fresh inst)) = GetInstance fresh inst"
  by (cases inst) (simp_all add: GetInstance_def)

end
