(* ===== verification/Thread_Pool.thy ===== *)
theory Thread_Pool
  imports Luce_Prelude "HOL-Library.Multiset"
begin

text \<open>
  The thread pool: \<open>luce/common/thread_pool.h\<close>.

  The critical sections under \<open>queue_mtx_\<close> are atomic transitions; a thread whose wait
  predicate is false does not move (\<open>None\<close>). A worker waits for work, runs a task outside
  the mutex, or has returned. The runs of the pool are a step relation over the pool and
  the history of its tasks: accepted by \<open>Commit\<close>, refused by it, started and finished.
\<close>

datatype 't worker = Waiting | Busy 't | Exited

record 't thread_pool =
  pool_workers :: "'t worker list"
  pool_tasks :: "'t list"
  pool_stop :: bool

definition new_pool :: "nat \<Rightarrow> 't thread_pool" where
  "new_pool thread_num = \<lparr>pool_workers = replicate thread_num Waiting, pool_tasks = [], pool_stop = False\<rparr>"

definition Commit :: "'t \<Rightarrow> 't thread_pool \<Rightarrow> 't thread_pool" where
  "Commit task p = (if \<not> pool_stop p then p\<lparr>pool_tasks := pool_tasks p @ [task]\<rparr> else p)"

definition pool_Size :: "'t thread_pool \<Rightarrow> nat" where
  "pool_Size p = length (pool_workers p)"

text \<open>The locked part of a worker's round, and the end of the task it runs.\<close>

definition worker_take :: "nat \<Rightarrow> 't thread_pool \<Rightarrow> 't thread_pool option" where
  "worker_take i p =
     (if \<not> (i < length (pool_workers p) \<and> pool_workers p ! i = Waiting) then None
      else if \<not> (pool_stop p \<or> pool_tasks p \<noteq> []) then None
      else if pool_stop p then Some (p\<lparr>pool_workers := (pool_workers p)[i := Exited]\<rparr>)
      else case pool_tasks p of
        [] \<Rightarrow> Some p
      | task # rest \<Rightarrow> Some (p\<lparr>pool_workers := (pool_workers p)[i := Busy task], pool_tasks := rest\<rparr>))"

definition worker_done :: "nat \<Rightarrow> 't thread_pool \<Rightarrow> ('t \<times> 't thread_pool) option" where
  "worker_done i p =
     (if i < length (pool_workers p)
      then case pool_workers p ! i of
        Busy task \<Rightarrow> Some (task, p\<lparr>pool_workers := (pool_workers p)[i := Waiting]\<rparr>)
      | _ \<Rightarrow> None
      else None)"

text \<open>\<open>Shutdown\<close> waits for an empty queue, sets the flag, and then joins the workers.\<close>

definition Shutdown_stop :: "'t thread_pool \<Rightarrow> 't thread_pool option" where
  "Shutdown_stop p = (if pool_tasks p = [] then Some (p\<lparr>pool_stop := True\<rparr>) else None)"

definition Shutdown_joined :: "'t thread_pool \<Rightarrow> bool" where
  "Shutdown_joined p \<longleftrightarrow> pool_stop p \<and> list_all (\<lambda>w. w = Exited) (pool_workers p)"

text \<open>The destructor shuts down a pool that was not stopped before.\<close>

definition destroy_pool :: "'t thread_pool \<Rightarrow> 't thread_pool option" where
  "destroy_pool p = (if \<not> pool_stop p then Shutdown_stop p else Some p)"

section \<open>What a producer relies on\<close>

text \<open>The interface of a pool for those who commit tasks: while it is not stopped, committed
  tasks are queued in order; afterwards they are dropped.\<close>

locale task_sink =
  fixes queued :: "'p \<Rightarrow> 't list"
    and stopped :: "'p \<Rightarrow> bool"
    and commit :: "'t \<Rightarrow> 'p \<Rightarrow> 'p"
  assumes commit_running: "\<not> stopped p \<Longrightarrow> queued (commit t p) = queued p @ [t] \<and> \<not> stopped (commit t p)"
    and commit_stopped: "stopped p \<Longrightarrow> commit t p = p"
begin

lemma commit_all: "queued (fold commit ts p) = (if stopped p then queued p else queued p @ ts) \<and> stopped (fold commit ts p) = stopped p"
  by (induction ts arbitrary: p) (auto simp: commit_running commit_stopped)

end

interpretation pool_sink: task_sink pool_tasks pool_stop Commit
  by unfold_locales (simp_all add: Commit_def)

section \<open>Runs of a pool\<close>

record 't pool_run =
  run_pool :: "'t thread_pool"
  run_accepted :: "'t list"
  run_refused :: "'t list"
  run_started :: "'t list"
  run_finished :: "'t list"

definition new_run :: "nat \<Rightarrow> 't pool_run" where
  "new_run n = \<lparr>run_pool = new_pool n, run_accepted = [], run_refused = [], run_started = [], run_finished = []\<rparr>"

inductive pool_step :: "'t pool_run \<Rightarrow> 't pool_run \<Rightarrow> bool" where
  commit: "\<not> pool_stop (run_pool r) \<Longrightarrow>
    pool_step r (r\<lparr>run_pool := Commit t (run_pool r), run_accepted := run_accepted r @ [t]\<rparr>)"
| refuse: "pool_stop (run_pool r) \<Longrightarrow>
    pool_step r (r\<lparr>run_pool := Commit t (run_pool r), run_refused := run_refused r @ [t]\<rparr>)"
| start: "worker_take i (run_pool r) = Some p \<Longrightarrow> pool_workers p ! i = Busy t \<Longrightarrow>
    pool_step r (r\<lparr>run_pool := p, run_started := run_started r @ [t]\<rparr>)"
| leave: "worker_take i (run_pool r) = Some p \<Longrightarrow> pool_workers p ! i = Exited \<Longrightarrow> pool_step r (r\<lparr>run_pool := p\<rparr>)"
| finish: "worker_done i (run_pool r) = Some (t, p) \<Longrightarrow>
    pool_step r (r\<lparr>run_pool := p, run_finished := run_finished r @ [t]\<rparr>)"
| halt: "Shutdown_stop (run_pool r) = Some p \<Longrightarrow> pool_step r (r\<lparr>run_pool := p\<rparr>)"

fun busy_task :: "'t worker \<Rightarrow> 't multiset" where
  "busy_task (Busy t) = {#t#}"
| "busy_task _ = {#}"

definition busy :: "'t thread_pool \<Rightarrow> 't multiset" where
  "busy p = (\<Sum>w\<leftarrow>pool_workers p. busy_task w)"

lemmas busy_update = sum_list_map_update [where f = busy_task]

lemma worker_take_start:
  assumes "worker_take i p = Some p'" "pool_workers p' ! i = Busy t"
  shows "pool_tasks p = t # pool_tasks p' \<and> \<not> pool_stop p \<and> pool_stop p' = pool_stop p \<and> busy p' = add_mset t (busy p)
    \<and> length (pool_workers p') = length (pool_workers p) \<and> set (pool_workers p') \<subseteq> insert (Busy t) (set (pool_workers p))"
  using assms busy_update [of i "pool_workers p" "Busy t"] set_update_subset_insert [of "pool_workers p" i "Busy t"]
  by (auto simp: worker_take_def busy_def split: if_splits list.splits)

lemma worker_take_leave:
  assumes "worker_take i p = Some p'" "pool_workers p' ! i = Exited"
  shows "pool_tasks p' = pool_tasks p \<and> pool_stop p \<and> pool_stop p' \<and> busy p' = busy p
    \<and> length (pool_workers p') = length (pool_workers p)"
  using assms busy_update [of i "pool_workers p" Exited]
  by (auto simp: worker_take_def busy_def split: if_splits list.splits)

lemma worker_done_eq:
  assumes "worker_done i p = Some (t, p')"
  shows "pool_tasks p' = pool_tasks p \<and> pool_stop p' = pool_stop p \<and> busy p = add_mset t (busy p')
    \<and> length (pool_workers p') = length (pool_workers p) \<and> set (pool_workers p') \<subseteq> insert Waiting (set (pool_workers p))"
  using assms busy_update [of i "pool_workers p" Waiting] set_update_subset_insert [of "pool_workers p" i Waiting]
  by (auto simp: worker_done_def busy_def split: if_splits worker.splits)

definition pool_inv :: "nat \<Rightarrow> 't pool_run \<Rightarrow> bool" where
  "pool_inv n r \<longleftrightarrow>
     length (pool_workers (run_pool r)) = n \<and>
     run_accepted r = run_started r @ pool_tasks (run_pool r) \<and>
     mset (run_started r) = mset (run_finished r) + busy (run_pool r) \<and>
     (pool_stop (run_pool r) \<longrightarrow> pool_tasks (run_pool r) = []) \<and>
     (Exited \<in> set (pool_workers (run_pool r)) \<longrightarrow> pool_stop (run_pool r))"

lemma pool_step_inv: "pool_step r r' \<Longrightarrow> pool_inv n r \<Longrightarrow> pool_inv n r'"
proof (induction rule: pool_step.induct)
  case (start i r p t)
  then show ?case using worker_take_start [OF start(1,2)] by (auto simp: pool_inv_def)
next
  case (leave i r p)
  then show ?case using worker_take_leave [OF leave(1,2)] by (simp add: pool_inv_def)
next
  case (finish i r t p)
  then show ?case using worker_done_eq [OF finish(1)] by (auto simp: pool_inv_def)
qed (auto simp: pool_inv_def Commit_def busy_def Shutdown_stop_def split: if_splits)

interpretation pool_sys: step_system "\<lambda>r. r = new_run n" pool_step "pool_inv n" for n
proof unfold_locales
  fix r :: "'t pool_run" assume "r = new_run n"
  moreover have "(\<Sum>w\<leftarrow>replicate n Waiting. busy_task w) = ({#} :: 't multiset)" by (induction n) auto
  ultimately show "pool_inv n r" by (simp add: pool_inv_def new_run_def new_pool_def busy_def)
qed (rule pool_step_inv)

lemma joined_finished:
  assumes "pool_inv n r" "Shutdown_joined (run_pool r)"
  shows "mset (run_finished r) = mset (run_accepted r)"
proof -
  have "(\<Sum>w\<leftarrow>ws. busy_task w) = {#}" if "list_all (\<lambda>w. w = Exited) ws" for ws :: "'a worker list"
    using that by (induction ws) auto
  then have "busy (run_pool r) = {#}" using assms(2) by (simp add: Shutdown_joined_def busy_def)
  with assms show ?thesis by (simp add: pool_inv_def Shutdown_joined_def)
qed

section \<open>Draining\<close>

text \<open>The steps of the workers alone, in which the tasks of a given kind do not end.\<close>

inductive work_step :: "('t \<Rightarrow> bool) \<Rightarrow> 't pool_run \<Rightarrow> 't pool_run \<Rightarrow> bool" for endless where
  take: "worker_take i (run_pool r) = Some p \<Longrightarrow> pool_workers p ! i = Busy t \<Longrightarrow>
    work_step endless r (r\<lparr>run_pool := p, run_started := run_started r @ [t]\<rparr>)"
| complete: "worker_done i (run_pool r) = Some (t, p) \<Longrightarrow> \<not> endless t \<Longrightarrow>
    work_step endless r (r\<lparr>run_pool := p, run_finished := run_finished r @ [t]\<rparr>)"

lemma work_step_pool: "work_step endless r r' \<Longrightarrow> pool_step r r'"
  by (induction rule: work_step.induct) (auto intro: start finish)

lemma work_step_same:
  "work_step endless r r' \<Longrightarrow> run_accepted r' = run_accepted r \<and> run_refused r' = run_refused r \<and>
    filter endless (run_finished r') = filter endless (run_finished r)"
  by (induction rule: work_step.induct) auto

definition pending_work :: "('t \<Rightarrow> bool) \<Rightarrow> 't pool_run \<Rightarrow> nat" where
  "pending_work endless r = 2 * length (pool_tasks (run_pool r)) + size {#t \<in># busy (run_pool r). \<not> endless t#}"

lemma in_busy_task: "t \<in># busy_task w \<longleftrightarrow> w = Busy t"
  by (cases w) auto

lemma busy_worker:
  assumes "t \<in># busy p"
  obtains i where "i < length (pool_workers p)" "pool_workers p ! i = Busy t"
proof -
  have "Busy t \<in> set ws" if "t \<in># (\<Sum>w\<leftarrow>ws. busy_task w)" for ws
    using that by (induction ws) (auto simp: in_busy_task)
  then show ?thesis using assms that by (metis busy_def in_set_conv_nth)
qed

lemma busy_member: "Busy t \<in> set (pool_workers p) \<Longrightarrow> t \<in># busy p"
proof -
  have "t \<in># (\<Sum>w\<leftarrow>ws. busy_task w)" if "Busy t \<in> set ws" for ws
    using that by (induction ws) auto
  then show "Busy t \<in> set (pool_workers p) \<Longrightarrow> t \<in># busy p" by (simp add: busy_def)
qed

lemma size_busy: "\<forall>w \<in> set (pool_workers p). \<exists>t. w = Busy t \<Longrightarrow> size (busy p) = length (pool_workers p)"
proof -
  have "size (\<Sum>w\<leftarrow>ws. busy_task w) = length ws" if "\<forall>w \<in> set ws. \<exists>t. w = Busy t" for ws :: "'a worker list"
    using that by (induction ws) auto
  then show "\<forall>w \<in> set (pool_workers p). \<exists>t. w = Busy t \<Longrightarrow> size (busy p) = length (pool_workers p)"
    by (simp add: busy_def)
qed

lemma busy_accepted: "pool_inv n r \<Longrightarrow> busy (run_pool r) \<subseteq># mset (run_accepted r)"
  by (simp add: pool_inv_def)

text \<open>When only endless tasks run, fewer than there are workers, a worker waits.\<close>

lemma waiting_worker:
  assumes "pool_inv n r" "length (filter endless (run_accepted r)) < n" "\<not> pool_stop (run_pool r)"
    and "{#t \<in># busy (run_pool r). \<not> endless t#} = {#}"
  obtains i where "i < length (pool_workers (run_pool r))" "pool_workers (run_pool r) ! i = Waiting"
proof -
  have "\<exists>w \<in> set (pool_workers (run_pool r)). w = Waiting"
  proof (rule ccontr)
    assume "\<not> ?thesis"
    moreover have "Exited \<notin> set (pool_workers (run_pool r))" using assms(1,3) by (auto simp: pool_inv_def)
    ultimately have "\<forall>w \<in> set (pool_workers (run_pool r)). \<exists>t. w = Busy t" by (metis worker.exhaust)
    then have "size (busy (run_pool r)) = n" using size_busy assms(1) by (auto simp: pool_inv_def)
    moreover have "filter_mset endless (busy (run_pool r)) = busy (run_pool r)"
      using assms(4) by (auto simp: filter_mset_eq_conv)
    moreover have "size (filter_mset endless (busy (run_pool r))) \<le> size (filter_mset endless (mset (run_accepted r)))"
      by (intro size_mset_mono multiset_filter_mono busy_accepted [OF assms(1)])
    ultimately show False using assms(2) by (simp flip: mset_filter)
  qed
  then show ?thesis using that by (metis in_set_conv_nth)
qed

text \<open>While there is work that ends, some worker can move.\<close>

lemma drain_step:
  assumes "pool_inv n r" "length (filter endless (run_accepted r)) < n" "pending_work endless r \<noteq> 0"
  obtains r' where "work_step endless r r'" "pending_work endless r' < pending_work endless r"
proof (cases "{#t \<in># busy (run_pool r). \<not> endless t#} = {#}")
  case False
  then obtain t where t: "t \<in># busy (run_pool r)" "\<not> endless t" by auto
  then obtain i where "i < length (pool_workers (run_pool r))" "pool_workers (run_pool r) ! i = Busy t"
    by (rule_tac busy_worker)
  then obtain p where d: "worker_done i (run_pool r) = Some (t, p)" by (simp add: worker_done_def)
  show ?thesis
    by (rule that [OF complete [where endless = endless, OF d t(2)]]) (use worker_done_eq [OF d] t(2) in \<open>simp add: pending_work_def\<close>)
next
  case True
  then obtain t rest where t: "pool_tasks (run_pool r) = t # rest"
    using assms(3) by (cases "pool_tasks (run_pool r)") (auto simp: pending_work_def)
  then have stop: "\<not> pool_stop (run_pool r)" using assms(1) by (auto simp: pool_inv_def)
  obtain i where i: "i < length (pool_workers (run_pool r))" "pool_workers (run_pool r) ! i = Waiting"
    by (rule waiting_worker [OF assms(1,2) stop True])
  then obtain p where d: "worker_take i (run_pool r) = Some p" "pool_workers p ! i = Busy t"
    using t stop by (simp add: worker_take_def)
  show ?thesis
    by (rule that [OF take [OF d]]) (use worker_take_start [OF d] in \<open>simp add: pending_work_def\<close>)
qed

lemma drains:
  assumes "pool_inv n r" "length (filter endless (run_accepted r)) < n"
  shows "\<exists>r'. (work_step endless)\<^sup>*\<^sup>* r r' \<and> pending_work endless r' = 0"
  using assms
proof (induction "pending_work endless r" arbitrary: r rule: less_induct)
  case less
  show ?case
  proof (cases "pending_work endless r = 0")
    case False
    then obtain r1 where r1: "work_step endless r r1" "pending_work endless r1 < pending_work endless r"
      by (rule drain_step [OF less.prems])
    have "pool_inv n r1" by (rule pool_step_inv [OF work_step_pool [OF r1(1)] less.prems(1)])
    then show ?thesis using less.hyps [OF r1(2)] less.prems(2) work_step_same [OF r1(1)] r1(1)
      by (metis converse_rtranclp_into_rtranclp)
  qed blast
qed

text \<open>What workers alone can reach: every task that ends has finished.\<close>

lemma drained:
  assumes "pool_inv n r" "length (filter endless (run_accepted r)) < n"
  obtains r' where "(work_step endless)\<^sup>*\<^sup>* r r'" "run_accepted r' = run_accepted r" "run_refused r' = run_refused r"
    "pool_tasks (run_pool r') = []" "filter endless (run_finished r') = filter endless (run_finished r)"
    "{#t \<in># mset (run_finished r'). \<not> endless t#} = {#t \<in># mset (run_accepted r). \<not> endless t#}"
proof -
  obtain r' where r': "(work_step endless)\<^sup>*\<^sup>* r r'" "pending_work endless r' = 0" using drains [OF assms] by blast
  from r'(1) have same: "run_accepted r' = run_accepted r \<and> run_refused r' = run_refused r \<and>
      filter endless (run_finished r') = filter endless (run_finished r) \<and> pool_inv n r'"
    by (induction rule: rtranclp_induct) (use assms(1) work_step_same work_step_pool pool_step_inv in \<open>blast | metis\<close>)+
  moreover have "pool_tasks (run_pool r') = []" "{#t \<in># busy (run_pool r'). \<not> endless t#} = {#}"
    using r'(2) by (simp_all add: pending_work_def)
  moreover from this same have "{#t \<in># mset (run_finished r'). \<not> endless t#} = {#t \<in># mset (run_accepted r). \<not> endless t#}"
    unfolding pool_inv_def by (metis append_Nil2 empty_neutral(2) filter_union_mset)
  ultimately show ?thesis using that r'(1) by blast
qed

section \<open>Properties\<close>

definition example_run :: "nat pool_run" where
  "example_run = \<lparr>run_pool = \<lparr>pool_workers = [Exited], pool_tasks = [], pool_stop = True\<rparr>, run_accepted = [7],
     run_refused = [], run_started = [7], run_finished = [7]\<rparr>"

lemma example_run_reached: "pool_step\<^sup>*\<^sup>* (new_run 1) example_run"
proof -
  let ?r0 = "new_run 1 :: nat pool_run"
  let ?r1 = "?r0\<lparr>run_pool := Commit 7 (run_pool ?r0), run_accepted := run_accepted ?r0 @ [7]\<rparr>"
  let ?r2 = "?r1\<lparr>run_pool := \<lparr>pool_workers = [Busy 7], pool_tasks = [], pool_stop = False\<rparr>, run_started := run_started ?r1 @ [7]\<rparr>"
  let ?r3 = "?r2\<lparr>run_pool := \<lparr>pool_workers = [Waiting], pool_tasks = [], pool_stop = False\<rparr>, run_finished := run_finished ?r2 @ [7]\<rparr>"
  let ?r4 = "?r3\<lparr>run_pool := \<lparr>pool_workers = [Waiting], pool_tasks = [], pool_stop = True\<rparr>\<rparr>"
  let ?r5 = "?r4\<lparr>run_pool := \<lparr>pool_workers = [Exited], pool_tasks = [], pool_stop = True\<rparr>\<rparr>"
  have "pool_step ?r0 ?r1" by (rule commit) (simp add: new_run_def new_pool_def)
  moreover have "pool_step ?r1 ?r2"
    by (rule start [where i = 0]) (simp_all add: new_run_def new_pool_def Commit_def worker_take_def)
  moreover have "pool_step ?r2 ?r3" by (rule finish [where i = 0]) (simp add: worker_done_def)
  moreover have "pool_step ?r3 ?r4" by (rule halt) (simp add: Shutdown_stop_def)
  moreover have "pool_step ?r4 ?r5" by (rule leave [where i = 0]) (simp_all add: worker_take_def)
  ultimately have "pool_step\<^sup>*\<^sup>* ?r0 ?r5" by (meson converse_rtranclp_into_rtranclp rtranclp.rtrancl_refl)
  moreover have "?r5 = example_run" by (simp add: example_run_def new_run_def)
  ultimately show ?thesis by simp
qed

text \<open>
  Claim C6. In every run of a pool, tasks start in the order in which they were accepted, and
  each accepted task is in exactly one place: still queued, being run by one worker, or
  finished. So no accepted task is lost or run twice.
\<close>

theorem pool_conserves_tasks:
  assumes "pool_step\<^sup>*\<^sup>* (new_run n) r"
  shows "run_accepted r = run_started r @ pool_tasks (run_pool r) \<and>
    mset (run_accepted r) = mset (run_finished r) + busy (run_pool r) + mset (pool_tasks (run_pool r))"
proof -
  have "pool_inv n r" by (rule pool_sys.inv_reachable [OF refl assms])
  then show ?thesis by (simp add: pool_inv_def)
qed

theorem pool_conserves_tasks_witness:
  "run_accepted example_run = run_started example_run @ pool_tasks (run_pool example_run) \<and>
    mset (run_accepted example_run) =
      mset (run_finished example_run) + busy (run_pool example_run) + mset (pool_tasks (run_pool example_run))"
  by (rule pool_conserves_tasks [OF example_run_reached])

text \<open>
  When \<open>Shutdown\<close> has joined the workers, every task that was accepted has finished,
  exactly once.
\<close>

theorem shutdown_completes_tasks:
  assumes "pool_step\<^sup>*\<^sup>* (new_run n) r" "Shutdown_joined (run_pool r)"
  shows "mset (run_finished r) = mset (run_accepted r)"
  using pool_sys.inv_reachable [OF refl assms(1)] assms(2) by (rule joined_finished)

theorem shutdown_completes_tasks_witness: "mset (run_finished example_run) = mset (run_accepted example_run)"
  by (rule shutdown_completes_tasks [OF example_run_reached]) (simp add: example_run_def Shutdown_joined_def)

text \<open>
  A pool can always drain, even when some of its tasks never end: as long as fewer
  such tasks were accepted than there are workers, from every reachable state the workers
  alone, without ending any of these tasks, start all queued tasks and finish all others.
\<close>

theorem pool_can_drain:
  assumes "pool_step\<^sup>*\<^sup>* (new_run n) r" "length (filter endless (run_accepted r)) < n"
  shows "\<exists>r'. (work_step endless)\<^sup>*\<^sup>* r r' \<and> run_accepted r' = run_accepted r \<and> run_refused r' = run_refused r \<and>
    pool_tasks (run_pool r') = [] \<and> filter endless (run_finished r') = filter endless (run_finished r) \<and>
    {#t \<in># mset (run_finished r'). \<not> endless t#} = {#t \<in># mset (run_accepted r). \<not> endless t#}"
proof -
  have "pool_inv n r" by (rule pool_sys.inv_reachable [OF refl assms(1)])
  from drained [OF this assms(2)] show ?thesis by metis
qed

theorem pool_can_drain_witness:
  "\<exists>r'. (work_step (\<lambda>t. t = 9))\<^sup>*\<^sup>* example_run r' \<and> run_accepted r' = run_accepted example_run \<and>
    pool_tasks (run_pool r') = [] \<and> {#t \<in># mset (run_finished r'). t \<noteq> 9#} = {#7#}"
  using pool_can_drain [OF example_run_reached, of "\<lambda>t. t = 9"] by (simp add: example_run_def) metis

end
