(* ===== verification/Tcp_Server.thy ===== *)
theory Tcp_Server
  imports Io_Awaiter Thread_Pool Timer_Manager
begin

text \<open>
  The TCP server: \<open>luce/net/tcp/tcp_server.{h,cpp}\<close>, \<open>tcp_acceptor.cpp\<close>,
  \<open>tcp_application.cpp\<close> and the parts of \<open>luce/net/socket.cpp\<close> the acceptor uses.

  The state has the listening socket with the main reactor, the other reactors, the two
  thread pools and the timer manager. The jobs of the pools are the timer loop, the accept
  loop and the handling of a connection. The results of \<open>socket\<close>, \<open>bind\<close> and \<open>listen\<close> and the
  accepted descriptors are arguments, as is what a fresh epoll instance holds.
\<close>

datatype ('h, 'k) job = TickJob | AcceptJob | HandleRequest "('h, 'k) tcp_connection"

text \<open>The options of a socket; the results of \<open>setsockopt\<close>, \<open>fcntl\<close> and \<open>shutdown\<close> are not checked.\<close>

record sock_opts =
  tcp_no_delay :: bool
  reuse_addr :: bool
  reuse_port :: bool
  keep_alive :: bool
  nonblock :: bool
  write_shut :: bool

definition new_opts :: "bool \<Rightarrow> sock_opts" where
  "new_opts nb = \<lparr>tcp_no_delay = False, reuse_addr = False, reuse_port = False, keep_alive = False, nonblock = nb, write_shut = False\<rparr>"

definition ShutdownWrite :: "sock_opts \<Rightarrow> sock_opts" where "ShutdownWrite os = os\<lparr>write_shut := True\<rparr>"
definition SetTcpNoDelay :: "bool \<Rightarrow> sock_opts \<Rightarrow> sock_opts" where "SetTcpNoDelay on os = os\<lparr>tcp_no_delay := on\<rparr>"
definition SetReuseAddr :: "bool \<Rightarrow> sock_opts \<Rightarrow> sock_opts" where "SetReuseAddr on os = os\<lparr>reuse_addr := on\<rparr>"
definition SetReusePort :: "bool \<Rightarrow> sock_opts \<Rightarrow> sock_opts" where "SetReusePort on os = os\<lparr>reuse_port := on\<rparr>"
definition SetKeepAlive :: "bool \<Rightarrow> sock_opts \<Rightarrow> sock_opts" where "SetKeepAlive on os = os\<lparr>keep_alive := on\<rparr>"
definition SetNonblock :: "sock_opts \<Rightarrow> sock_opts" where "SetNonblock os = os\<lparr>nonblock := True\<rparr>"

record ('h, 'k, 'f) tcp_server =
  acceptor :: "('h, 'k) net"
  acceptor_opts :: sock_opts
  sub_reactors :: "'k event_manager list"
  cnt :: u64
  srv_shutdown :: bool
  reactor_thread_pool :: "('h, 'k) job thread_pool"
  work_thread_pool :: "('h, 'k) job thread_pool"
  srv_timers :: "'f timer_manager"

datatype server_error = ModuloZero

section \<open>Starting up\<close>

definition BindAddress :: "int \<Rightarrow> net_stop + unit" where
  "BindAddress ret = (if ret \<noteq> 0 then Inl Fatal else Inr ())"

definition Listen :: "int \<Rightarrow> net_stop + unit" where
  "Listen ret = (if ret \<noteq> 0 then Inl Fatal else Inr ())"

definition TcpAcceptor :: "int \<Rightarrow> int \<Rightarrow> int \<Rightarrow> net_stop + 'h socket \<times> sock_opts" where
  "TcpAcceptor listen_fd bind_ret listen_ret =
     (let os = SetReuseAddr True (SetNonblock (new_opts True)) in
      try_bind (BindAddress bind_ret) (\<lambda>_. try_bind (Listen listen_ret) (\<lambda>_. Inr (new_socket listen_fd, os))))"

text \<open>\<open>Socket::~Socket\<close> on the interest list.\<close>

definition destroy_socket :: "(int \<Rightarrow> 'k \<Rightarrow> 'k) \<Rightarrow> ('h, 'k) net \<Rightarrow> 'k event_manager" where
  "destroy_socket kclose = (\<lambda>(s, em).
     if sock_fd s \<noteq> - 1 \<and> \<not> sock_is_closed s then em\<lparr>epfd := kclose (sock_fd s) (epfd em)\<rparr> else em)"

text \<open>The loop bound \<open>thread_num / 2 - 1\<close> is computed in \<open>size_t\<close>.\<close>

definition sub_reactor_num :: "u64 \<Rightarrow> u64" where
  "sub_reactor_num thread_num = thread_num div 2 - 1"

definition TcpServer :: "'k \<Rightarrow> int \<Rightarrow> int \<Rightarrow> int \<Rightarrow> u64 \<Rightarrow> 'f timer_manager \<Rightarrow> net_stop + ('h, 'k, 'f) tcp_server" where
  "TcpServer epoll listen_fd bind_ret listen_ret thread_num tm =
     (if listen_fd = - 1 then Inl Fatal
      else try_bind (TcpAcceptor listen_fd bind_ret listen_ret) (\<lambda>(s, os). Inr
        \<lparr>acceptor = (s, new_event_manager epoll 2048), acceptor_opts = os,
         sub_reactors = replicate (unat (sub_reactor_num thread_num)) (new_event_manager epoll 16),
         cnt = 0, srv_shutdown = False,
         reactor_thread_pool = new_pool 1,
         work_thread_pool = Commit TickJob (new_pool (unat thread_num)),
         srv_timers = tm\<rparr>))"

definition GetSubReactor :: "('h, 'k, 'f) tcp_server \<Rightarrow> server_error + nat \<times> ('h, 'k, 'f) tcp_server" where
  "GetSubReactor s =
     (if sub_reactors s = [] then Inl ModuloZero
      else Inr (unat (cnt s mod of_nat (length (sub_reactors s))), s\<lparr>cnt := cnt s + 1\<rparr>))"

text \<open>\<open>Start\<close> up to the event loop of the main reactor.\<close>

definition server_Start :: "bool \<Rightarrow> ('h, 'k, 'f) tcp_server \<Rightarrow> ('h, 'k, 'f) tcp_server" where
  "server_Start async_start s =
     (if async_start then s\<lparr>reactor_thread_pool := Commit AcceptJob (reactor_thread_pool s)\<rparr> else s)"

section \<open>Accepting\<close>

text \<open>One round of \<open>AcceptLoop\<close>; the flag tells whether the loop goes on.\<close>

definition accept_round :: "'k ctl \<Rightarrow> 'h \<Rightarrow> int list \<Rightarrow> ('h, 'k, 'f) tcp_server \<Rightarrow>
    net_stop + bool \<times> int list \<times> ('h, 'k, 'f) tcp_server" where
  "accept_round ctl h tr s =
     (if srv_shutdown s then Inr (False, tr, s)
      else try_bind (accept ctl h (tr, acceptor s)) (\<lambda>(conn, tr', n).
        let s1 = s\<lparr>acceptor := n\<rparr> in
        case conn of
          None \<Rightarrow> Inr (True, tr', s1)
        | Some c \<Rightarrow> Inr (True, tr', s1\<lparr>work_thread_pool := Commit (HandleRequest c) (work_thread_pool s1)\<rparr>)))"

lemma accept_round_shorter: "accept_round ctl h tr s = Inr (True, tr', s') \<Longrightarrow> length tr' < length tr"
  by (cases tr; cases "tl tr") (auto simp: accept_round_def accept_def AcceptAwaiter_def try_bind_eq_Inr Let_def
      split: if_splits option.splits)

text \<open>
  The loop over a trace: how it ends (\<open>None\<close> when it leaves by the shutdown flag, otherwise what
  stopped the round that did not end), what is left of the trace, and the server as the last
  complete round left it.
\<close>

function AcceptLoop :: "'k ctl \<Rightarrow> 'h \<Rightarrow> int list \<Rightarrow> ('h, 'k, 'f) tcp_server \<Rightarrow>
    net_stop option \<times> int list \<times> ('h, 'k, 'f) tcp_server" where
  "AcceptLoop ctl h tr s = (case accept_round ctl h tr s of
     Inl stop \<Rightarrow> (Some stop, tr, s)
   | Inr (goes_on, tr', s') \<Rightarrow> if goes_on then AcceptLoop ctl h tr' s' else (None, tr', s'))"
  by pat_completeness auto
termination
  by (relation "measure (\<lambda>(_, _, tr, _). length tr)") (auto dest: accept_round_shorter)

declare AcceptLoop.simps [simp del]

section \<open>Shutting down\<close>

text \<open>The flags of \<open>Shutdown\<close>; the two pools are then shut down one after the other, each
  when its queue is empty.\<close>

definition Shutdown_flags :: "('h, 'k, 'f) tcp_server \<Rightarrow> ('h, 'k, 'f) tcp_server" where
  "Shutdown_flags s = s\<lparr>srv_shutdown := True,
     acceptor := (fst (acceptor s), em_Shutdown (snd (acceptor s))),
     sub_reactors := map em_Shutdown (sub_reactors s),
     srv_timers := tm_shutdown (srv_timers s)\<rparr>"

definition Shutdown_pools :: "('h, 'k, 'f) tcp_server \<Rightarrow> ('h, 'k, 'f) tcp_server option" where
  "Shutdown_pools s = (case Shutdown_stop (reactor_thread_pool s) of
     None \<Rightarrow> None
   | Some p \<Rightarrow> (case Shutdown_stop (work_thread_pool s) of
       None \<Rightarrow> None
     | Some q \<Rightarrow> Some (s\<lparr>reactor_thread_pool := p, work_thread_pool := q\<rparr>)))"

section \<open>Properties\<close>

text \<open>A trace in which connections arrive: each at once, or after the coroutine has waited.\<close>

definition arrivals :: "(bool \<times> int) list \<Rightarrow> int list" where
  "arrivals cs = concat (map (\<lambda>(waits, fd). if waits then [- 1, fd] else [fd]) cs)"

definition accepting :: "'k ctl \<Rightarrow> (int \<Rightarrow> 'k \<Rightarrow> 'k) \<Rightarrow> ('k \<Rightarrow> int \<rightharpoonup> u32) \<Rightarrow> bool \<Rightarrow> ('h, 'k) net \<Rightarrow> bool" where
  "accepting ctl kclose interest waits n \<longleftrightarrow> epoll_laws ctl kclose interest \<and> em_agrees interest n \<and>
     \<not> is_shutdown (snd n) \<and> (waits \<or> \<not> detached (fst n))"

lemma DelRecv_accepting:
  assumes "accepting ctl kclose interest False n"
  obtains n' where "DelRecv ctl n = Inr n'" "accepting ctl kclose interest False n'"
proof -
  obtain s em where n: "n = (s, em)" by (cases n)
  have a: "epoll_laws ctl kclose interest" "em_agrees interest (s, em)" "\<not> is_shutdown em" "\<not> detached s"
    using assms n by (simp_all add: accepting_def)
  obtain em' where "DelRecv ctl (s, em) = Inr (s\<lparr>io_state := io_state s AND NOT EPOLLIN, recv_coro := None\<rparr>, em')"
    "em_agrees interest (s\<lparr>io_state := io_state s AND NOT EPOLLIN, recv_coro := None\<rparr>, em')"
    "same_others interest (sock_fd s) em em'" by (rule DelRecv_ok [OF a])
  then show ?thesis using that a n by (simp add: accepting_def same_others_def)
qed

lemma AddRecv_accepting:
  assumes "accepting ctl kclose interest waits n"
  obtains n' where "AddRecv ctl h n = Inr n'" "\<not> is_shutdown (snd n')" "accepting ctl kclose interest False n'"
proof -
  obtain s em where n: "n = (s, em)" by (cases n)
  have a: "epoll_laws ctl kclose interest" "em_agrees interest (s, em)" "\<not> is_shutdown em"
    using assms n by (simp_all add: accepting_def)
  let ?s = "s\<lparr>io_state := attach_state EPOLLIN s, detached := False, recv_coro := Some h\<rparr>"
  obtain em' where "AddRecv ctl h (s, em) = Inr (?s, em')" "em_agrees interest (?s, em')"
    "same_others interest (sock_fd s) em em'" by (rule AddRecv_ok [OF a])
  then show ?thesis using that a n by (simp add: accepting_def same_others_def)
qed

lemma accept_one:
  assumes "accepting ctl kclose interest waits n" "0 \<le> fd"
  obtains n' where "\<forall>tr. accept ctl h ((if waits then [- 1, fd] else [fd]) @ tr, n) = Inr (Some (new_connection fd (snd n')), tr, n')"
    "accepting ctl kclose interest False n'"
proof (cases waits)
  case True
  obtain n1 where 1: "AddRecv ctl h n = Inr n1" "\<not> is_shutdown (snd n1)" "accepting ctl kclose interest False n1"
    by (rule AddRecv_accepting [OF assms(1)])
  obtain n2 where "DelRecv ctl n1 = Inr n2" "accepting ctl kclose interest False n2" by (rule DelRecv_accepting [OF 1(3)])
  then show ?thesis using that 1 True assms(2) by (simp add: accept_def AcceptAwaiter_def)
next
  case False
  have "accepting ctl kclose interest False n" using assms(1) False by simp
  then obtain n1 where "DelRecv ctl n = Inr n1" "accepting ctl kclose interest False n1" by (rule DelRecv_accepting)
  then show ?thesis using that False assms(2) by (simp add: accept_def AcceptAwaiter_def)
qed

lemma AcceptLoop_commits:
  assumes "cs \<noteq> [] \<Longrightarrow> accepting ctl kclose interest (fst (hd cs)) (acceptor s)" "\<forall>(waits, fd) \<in> set cs. 0 \<le> fd"
    and "\<not> srv_shutdown s"
  shows "\<exists>n conns. (\<forall>rest. AcceptLoop ctl h (arrivals cs @ rest) s = AcceptLoop ctl h rest
      (s\<lparr>acceptor := n, work_thread_pool := fold Commit (map HandleRequest conns) (work_thread_pool s)\<rparr>)) \<and>
    map (\<lambda>c. sock_fd (fst (conn_net c))) conns = map snd cs \<and> (cs \<noteq> [] \<longrightarrow> accepting ctl kclose interest False n)"
  using assms
proof (induction cs arbitrary: s)
  case Nil
  then show ?case by (intro exI [of _ "acceptor s"] exI [of _ "[]"]) (simp add: arrivals_def)
next
  case (Cons wf cs)
  obtain waits fd where wf: "wf = (waits, fd)" by (cases wf)
  have fd: "0 \<le> fd" and acc: "accepting ctl kclose interest waits (acceptor s)" using Cons.prems(1,2) wf by auto
  obtain n where n: "\<forall>tr. accept ctl h ((if waits then [- 1, fd] else [fd]) @ tr, acceptor s) =
      Inr (Some (new_connection fd (snd n)), tr, n)" "accepting ctl kclose interest False n"
    by (rule accept_one [OF acc fd])
  let ?c = "new_connection fd (snd n)"
  let ?s = "s\<lparr>acceptor := n, work_thread_pool := Commit (HandleRequest ?c) (work_thread_pool s)\<rparr>"
  have tr: "arrivals (wf # cs) @ rest = (if waits then [- 1, fd] else [fd]) @ arrivals cs @ rest" for rest
    by (simp add: arrivals_def wf)
  have "accept_round ctl h (arrivals (wf # cs) @ rest) s = Inr (True, arrivals cs @ rest, ?s)" for rest
    unfolding tr using n(1) Cons.prems(3) by (simp add: accept_round_def)
  then have step: "AcceptLoop ctl h (arrivals (wf # cs) @ rest) s = AcceptLoop ctl h (arrivals cs @ rest) ?s" for rest
    by (simp add: AcceptLoop.simps [of ctl h "arrivals (wf # cs) @ rest"])
  have acc': "accepting ctl kclose interest (fst (hd cs)) n" using n(2) by (simp add: accepting_def)
  show ?case
  proof (cases "cs = []")
    case True
    then show ?thesis using step n(2) wf
      by (intro exI [of _ n] exI [of _ "[?c]"]) (simp add: arrivals_def new_connection_def new_socket_def)
  next
    case False
    then obtain n' conns where "\<forall>rest. AcceptLoop ctl h (arrivals cs @ rest) ?s = AcceptLoop ctl h rest
        (?s\<lparr>acceptor := n', work_thread_pool := fold Commit (map HandleRequest conns) (work_thread_pool ?s)\<rparr>)"
      "map (\<lambda>c. sock_fd (fst (conn_net c))) conns = map snd cs" "accepting ctl kclose interest False n'"
      using Cons.IH [of ?s] acc' Cons.prems by auto
    then show ?thesis using step wf
      by (intro exI [of _ n'] exI [of _ "?c # conns"]) (simp add: new_connection_def new_socket_def)
  qed
qed

lemma AcceptLoop_Nil: "\<not> srv_shutdown s \<Longrightarrow> AcceptLoop ctl h [] s = (Some Suspended, [], s)"
  by (simp add: AcceptLoop.simps accept_round_def accept_def AcceptAwaiter_def)


definition example_tcp :: "(unit, int \<rightharpoonup> u32, unit) tcp_server" where
  "example_tcp = \<lparr>acceptor = (new_socket 5, new_event_manager Map.empty 2048), acceptor_opts = new_opts True, sub_reactors = [], cnt = 0, srv_shutdown = False,
     reactor_thread_pool = new_pool 1, work_thread_pool = Commit TickJob (new_pool 4), srv_timers = new_timer_manager\<rparr>"


text \<open>The reactors that consecutive calls of \<open>GetSubReactor\<close> return.\<close>

primrec sub_picks :: "nat \<Rightarrow> ('h, 'k, 'f) tcp_server \<Rightarrow> server_error + nat list" where
  "sub_picks 0 s = Inr []"
| "sub_picks (Suc m) s = try_bind (GetSubReactor s) (\<lambda>(i, s'). try_bind (sub_picks m s') (\<lambda>is. Inr (i # is)))"

lemma sub_picks_eq:
  assumes "sub_reactors s \<noteq> []" "length (sub_reactors s) < 2 ^ 64" "unat (cnt s) + m < 2 ^ 64"
  shows "sub_picks m s = Inr (map (\<lambda>i. (unat (cnt s) + i) mod length (sub_reactors s)) [0..<m])"
  using assms
proof (induction m arbitrary: s)
  case (Suc m)
  let ?n = "length (sub_reactors s)" and ?s = "s\<lparr>cnt := cnt s + 1\<rparr>"
  have c: "unat (cnt s + 1) = unat (cnt s) + 1" using Suc.prems(3) by (simp add: unat_word_ariths)
  have "unat (cnt s mod of_nat ?n) = unat (cnt s) mod ?n" using Suc.prems(2) by (simp add: unat_mod unat_of_nat)
  then have "GetSubReactor s = Inr (unat (cnt s) mod ?n, ?s)" using Suc.prems(1) by (simp add: GetSubReactor_def)
  moreover have "sub_picks m ?s = Inr (map (\<lambda>i. (unat (cnt s) + 1 + i) mod ?n) [0..<m])"
    using Suc.IH [of ?s] Suc.prems c by simp
  ultimately show ?case by (simp add: upt_conv_Cons map_Suc_upt [symmetric] del: upt_Suc) 
qed simp

text \<open>
  Claim C34. The reactors of a server with at least four threads are \<open>thread_num / 2 - 1\<close>, and
  \<open>GetSubReactor\<close> hands them out round robin from the first one. With two or three threads
  there is none and \<open>GetSubReactor\<close> divides by zero; with fewer the bound of the loop that
  creates them wraps around to the largest \<open>size_t\<close>.
\<close>

theorem sub_reactors_round_robin:
  assumes "TcpServer epoll fd bind_ret listen_ret thread_num tm = Inr s" "m < 2 ^ 64"
  shows "if 4 \<le> thread_num
    then length (sub_reactors s) = unat thread_num div 2 - 1 \<and> sub_picks m s = Inr (map (\<lambda>i. i mod (unat thread_num div 2 - 1)) [0..<m])
    else if 2 \<le> thread_num then GetSubReactor s = Inl ModuloZero
    else length (sub_reactors s) = 2 ^ 64 - 1"
proof -
  have s: "length (sub_reactors s) = unat (thread_num div 2 - 1)" "cnt s = 0"
    using assms(1) by (auto simp: TcpServer_def try_bind_eq_Inr sub_reactor_num_def split: if_splits)
  have half: "unat (thread_num div 2) = unat thread_num div 2" by (simp add: unat_div)
  consider "4 \<le> thread_num" | "2 \<le> thread_num" "\<not> 4 \<le> thread_num" | "\<not> 2 \<le> thread_num" "\<not> 4 \<le> thread_num" by force
  then show ?thesis
  proof cases
    case 1
    then have t: "4 \<le> unat thread_num" by (simp add: word_le_nat_alt)
    then have n: "length (sub_reactors s) = unat thread_num div 2 - 1"
      using s(1) half unat_sub [of 1 "thread_num div 2"] by (simp add: word_le_nat_alt)
    moreover have "sub_reactors s \<noteq> []" using n t by auto
    moreover have "unat thread_num < 2 ^ LENGTH(64)" by (rule unsigned_less)
    ultimately show ?thesis using 1 sub_picks_eq [of s m] s(2) assms(2) by simp
  next
    case 2
    then have "unat thread_num div 2 = 1" by (simp add: word_le_nat_alt)
    then have "thread_num div 2 = 1" using half by (metis unsigned_1 word_unat_eq_iff)
    then show ?thesis using 2 s(1) by (simp add: GetSubReactor_def)
  next
    case 3
    then have "unat thread_num div 2 = 0" by (simp add: word_le_nat_alt)
    then have "thread_num div 2 = 0" using half by (metis unsigned_0 word_unat_eq_iff)
    then show ?thesis using 3 s(1) by (simp add: unsigned_minus_1_eq_mask mask_eq_exp_minus_1)
  qed
qed

theorem sub_reactors_round_robin_witness:
  "\<exists>s :: (unit, int \<rightharpoonup> u32, unit) tcp_server. TcpServer Map.empty 5 0 0 8 new_timer_manager = Inr s \<and> sub_picks 5 s = Inr [0, 1, 2, 0, 1]"
proof -
  obtain s :: "(unit, int \<rightharpoonup> u32, unit) tcp_server" where s: "TcpServer Map.empty 5 0 0 8 new_timer_manager = Inr s"
    by (simp add: TcpServer_def TcpAcceptor_def BindAddress_def Listen_def)
  then show ?thesis using sub_reactors_round_robin [OF s, of 5] by (simp add: upt_rec)
qed

end
