(* ===== verification/Fair_Pool.thy ===== *)
theory Fair_Pool
  imports Thread_Pool
begin

text \<open>
  Infinite runs of the thread pool under a fair scheduler: every worker that can take a task
  keeps its chance until it does, and every task that ends is run to its end. Tasks of a given
  kind may run forever.
\<close>

definition takes :: "nat \<Rightarrow> 't pool_run \<Rightarrow> 't pool_run \<Rightarrow> bool" where
  "takes i r r' \<longleftrightarrow> (\<exists>p t. worker_take i (run_pool r) = Some p \<and> pool_workers p ! i = Busy t \<and>
     r' = r\<lparr>run_pool := p, run_started := run_started r @ [t]\<rparr>)"

definition completes :: "('t \<Rightarrow> bool) \<Rightarrow> nat \<Rightarrow> 't pool_run \<Rightarrow> 't pool_run \<Rightarrow> bool" where
  "completes endless i r r' \<longleftrightarrow> (\<exists>t p. worker_done i (run_pool r) = Some (t, p) \<and> \<not> endless t \<and>
     r' = r\<lparr>run_pool := p, run_finished := run_finished r @ [t]\<rparr>)"

definition fair_pool_run :: "('t \<Rightarrow> bool) \<Rightarrow> nat \<Rightarrow> (nat \<Rightarrow> 't pool_run) \<Rightarrow> bool" where
  "fair_pool_run endless n rs \<longleftrightarrow> pool_inv n (rs 0) \<and> (\<forall>k. pool_step\<^sup>=\<^sup>= (rs k) (rs (Suc k))) \<and>
     (\<forall>i < n. weakly_fair (takes i) rs \<and> weakly_fair (completes endless i) rs) \<and>
     (\<forall>k. length (filter endless (run_accepted (rs k))) < n)"

section \<open>What a step can change\<close>

lemma pool_step_extends:
  "pool_step r r' \<Longrightarrow> (\<exists>as ss fs. run_accepted r' = run_accepted r @ as \<and> run_started r' = run_started r @ ss \<and>
    run_finished r' = run_finished r @ fs)"
  by (induction rule: pool_step.induct) auto

lemma pool_step_worker:
  assumes "pool_step r r'" "pool_workers (run_pool r') ! i \<noteq> pool_workers (run_pool r) ! i" "\<not> pool_stop (run_pool r)"
  shows "takes i r r' \<or> (\<exists>t p. worker_done i (run_pool r) = Some (t, p) \<and> r' = r\<lparr>run_pool := p, run_finished := run_finished r @ [t]\<rparr>)"
  using assms
proof (induction rule: pool_step.induct)
  case (start k r p t)
  then have "k = i" by (auto simp: worker_take_def nth_list_update split: if_splits list.splits)
  with start show ?case by (auto simp: takes_def)
next
  case (leave k r p)
  then show ?case by (auto simp: worker_take_def split: if_splits list.splits)
next
  case (finish k r t p)
  then have "k = i" by (auto simp: worker_done_def nth_list_update split: if_splits worker.splits)
  with finish show ?case by auto
qed (auto simp: Commit_def Shutdown_stop_def split: if_splits)

lemma takes_starts: "takes i r r' \<Longrightarrow> length (run_started r') = Suc (length (run_started r))"
  by (auto simp: takes_def)

section \<open>Runs\<close>

lemma fair_pool_inv: "fair_pool_run endless n rs \<Longrightarrow> pool_inv n (rs k)"
  by (induction k) (auto simp: fair_pool_run_def dest: pool_step_inv)

lemma fair_pool_extends:
  assumes "fair_pool_run endless n rs" "j \<le> k"
  shows "\<exists>as ss fs. run_accepted (rs k) = run_accepted (rs j) @ as \<and> run_started (rs k) = run_started (rs j) @ ss \<and>
    run_finished (rs k) = run_finished (rs j) @ fs"
  using assms(2)
proof (induction rule: dec_induct)
  case (step k)
  have "pool_step (rs k) (rs (Suc k)) \<or> rs (Suc k) = rs k" using assms(1) by (auto simp: fair_pool_run_def)
  then show ?case using step.IH pool_step_extends [of "rs k" "rs (Suc k)"] by auto
qed simp

lemma started_mono: "fair_pool_run endless n rs \<Longrightarrow> mono (\<lambda>k. length (run_started (rs k)))"
  using fair_pool_extends by (intro monoI) fastforce

lemma finished_mono: "fair_pool_run endless n rs \<Longrightarrow> mono (\<lambda>k. count (mset (run_finished (rs k))) x)"
  using fair_pool_extends by (intro monoI) fastforce

text \<open>A worker that waits while there are tasks takes one; a worker with a task that ends ends it.\<close>

lemma waiting_takes:
  assumes run: "fair_pool_run endless n rs" and "i < n" "pool_workers (run_pool (rs k)) ! i = Waiting"
    and tasks: "\<And>j. k \<le> j \<Longrightarrow> pool_tasks (run_pool (rs j)) \<noteq> []"
  obtains j where "k \<le> j" "takes i (rs j) (rs (Suc j))"
proof -
  let ?P = "\<lambda>r. pool_workers (run_pool r) ! i = Waiting"
  have running: "\<not> pool_stop (run_pool (rs j))" "i < length (pool_workers (run_pool (rs j)))" if "k \<le> j" for j
    using tasks [OF that] fair_pool_inv [OF run, of j] assms(2) by (auto simp: pool_inv_def)
  show ?thesis
  proof (rule weakly_fair_taken [where act = "takes i" and rs = rs and P = ?P and k = k])
    fix j assume j: "k \<le> j" "?P (rs j)"
    show "\<exists>s. takes i (rs j) s"
      using running [OF j(1)] tasks [OF j(1)] j(2)
      by (cases "pool_tasks (run_pool (rs j))") (auto simp: takes_def worker_take_def)
    show "?P (rs (Suc j))" if "\<not> takes i (rs j) (rs (Suc j))"
    proof (rule ccontr)
      assume c: "\<not> ?P (rs (Suc j))"
      then have "pool_step (rs j) (rs (Suc j))" using run j(2) by (auto simp: fair_pool_run_def)
      from pool_step_worker [OF this, of i] c j that running(1) show False by (auto simp: worker_done_def split: if_splits)
    qed
  qed (use run assms(2,3) that in \<open>auto simp: fair_pool_run_def\<close>)
qed

lemma busy_completes:
  assumes run: "fair_pool_run endless n rs" and "i < n" "pool_workers (run_pool (rs k)) ! i = Busy t" "\<not> endless t"
  obtains j where "k \<le> j" "pool_workers (run_pool (rs j)) ! i = Busy t" "completes endless i (rs j) (rs (Suc j))"
proof -
  let ?P = "\<lambda>r. pool_workers (run_pool r) ! i = Busy t"
  have len: "i < length (pool_workers (run_pool (rs j)))" for j
    using fair_pool_inv [OF run, of j] assms(2) by (auto simp: pool_inv_def)
  show ?thesis
  proof (rule weakly_fair_taken [where act = "completes endless i" and rs = rs and P = ?P and k = k])
    fix j assume j: "k \<le> j" "?P (rs j)"
    show "\<exists>s. completes endless i (rs j) s" using len j(2) assms(4) by (auto simp: completes_def worker_done_def)
    show "?P (rs (Suc j))" if "\<not> completes endless i (rs j) (rs (Suc j))"
    proof (rule ccontr)
      assume c: "\<not> ?P (rs (Suc j))"
      then have "pool_step (rs j) (rs (Suc j))" using run j(2) by (auto simp: fair_pool_run_def)
      then show False using c j(2) that len assms(4)
        by (cases rule: pool_step.cases)
          (auto simp: completes_def worker_done_def worker_take_def Commit_def Shutdown_stop_def nth_list_update
            split: if_splits list.splits worker.splits)
    qed
  qed (use run assms(2,3) that in \<open>auto simp: fair_pool_run_def\<close>)
qed

section \<open>Every accepted task starts\<close>

lemma free_worker:
  assumes "pool_inv n r" "length (filter endless (run_accepted r)) < n" "\<not> pool_stop (run_pool r)"
  obtains i where "i < n" "pool_workers (run_pool r) ! i = Waiting"
  | i t where "i < n" "pool_workers (run_pool r) ! i = Busy t" "\<not> endless t"
proof (cases "{#t \<in># busy (run_pool r). \<not> endless t#} = {#}")
  case True
  obtain i where "i < length (pool_workers (run_pool r))" "pool_workers (run_pool r) ! i = Waiting"
    by (rule waiting_worker [OF assms True])
  then show ?thesis using that(1) assms(1) by (simp add: pool_inv_def)
next
  case False
  then obtain t where t: "t \<in># busy (run_pool r)" "\<not> endless t" by auto
  obtain i where "i < length (pool_workers (run_pool r))" "pool_workers (run_pool r) ! i = Busy t"
    by (rule busy_worker [OF t(1)])
  then show ?thesis using that(2) t(2) assms(1) by (simp add: pool_inv_def)
qed

lemma completes_waiting:
  assumes "completes endless i r r'" shows "pool_workers (run_pool r') ! i = Waiting"
  using assms by (auto simp: completes_def worker_done_def split: if_splits worker.splits)

lemma some_worker_takes:
  assumes run: "fair_pool_run endless n rs" and tasks: "\<And>j. k \<le> j \<Longrightarrow> pool_tasks (run_pool (rs j)) \<noteq> []"
  obtains i j where "k \<le> j" "takes i (rs j) (rs (Suc j))"
proof -
  have inv: "pool_inv n (rs k)" by (rule fair_pool_inv [OF run])
  then have "\<not> pool_stop (run_pool (rs k))" using tasks [of k] by (auto simp: pool_inv_def)
  moreover have "length (filter endless (run_accepted (rs k))) < n" using run by (simp add: fair_pool_run_def)
  ultimately consider (waits) i where "i < n" "pool_workers (run_pool (rs k)) ! i = Waiting"
    | (works) i t where "i < n" "pool_workers (run_pool (rs k)) ! i = Busy t" "\<not> endless t"
    using free_worker [OF inv, of endless] by metis
  then show ?thesis
  proof cases
    case (waits i)
    then show ?thesis using waiting_takes [OF run waits tasks] that by blast
  next
    case (works i t)
    then obtain j where j: "k \<le> j" "completes endless i (rs j) (rs (Suc j))" using busy_completes [OF run] by blast
    have later: "\<And>j'. Suc j \<le> j' \<Longrightarrow> pool_tasks (run_pool (rs j')) \<noteq> []" using tasks j(1) by auto
    obtain j' where "Suc j \<le> j'" "takes i (rs j') (rs (Suc j'))"
      by (rule waiting_takes [OF run works(1) completes_waiting [OF j(2)] later])
    then show ?thesis using that [of j' i] j(1) by simp
  qed
qed

lemma eventually_started:
  assumes run: "fair_pool_run endless n rs"
  obtains j where "k \<le> j" "length (run_accepted (rs k)) \<le> length (run_started (rs j))"
proof (rule ccontr)
  note found = that
  assume no: "\<not> thesis"
  have less: "length (run_started (rs j)) < length (run_accepted (rs k))" if "k \<le> j" for j
    using no found [OF that] by fastforce
  have bounded: "length (run_started (rs j)) \<le> length (run_accepted (rs k))" for j
    using less [of "max j k"] monoD [OF started_mono [OF run], of j "max j k"] by simp
  obtain j where j: "k \<le> j" "\<forall>i \<ge> j. length (run_started (rs i)) = length (run_started (rs j))"
    by (rule mono_bounded_stable [where k = k, OF started_mono [OF run] bounded])
  have "pool_tasks (run_pool (rs i)) \<noteq> []" if "j \<le> i" for i
  proof -
    have "length (run_accepted (rs k)) \<le> length (run_accepted (rs i))"
      using fair_pool_extends [OF run, of k i] that j(1) by fastforce
    then show ?thesis using less [of i] that j(1) fair_pool_inv [OF run, of i] by (auto simp: pool_inv_def)
  qed
  then obtain w i where "j \<le> i" "takes w (rs i) (rs (Suc i))" by (rule some_worker_takes [OF run])
  then show False using j(2) takes_starts by (metis le_SucI n_not_Suc_n)
qed

section \<open>Every started task that ends finishes\<close>

lemma eventually_finished:
  assumes run: "fair_pool_run endless n rs" and x: "\<not> endless x"
  obtains j where "k \<le> j" "count (mset (run_started (rs k))) x \<le> count (mset (run_finished (rs j))) x"
proof (rule ccontr)
  note found = that
  assume no: "\<not> thesis"
  let ?f = "\<lambda>j. count (mset (run_finished (rs j))) x" and ?c = "count (mset (run_started (rs k))) x"
  have less: "?f j < ?c" if "k \<le> j" for j using no found [OF that] by fastforce
  have bounded: "?f j \<le> ?c" for j
    using less [of "max j k"] monoD [OF finished_mono [OF run], of j "max j k" x] by simp
  obtain j where j: "k \<le> j" "\<forall>i \<ge> j. ?f i = ?f j"
    by (rule mono_bounded_stable [where k = k, OF finished_mono [OF run] bounded])
  have "?c \<le> count (mset (run_started (rs j))) x" using fair_pool_extends [OF run j(1)] by fastforce
  then have "x \<in># busy (run_pool (rs j))"
    using less [OF j(1)] fair_pool_inv [OF run, of j] by (auto simp: pool_inv_def count_inI)
  then obtain i where "i < length (pool_workers (run_pool (rs j)))" "pool_workers (run_pool (rs j)) ! i = Busy x"
    by (rule busy_worker)
  then have "i < n" "pool_workers (run_pool (rs j)) ! i = Busy x" using fair_pool_inv [OF run, of j] by (auto simp: pool_inv_def)
  then obtain j' where j': "j \<le> j'" "pool_workers (run_pool (rs j')) ! i = Busy x" "completes endless i (rs j') (rs (Suc j'))"
    using busy_completes [OF run] x by blast
  then have "?f (Suc j') = Suc (?f j')" by (auto simp: completes_def worker_done_def split: if_splits)
  then show False using j(2) j'(1) by (metis le_SucI n_not_Suc_n)
qed

lemma accepted_finish:
  assumes run: "fair_pool_run endless n rs"
  shows "\<exists>j \<ge> k. {#t \<in># mset (run_accepted (rs k)). \<not> endless t#} \<subseteq># mset (run_finished (rs j))"
proof -
  let ?M = "{#t \<in># mset (run_accepted (rs k)). \<not> endless t#}"
  obtain j where j: "k \<le> j" "length (run_accepted (rs k)) \<le> length (run_started (rs j))" by (rule eventually_started [OF run])
  have "mset (run_accepted (rs k)) \<subseteq># mset (run_started (rs j))"
  proof -
    have "run_accepted (rs j) = run_started (rs j) @ pool_tasks (run_pool (rs j))"
      using fair_pool_inv [OF run, of j] by (simp add: pool_inv_def)
    moreover obtain as where "run_accepted (rs j) = run_accepted (rs k) @ as" using fair_pool_extends [OF run j(1)] by blast
    ultimately obtain ss where "run_started (rs j) = run_accepted (rs k) @ ss" using j(2) by (metis append_eq_append_conv_if append_eq_conv_conj)
    then show ?thesis by simp
  qed
  then have c: "count ?M x \<le> count (mset (run_started (rs j))) x" for x
    by (cases "endless x") (auto simp: mset_subset_eq_count)
  let ?Q = "\<lambda>x i. count ?M x \<le> count (mset (run_finished (rs i))) x"
  have "\<exists>i \<ge> j. \<forall>x \<in> set_mset ?M. ?Q x i"
  proof (rule eventually_all)
    fix x assume x: "x \<in> set_mset ?M"
    obtain i where "j \<le> i" "count (mset (run_started (rs j))) x \<le> count (mset (run_finished (rs i))) x"
      by (rule eventually_finished [OF run, of x j]) (use x in auto)
    then show "\<exists>i \<ge> j. ?Q x i" using c [of x] le_trans by blast
  next
    fix x i i' assume "i \<le> (i' :: nat)" "?Q x i"
    then show "?Q x i'" using monoD [OF finished_mono [OF run], of i i' x] le_trans by blast
  qed simp
  then obtain i where i: "j \<le> i" "\<forall>x \<in> set_mset ?M. ?Q x i" by blast
  then have "?M \<subseteq># mset (run_finished (rs i))" by (intro mset_subset_eqI) (metis count_inI le0)
  then show ?thesis using i(1) j(1) by (intro exI [of _ i]) simp
qed

text \<open>A pool without queued tasks whose workers run only endless ones is at rest.\<close>

lemma takes_idle: "pool_tasks (run_pool r) = [] \<Longrightarrow> \<nexists>s. takes i r s"
  by (auto simp: takes_def worker_take_def split: if_splits)

lemma completes_idle:
  assumes "{#t \<in># busy (run_pool r). \<not> endless t#} = {#}"
  shows "\<nexists>s. completes endless i r s"
proof
  assume "\<exists>s. completes endless i r s"
  then obtain t where t: "i < length (pool_workers (run_pool r))" "pool_workers (run_pool r) ! i = Busy t" "\<not> endless t"
    by (auto simp: completes_def worker_done_def split: if_splits worker.splits)
  then have "t \<in># busy (run_pool r)" using busy_member by (metis nth_mem)
  with assms t(3) show False by auto
qed

section \<open>Properties\<close>

text \<open>A run of a pool with one worker that finishes a task and then rests.\<close>

definition example_states :: "nat pool_run list" where
  "example_states = [new_run 1,
     (new_run 1)\<lparr>run_pool := \<lparr>pool_workers = [Waiting], pool_tasks = [7], pool_stop = False\<rparr>, run_accepted := [7]\<rparr>,
     (new_run 1)\<lparr>run_pool := \<lparr>pool_workers = [Busy 7], pool_tasks = [], pool_stop = False\<rparr>, run_accepted := [7], run_started := [7]\<rparr>,
     (new_run 1)\<lparr>run_accepted := [7], run_started := [7], run_finished := [7]\<rparr>]"

definition example_rs :: "nat \<Rightarrow> nat pool_run" where
  "example_rs k = example_states ! min k 3"

lemma example_rs_fair: "fair_pool_run (\<lambda>t. t = 9) 1 example_rs"
proof -
  have rest: "example_rs k = example_states ! 3" if "3 \<le> k" for k using that by (simp add: example_rs_def)
  have idle: "\<nexists>s. takes 0 (example_states ! 3) s" "\<nexists>s. completes (\<lambda>t. t = 9) 0 (example_states ! 3) s"
    by (simp_all add: example_states_def takes_def completes_def new_run_def new_pool_def worker_take_def worker_done_def)
  have steps: "pool_step\<^sup>=\<^sup>= (example_rs k) (example_rs (Suc k))" for k
  proof -
    consider "k = 0" | "k = 1" | "k = 2" | "3 \<le> k" by linarith
    then show ?thesis
    proof cases
      case 1
      then show ?thesis using pool_step.commit [of "new_run 1" 7]
        by (simp add: example_rs_def example_states_def Commit_def new_run_def new_pool_def)
    next
      case 2
      then show ?thesis using pool_step.start [of 0 "example_states ! 1" "\<lparr>pool_workers = [Busy 7], pool_tasks = [], pool_stop = False\<rparr>" 7]
        by (simp add: example_rs_def example_states_def worker_take_def new_run_def)
    next
      case 3
      then show ?thesis using pool_step.finish [of 0 "example_states ! 2" 7 "\<lparr>pool_workers = [Waiting], pool_tasks = [], pool_stop = False\<rparr>"]
        by (simp add: example_rs_def example_states_def worker_done_def new_run_def new_pool_def)
    qed (simp add: rest)
  qed
  have "pool_inv 1 (example_rs 0)"
    by (simp add: example_rs_def example_states_def pool_inv_def new_run_def new_pool_def busy_def)
  moreover have "weakly_fair (takes 0) example_rs" "weakly_fair (completes (\<lambda>t. t = 9) 0) example_rs"
    using weakly_fair_rest [of 3 example_rs "example_states ! 3" "takes 0"] rest idle
      weakly_fair_rest [of 3 example_rs "example_states ! 3" "completes (\<lambda>t. t = 9) 0"] by simp_all
  moreover have "length (filter (\<lambda>t. t = 9) (run_accepted (example_rs k))) < 1" for k
  proof -
    have "example_rs k \<in> set example_states" unfolding example_rs_def by (rule nth_mem) (simp add: example_states_def)
    then show ?thesis by (auto simp: example_states_def new_run_def)
  qed
  ultimately show ?thesis using steps by (simp add: fair_pool_run_def)
qed

text \<open>
  Claim C21. Under a fair scheduler every accepted task is eventually run to its end: in an
  infinite run from a state the pool can be in, in which each worker that can take a task eventually does and each task that
  ends is run to its end, all tasks accepted at any time, except those that never end, are
  finished at some later time. It is enough that fewer tasks never end than there are workers.
\<close>

theorem accepted_tasks_finish:
  assumes "fair_pool_run endless n rs"
  shows "\<exists>j \<ge> k. {#t \<in># mset (run_accepted (rs k)). \<not> endless t#} \<subseteq># mset (run_finished (rs j))"
  using assms by (rule accepted_finish)

theorem accepted_tasks_finish_witness:
  "\<exists>j \<ge> 1. {#t \<in># mset (run_accepted (example_rs 1)). t \<noteq> 9#} \<subseteq># mset (run_finished (example_rs j))"
  by (rule accepted_tasks_finish [OF example_rs_fair])

end
