(* ===== verification/Server_Run.thy ===== *)
theory Server_Run
  imports Tcp_Server Fair_Pool
begin

text \<open>
  Runs of a whole server: \<open>TcpServer\<close> with its two pools, the accept loop, the timer thread and
  \<open>Shutdown\<close>, interleaved.

  The accept loop is a coroutine. The reactor thread starts it; its round is two steps, the
  test of \<open>is_shutdown_\<close> and the completion of \<open>accept\<close> with the commit that follows, because
  \<open>Shutdown\<close> can run in between. The job of the reactor thread ends when the coroutine has first
  been suspended or has ended. The timer loop ends only when the timer manager was stopped.
  The job of a connection is \<open>HandleRequest(conn).run()\<close>: it returns when the handler is first
  suspended or at its end. Some handlers do neither: the repository's HTTP handler, for one, loops
  in its worker once the peer has closed the connection. The parameter \<open>spins\<close> tells for which
  connections the job never returns; it is arbitrary, and its jobs do not end.
  \<open>Shutdown\<close> sets the flags, then shuts down the reactor pool, and the work pool when the
  reactor pool has been joined. The history has the connections committed and those dropped by
  a stopped pool, and the jobs the work pool started and finished.
\<close>

section \<open>The model\<close>

datatype loop_state = NotStarted | Checking | Accepting | Ended

record ('h, 'k, 'f) server_run =
  sr_server :: "('h, 'k, 'f) tcp_server"
  sr_loop :: loop_state
  sr_accepted :: "('h, 'k) tcp_connection list"
  sr_dropped :: "('h, 'k) tcp_connection list"
  sr_started :: "('h, 'k) job list"
  sr_finished :: "('h, 'k) job list"

definition new_server_run :: "('h, 'k, 'f) tcp_server \<Rightarrow> ('h, 'k, 'f) server_run" where
  "new_server_run s = \<lparr>sr_server = server_Start True s, sr_loop = NotStarted, sr_accepted = [], sr_dropped = [],
     sr_started = [], sr_finished = []\<rparr>"

definition set_work_pool :: "('h, 'k) job thread_pool \<Rightarrow> ('h, 'k, 'f) server_run \<Rightarrow> ('h, 'k, 'f) server_run" where
  "set_work_pool p r = r\<lparr>sr_server := (sr_server r)\<lparr>work_thread_pool := p\<rparr>\<rparr>"

text \<open>The rest of a round of \<open>AcceptLoop\<close> after \<open>accept\<close> has returned.\<close>

definition accepted :: "('h, 'k) tcp_connection option \<Rightarrow> ('h, 'k) net \<Rightarrow> ('h, 'k, 'f) server_run \<Rightarrow> ('h, 'k, 'f) server_run" where
  "accepted conn n r =
     (let s = (sr_server r)\<lparr>acceptor := n\<rparr>; r1 = r\<lparr>sr_server := s, sr_loop := Checking\<rparr> in
      case conn of
        None \<Rightarrow> r1
      | Some c \<Rightarrow>
          let r2 = set_work_pool (Commit (HandleRequest c) (work_thread_pool s)) r1 in
          if pool_stop (work_thread_pool s) then r2\<lparr>sr_dropped := sr_dropped r @ [c]\<rparr>
          else r2\<lparr>sr_accepted := sr_accepted r @ [c]\<rparr>)"

fun spinning :: "(('h, 'k) tcp_connection \<Rightarrow> bool) \<Rightarrow> ('h, 'k) job \<Rightarrow> bool" where
  "spinning spins (HandleRequest c) = spins c"
| "spinning spins _ = False"

inductive server_step :: "'k ctl \<Rightarrow> 'h \<Rightarrow> (('h, 'k) tcp_connection \<Rightarrow> bool) \<Rightarrow> ('h, 'k, 'f) server_run \<Rightarrow> ('h, 'k, 'f) server_run \<Rightarrow> bool" for ctl h spins where
  loop_start: "worker_take i (reactor_thread_pool (sr_server r)) = Some p \<Longrightarrow> pool_workers p ! i = Busy AcceptJob \<Longrightarrow>
    server_step ctl h spins r (r\<lparr>sr_server := (sr_server r)\<lparr>reactor_thread_pool := p\<rparr>, sr_loop := Checking\<rparr>)"
| loop_check: "sr_loop r = Checking \<Longrightarrow>
    server_step ctl h spins r (r\<lparr>sr_loop := (if srv_shutdown (sr_server r) then Ended else Accepting)\<rparr>)"
| loop_accept: "sr_loop r = Accepting \<Longrightarrow> accept ctl h (tr, acceptor (sr_server r)) = Inr (conn, [], n) \<Longrightarrow>
    server_step ctl h spins r (accepted conn n r)"
| reactor_done: "worker_done i (reactor_thread_pool (sr_server r)) = Some (t, p) \<Longrightarrow> sr_loop r \<in> {Accepting, Ended} \<Longrightarrow>
    server_step ctl h spins r (r\<lparr>sr_server := (sr_server r)\<lparr>reactor_thread_pool := p\<rparr>\<rparr>)"
| reactor_leave: "worker_take i (reactor_thread_pool (sr_server r)) = Some p \<Longrightarrow> pool_workers p ! i = Exited \<Longrightarrow>
    server_step ctl h spins r (r\<lparr>sr_server := (sr_server r)\<lparr>reactor_thread_pool := p\<rparr>\<rparr>)"
| job_start: "worker_take i (work_thread_pool (sr_server r)) = Some p \<Longrightarrow> pool_workers p ! i = Busy t \<Longrightarrow>
    server_step ctl h spins r ((set_work_pool p r)\<lparr>sr_started := sr_started r @ [t]\<rparr>)"
| job_done: "worker_done i (work_thread_pool (sr_server r)) = Some (t, p) \<Longrightarrow>
    t = TickJob \<longrightarrow> tm_stop (srv_timers (sr_server r)) \<Longrightarrow> \<not> spinning spins t \<Longrightarrow>
    server_step ctl h spins r ((set_work_pool p r)\<lparr>sr_finished := sr_finished r @ [t]\<rparr>)"
| worker_leave: "worker_take i (work_thread_pool (sr_server r)) = Some p \<Longrightarrow> pool_workers p ! i = Exited \<Longrightarrow>
    server_step ctl h spins r (set_work_pool p r)"
| timer: "tm_step (srv_timers (sr_server r)) tm \<Longrightarrow>
    server_step ctl h spins r (r\<lparr>sr_server := (sr_server r)\<lparr>srv_timers := tm\<rparr>\<rparr>)"
| flags: "server_step ctl h spins r (r\<lparr>sr_server := Shutdown_flags (sr_server r)\<rparr>)"
| stop_reactor: "srv_shutdown (sr_server r) \<Longrightarrow> Shutdown_stop (reactor_thread_pool (sr_server r)) = Some p \<Longrightarrow>
    server_step ctl h spins r (r\<lparr>sr_server := (sr_server r)\<lparr>reactor_thread_pool := p\<rparr>\<rparr>)"
| stop_work: "Shutdown_joined (reactor_thread_pool (sr_server r)) \<Longrightarrow>
    Shutdown_stop (work_thread_pool (sr_server r)) = Some p \<Longrightarrow> server_step ctl h spins r (set_work_pool p r)"

section \<open>The work pool inside the server\<close>

text \<open>The run of the work pool that a run of the server contains.\<close>

definition work_run :: "('h, 'k, 'f) server_run \<Rightarrow> ('h, 'k) job pool_run" where
  "work_run r = \<lparr>run_pool = work_thread_pool (sr_server r), run_accepted = TickJob # map HandleRequest (sr_accepted r),
     run_refused = map HandleRequest (sr_dropped r), run_started = sr_started r, run_finished = sr_finished r\<rparr>"

lemma work_run_cong:
  "work_thread_pool (sr_server r') = work_thread_pool (sr_server r) \<Longrightarrow> sr_accepted r' = sr_accepted r \<Longrightarrow>
    sr_dropped r' = sr_dropped r \<Longrightarrow> sr_started r' = sr_started r \<Longrightarrow> sr_finished r' = sr_finished r \<Longrightarrow> work_run r' = work_run r"
  by (simp add: work_run_def)

lemma work_run_accepted:
  "pool_step\<^sup>=\<^sup>= (work_run r) (work_run (accepted conn n r))"
proof (cases conn)
  case (Some c)
  show ?thesis
    using pool_step.commit [of "work_run r" "HandleRequest c"] pool_step.refuse [of "work_run r" "HandleRequest c"] Some
    by (simp add: work_run_def accepted_def set_work_pool_def Let_def split: if_splits)
qed (simp add: work_run_def accepted_def Let_def)

lemma server_step_work: "server_step ctl h spins r r' \<Longrightarrow> pool_step\<^sup>=\<^sup>= (work_run r) (work_run r')"
proof (induction rule: server_step.induct)
  case (loop_accept r tr conn n)
  show ?case by (rule work_run_accepted)
next
  case (job_start i r p t)
  then show ?case using pool_step.start [of i "work_run r" p t] by (simp add: work_run_def set_work_pool_def)
next
  case (job_done i r t p)
  then show ?case using pool_step.finish [of i "work_run r" t p] by (simp add: work_run_def set_work_pool_def)
next
  case (worker_leave i r p)
  then show ?case using pool_step.leave [of i "work_run r" p] by (simp add: work_run_def set_work_pool_def)
next
  case (stop_work r p)
  then show ?case using pool_step.halt [of "work_run r" p] by (simp add: work_run_def set_work_pool_def)
qed (simp_all add: work_run_def Shutdown_flags_def)

interpretation work_pool: refinement_map "server_step ctl h spins" pool_step work_run for ctl h spins
  by unfold_locales (rule server_step_work)

lemma work_run_init:
  assumes "TcpServer epoll fd bind_ret listen_ret thread_num tm = Inr s"
  shows "pool_step (new_run (unat thread_num)) (work_run (new_server_run s))"
proof -
  have "work_thread_pool s = Commit TickJob (new_pool (unat thread_num))"
    using assms by (auto simp: TcpServer_def try_bind_eq_Inr split: if_splits)
  then show ?thesis
    using pool_step.commit [of "new_run (unat thread_num)" TickJob]
    by (simp add: work_run_def new_server_run_def server_Start_def new_run_def new_pool_def)
qed

section \<open>Invariants of the server\<close>

lemma tm_step_stop: "tm_step tm tm' \<Longrightarrow> tm_stop tm \<Longrightarrow> tm_stop tm'"
  by (induction rule: tm_step.induct)
    (auto simp: AddTimer_def RemoveTimer_def tick_round_def pop_def tm_shutdown_def Let_def split: option.splits if_splits)

text \<open>The reactor thread: its one job, the accept loop, is queued, running or done.\<close>

definition reactor_ok :: "('h, 'k, 'f) server_run \<Rightarrow> bool" where
  "reactor_ok r \<longleftrightarrow> (let p = reactor_thread_pool (sr_server r) in
     if sr_loop r = NotStarted
     then pool_workers p = [Waiting] \<and> pool_tasks p = [AcceptJob] \<and> \<not> pool_stop p
     else pool_tasks p = [] \<and> (pool_workers p = [Waiting] \<or> pool_workers p = [Busy AcceptJob] \<or> pool_workers p = [Exited] \<and> pool_stop p))"

text \<open>The timer loop ends only after the stop, no spinning job has ended, the pools are stopped in the order of \<open>Shutdown\<close>,
  and only a stopped pool drops connections.\<close>

definition server_inv :: "(('h, 'k) tcp_connection \<Rightarrow> bool) \<Rightarrow> nat \<Rightarrow> ('h, 'k, 'f) server_run \<Rightarrow> bool" where
  "server_inv spins n r \<longleftrightarrow> pool_inv n (work_run r) \<and> reactor_ok r \<and>
     (TickJob \<in> set (sr_finished r) \<longrightarrow> tm_stop (srv_timers (sr_server r))) \<and>
     (\<forall>t \<in> set (sr_finished r). \<not> spinning spins t) \<and>
     (sr_dropped r \<noteq> [] \<longrightarrow> pool_stop (work_thread_pool (sr_server r))) \<and>
     (pool_stop (work_thread_pool (sr_server r)) \<longrightarrow> pool_stop (reactor_thread_pool (sr_server r))) \<and>
     (pool_stop (reactor_thread_pool (sr_server r)) \<longrightarrow> srv_shutdown (sr_server r))"

lemma one_worker [simp]: "i < Suc 0 \<longleftrightarrow> i = 0" by auto

lemma server_step_rest:
  assumes "server_step ctl h spins r r'" "server_inv spins n r"
  shows "reactor_ok r' \<and> (TickJob \<in> set (sr_finished r') \<longrightarrow> tm_stop (srv_timers (sr_server r'))) \<and>
     (\<forall>t \<in> set (sr_finished r'). \<not> spinning spins t) \<and>
     (sr_dropped r' \<noteq> [] \<longrightarrow> pool_stop (work_thread_pool (sr_server r'))) \<and>
     (pool_stop (work_thread_pool (sr_server r')) \<longrightarrow> pool_stop (reactor_thread_pool (sr_server r'))) \<and>
     (pool_stop (reactor_thread_pool (sr_server r')) \<longrightarrow> srv_shutdown (sr_server r'))"
  using assms
proof (induction rule: server_step.induct)
  case (loop_start i r p)
  then show ?case by (auto simp: server_inv_def reactor_ok_def worker_take_def Let_def split: if_splits list.splits)
next
  case (loop_check r)
  then show ?case by (auto simp: server_inv_def reactor_ok_def Let_def split: if_splits)
next
  case (loop_accept r tr conn n)
  then show ?case
    by (auto simp: server_inv_def reactor_ok_def accepted_def set_work_pool_def Commit_def Let_def split: if_splits option.splits)
next
  case (reactor_done i r t p)
  then show ?case by (auto simp: server_inv_def reactor_ok_def worker_done_def Let_def split: if_splits)
next
  case (reactor_leave i r p)
  then show ?case by (auto simp: server_inv_def reactor_ok_def worker_take_def Let_def split: if_splits list.splits)
next
  case (job_start i r p t)
  then show ?case using worker_take_start [OF job_start.hyps] by (auto simp: server_inv_def reactor_ok_def set_work_pool_def)
next
  case (job_done i r t p)
  then show ?case using worker_done_eq [OF job_done.hyps(1)] by (auto simp: server_inv_def reactor_ok_def set_work_pool_def)
next
  case (worker_leave i r p)
  then show ?case using worker_take_leave [OF worker_leave.hyps] by (auto simp: server_inv_def reactor_ok_def set_work_pool_def)
next
  case (timer r tm)
  then show ?case using tm_step_stop [OF timer.hyps] by (auto simp: server_inv_def reactor_ok_def)
next
  case (flags r)
  then show ?case by (auto simp: server_inv_def reactor_ok_def Shutdown_flags_def tm_shutdown_def)
next
  case (stop_reactor r p)
  then show ?case by (auto simp: server_inv_def reactor_ok_def Shutdown_stop_def Let_def split: if_splits)
next
  case (stop_work r p)
  then show ?case
    by (auto simp: server_inv_def reactor_ok_def set_work_pool_def Shutdown_stop_def Shutdown_joined_def split: if_splits)
qed

lemma server_step_inv: "server_step ctl h spins r r' \<Longrightarrow> server_inv spins n r \<Longrightarrow> server_inv spins n r'"
  using server_step_work [of ctl h spins r r'] server_step_rest [of ctl h spins r r' n] pool_step_inv [of "work_run r" "work_run r'" n]
  by (auto simp: server_inv_def)

lemma server_steps_inv: "(server_step ctl h spins)\<^sup>*\<^sup>* r r' \<Longrightarrow> server_inv spins n r \<Longrightarrow> server_inv spins n r'"
  by (induction rule: rtranclp_induct) (auto intro: server_step_inv)

definition started_server :: "u64 \<Rightarrow> ('h, 'k, 'f) server_run \<Rightarrow> bool" where
  "started_server thread_num r \<longleftrightarrow> (\<exists>epoll fd bind_ret listen_ret tm s.
     TcpServer epoll fd bind_ret listen_ret thread_num tm = Inr s \<and> r = new_server_run s)"

lemma started_server_inv: "started_server thread_num r \<Longrightarrow> server_inv spins (unat thread_num) r"
proof -
  assume "started_server thread_num r"
  then obtain epoll fd bind_ret listen_ret tm s
    where s: "TcpServer epoll fd bind_ret listen_ret thread_num tm = Inr s" "r = new_server_run s"
    unfolding started_server_def by blast
  have "pool_inv (unat thread_num) (work_run r)"
    unfolding s(2) by (rule pool_sys.inv_reachable [OF refl]) (rule r_into_rtranclp [where r = pool_step], rule work_run_init [OF s(1)])
  then show ?thesis using s
    by (auto simp: server_inv_def reactor_ok_def TcpServer_def try_bind_eq_Inr new_server_run_def server_Start_def new_pool_def
        Commit_def split: if_splits)
qed

interpretation server_sys: step_system "started_server thread_num" "server_step ctl h spins" "server_inv spins (unat thread_num)" for thread_num ctl h spins
  by unfold_locales (rule started_server_inv, assumption, rule server_step_inv)

lemma started_server_work:
  assumes "started_server thread_num r0" "(server_step ctl h spins)\<^sup>*\<^sup>* r0 r"
  shows "pool_step\<^sup>*\<^sup>* (new_run (unat thread_num)) (work_run r)"
proof -
  have "pool_step (new_run (unat thread_num)) (work_run r0)"
    using assms(1) unfolding started_server_def by (elim exE conjE) (simp add: work_run_init)
  then show ?thesis using work_pool.img_steps [OF assms(2)] by (rule converse_rtranclp_into_rtranclp)
qed

section \<open>Serving and shutting down\<close>

text \<open>The jobs that do not end: the timer loop while the timer manager runs, and the handlers that
  spin.\<close>

definition endless_job :: "(('h, 'k) tcp_connection \<Rightarrow> bool) \<Rightarrow> ('h, 'k, 'f) server_run \<Rightarrow> ('h, 'k) job \<Rightarrow> bool" where
  "endless_job spins r t \<longleftrightarrow> t = TickJob \<and> \<not> tm_stop (srv_timers (sr_server r)) \<or> spinning spins t"

text \<open>Steps of the work pool alone leave the rest of the server as it is.\<close>

definition same_server :: "('h, 'k, 'f) server_run \<Rightarrow> ('h, 'k, 'f) server_run \<Rightarrow> bool" where
  "same_server r r' \<longleftrightarrow> (\<exists>p. sr_server r' = (sr_server r)\<lparr>work_thread_pool := p\<rparr>) \<and>
     sr_loop r' = sr_loop r \<and> sr_accepted r' = sr_accepted r \<and> sr_dropped r' = sr_dropped r"

lemma same_server_refl [simp]: "same_server r r"
  by (auto simp: same_server_def intro: exI [of _ "work_thread_pool (sr_server r)"])

lemma same_server_trans: "same_server r s \<Longrightarrow> same_server s t \<Longrightarrow> same_server r t"
  by (auto simp: same_server_def)

lemma same_server_endless: "same_server r r' \<Longrightarrow> endless_job spins r' = endless_job spins r"
  by (auto simp: same_server_def endless_job_def fun_eq_iff)

lemma same_server_set_work [simp]:
  "same_server r ((set_work_pool p r)\<lparr>sr_started := ts\<rparr>)" "same_server r ((set_work_pool p r)\<lparr>sr_finished := ts\<rparr>)"
  by (auto simp: same_server_def set_work_pool_def)

lemma work_thread_pool_set [simp]:
  "sr_server (set_work_pool p r) = (sr_server r)\<lparr>work_thread_pool := p\<rparr>" "sr_accepted (set_work_pool p r) = sr_accepted r"
  "sr_dropped (set_work_pool p r) = sr_dropped r" "sr_started (set_work_pool p r) = sr_started r"
  "sr_finished (set_work_pool p r) = sr_finished r" "sr_loop (set_work_pool p r) = sr_loop r"
  by (simp_all add: set_work_pool_def)

inductive_cases work_stepE: "work_step endless w w'"

lemma work_step_lifts:
  assumes "work_step (endless_job spins r) (work_run r) w"
  obtains r' where "server_step ctl h spins r r'" "work_run r' = w" "same_server r r'"
proof (rule work_stepE [OF assms])
  fix i p t
  assume t: "worker_take i (run_pool (work_run r)) = Some p" "pool_workers p ! i = Busy t"
    and w: "w = work_run r\<lparr>run_pool := p, run_started := run_started (work_run r) @ [t]\<rparr>"
  have "worker_take i (work_thread_pool (sr_server r)) = Some p" using t(1) by (simp add: work_run_def)
  from server_step.job_start [OF this t(2)] show ?thesis
    by (rule that) (simp_all add: w work_run_def)
next
  fix i t p
  assume t: "worker_done i (run_pool (work_run r)) = Some (t, p)" "\<not> endless_job spins r t"
    and w: "w = work_run r\<lparr>run_pool := p, run_finished := run_finished (work_run r) @ [t]\<rparr>"
  have "worker_done i (work_thread_pool (sr_server r)) = Some (t, p)" "t = TickJob \<longrightarrow> tm_stop (srv_timers (sr_server r))"
    "\<not> spinning spins t" using t by (auto simp: work_run_def endless_job_def)
  from server_step.job_done [OF this] show ?thesis
    by (rule that) (simp_all add: w work_run_def)
qed

lemma work_steps_lift:
  assumes "(work_step (endless_job spins r))\<^sup>*\<^sup>* (work_run r) w"
  shows "\<exists>r'. (server_step ctl h spins)\<^sup>*\<^sup>* r r' \<and> work_run r' = w \<and> same_server r r'"
  using assms
proof (induction rule: rtranclp_induct)
  case base
  then show ?case by (intro exI [of _ r]) simp
next
  case (step v w)
  then obtain r1 where r1: "(server_step ctl h spins)\<^sup>*\<^sup>* r r1" "work_run r1 = v" "same_server r r1" by blast
  then have "work_step (endless_job spins r1) (work_run r1) w" using step.hyps(2) same_server_endless by metis
  then obtain r2 where "server_step ctl h spins r1 r2" "work_run r2 = w" "same_server r1 r2" by (rule work_step_lifts)
  with r1 show ?case using same_server_trans [of r r1 r2]
    by (intro exI [of _ r2]) (auto intro: rtranclp.rtrancl_into_rtrancl)
qed

lemma spinning_map [simp]: "filter (spinning spins) (map HandleRequest cs) = map HandleRequest (filter spins cs)"
  by (induction cs) auto

lemma endless_count:
  "length (filter (endless_job spins r) (run_accepted (work_run r))) =
    (if tm_stop (srv_timers (sr_server r)) then 0 else 1) + length (filter spins (sr_accepted r))"
proof -
  have "filter (endless_job spins r) (map HandleRequest (sr_accepted r)) = filter (spinning spins) (map HandleRequest (sr_accepted r))"
    by (intro filter_cong) (auto simp: endless_job_def)
  then show ?thesis by (simp add: work_run_def) (simp add: endless_job_def)
qed

lemma server_drains:
  assumes "server_inv spins n r" "(if tm_stop (srv_timers (sr_server r)) then 0 else 1) + length (filter spins (sr_accepted r)) < n"
  obtains r' where "(server_step ctl h spins)\<^sup>*\<^sup>* r r'" "same_server r r'" "pool_tasks (work_thread_pool (sr_server r')) = []"
    "{#t \<in># mset (sr_finished r'). \<not> endless_job spins r t#} =
     {#t \<in># mset (run_accepted (work_run r)). \<not> endless_job spins r t#}"
proof -
  have "pool_inv n (work_run r)" "length (filter (endless_job spins r) (run_accepted (work_run r))) < n"
    using assms endless_count [of spins r] by (auto simp: server_inv_def)
  then obtain w where w: "(work_step (endless_job spins r))\<^sup>*\<^sup>* (work_run r) w" "pool_tasks (run_pool w) = []"
    "{#t \<in># mset (run_finished w). \<not> endless_job spins r t#} =
     {#t \<in># mset (run_accepted (work_run r)). \<not> endless_job spins r t#}"
    by (rule drained)
  from work_steps_lift [OF w(1)] obtain r'
    where "(server_step ctl h spins)\<^sup>*\<^sup>* r r'" "work_run r' = w" "same_server r r'" by blast
  with w(2,3) show ?thesis using that by (auto simp: work_run_def)
qed

lemma returning_jobs:
  "{#t \<in># mset (run_accepted (work_run r)). t \<noteq> TickJob \<and> \<not> spinning spins t#} =
    mset (map HandleRequest (filter (\<lambda>c. \<not> spins c) (sr_accepted r)))"
proof -
  have "filter (\<lambda>t. t \<noteq> TickJob \<and> \<not> spinning spins t) (map HandleRequest cs) = map HandleRequest (filter (\<lambda>c. \<not> spins c) cs)" for cs
    by (induction cs) auto
  from this [of "sr_accepted r"]
  show ?thesis by (simp add: work_run_def flip: mset_filter mset_map)
qed

lemma server_serves:
  assumes "server_inv spins n r" "1 + length (filter spins (sr_accepted r)) < n"
  shows "\<exists>r'. (server_step ctl h spins)\<^sup>*\<^sup>* r r' \<and> same_server r r' \<and>
    {#t \<in># mset (sr_finished r'). t \<noteq> TickJob#} = mset (map HandleRequest (filter (\<lambda>c. \<not> spins c) (sr_accepted r)))"
proof -
  obtain r' where r': "(server_step ctl h spins)\<^sup>*\<^sup>* r r'" "same_server r r'"
    "{#t \<in># mset (sr_finished r'). \<not> endless_job spins r t#} =
     {#t \<in># mset (run_accepted (work_run r)). \<not> endless_job spins r t#}"
    by (rule server_drains [OF assms(1)]) (use assms(2) in auto)
  have "server_inv spins n r'" by (rule server_steps_inv [OF r'(1) assms(1)])
  then have "{#t \<in># mset (sr_finished r'). t \<noteq> TickJob#} = {#t \<in># mset (sr_finished r'). t \<noteq> TickJob \<and> \<not> spinning spins t#}"
    by (intro filter_mset_cong) (auto simp: server_inv_def)
  moreover have "{#t \<in># {#t \<in># M. \<not> endless_job spins r t#}. t \<noteq> TickJob#} = {#t \<in># M. t \<noteq> TickJob \<and> \<not> spinning spins t#}" for M
    by (auto simp: filter_filter_mset endless_job_def intro: filter_mset_cong)
  ultimately have "{#t \<in># mset (sr_finished r'). t \<noteq> TickJob#} =
      {#t \<in># mset (run_accepted (work_run r)). t \<noteq> TickJob \<and> \<not> spinning spins t#}"
    using r'(3) by metis
  then show ?thesis using r'(1,2) returning_jobs [where spins = spins and r = r] by (intro exI [of _ r']) simp
qed

text \<open>The reactor thread after \<open>Shutdown\<close> has set the flags: the accept loop is started if it was
  not, sees the flag or waits in \<open>accept\<close>, its job ends, the pool is stopped and joined.\<close>

definition set_reactor :: "('h, 'k) job thread_pool \<Rightarrow> ('h, 'k, 'f) server_run \<Rightarrow> ('h, 'k, 'f) server_run" where
  "set_reactor p r = r\<lparr>sr_server := (sr_server r)\<lparr>reactor_thread_pool := p\<rparr>\<rparr>"

definition same_work :: "('h, 'k, 'f) server_run \<Rightarrow> ('h, 'k, 'f) server_run \<Rightarrow> bool" where
  "same_work r r' \<longleftrightarrow> work_run r' = work_run r \<and> srv_timers (sr_server r') = srv_timers (sr_server r) \<and>
     srv_shutdown (sr_server r') = srv_shutdown (sr_server r)"

definition reactor_joins :: "'k ctl \<Rightarrow> 'h \<Rightarrow> (('h, 'k) tcp_connection \<Rightarrow> bool) \<Rightarrow> ('h, 'k, 'f) server_run \<Rightarrow> bool" where
  "reactor_joins ctl h spins r \<longleftrightarrow>
     (\<exists>r'. (server_step ctl h spins)\<^sup>*\<^sup>* r r' \<and> Shutdown_joined (reactor_thread_pool (sr_server r')) \<and> same_work r r')"

lemma reactor_joins_step:
  assumes "server_step ctl h spins r r'" "same_work r r'" "reactor_joins ctl h spins r'"
  shows "reactor_joins ctl h spins r"
proof -
  obtain r2 where "(server_step ctl h spins)\<^sup>*\<^sup>* r' r2" "Shutdown_joined (reactor_thread_pool (sr_server r2))" "same_work r' r2"
    using assms(3) unfolding reactor_joins_def by blast
  then show ?thesis using assms(1,2) unfolding reactor_joins_def same_work_def
    by (metis converse_rtranclp_into_rtranclp)
qed

lemma same_work_reactor [simp]:
  "same_work r (set_reactor p r)" "same_work r (r\<lparr>sr_loop := l\<rparr>)" "same_work r ((set_reactor p r)\<lparr>sr_loop := l\<rparr>)"
  by (simp_all add: set_reactor_def same_work_def work_run_def)

lemma reactor_waiting_joins:
  assumes "srv_shutdown (sr_server r)" "pool_workers (reactor_thread_pool (sr_server r)) = [Waiting]"
    "pool_tasks (reactor_thread_pool (sr_server r)) = []"
  shows "reactor_joins ctl h spins r"
proof -
  let ?p = "reactor_thread_pool (sr_server r)"
  let ?r1 = "set_reactor (?p\<lparr>pool_stop := True\<rparr>) r"
  let ?r2 = "set_reactor (?p\<lparr>pool_stop := True, pool_workers := [Exited]\<rparr>) ?r1"
  have "server_step ctl h spins r ?r1"
    unfolding set_reactor_def by (rule server_step.stop_reactor) (use assms in \<open>simp_all add: Shutdown_stop_def\<close>)
  moreover have "server_step ctl h spins ?r1 ?r2"
    unfolding set_reactor_def
    by (rule server_step.reactor_leave [where i = 0]) (use assms in \<open>simp_all add: worker_take_def\<close>)
  moreover have "reactor_joins ctl h spins ?r2"
    unfolding reactor_joins_def by (intro exI [of _ ?r2]) (simp add: set_reactor_def Shutdown_joined_def same_work_def)
  ultimately show ?thesis by (meson reactor_joins_step same_work_reactor(1))
qed

lemma reactor_suspended_joins:
  assumes "srv_shutdown (sr_server r)" "sr_loop r \<in> {Accepting, Ended}"
    "pool_workers (reactor_thread_pool (sr_server r)) = [Busy AcceptJob]" "pool_tasks (reactor_thread_pool (sr_server r)) = []"
  shows "reactor_joins ctl h spins r"
proof -
  let ?r1 = "set_reactor ((reactor_thread_pool (sr_server r))\<lparr>pool_workers := [Waiting]\<rparr>) r"
  have "server_step ctl h spins r ?r1"
    unfolding set_reactor_def
    by (rule server_step.reactor_done [where i = 0 and t = AcceptJob]) (use assms in \<open>simp_all add: worker_done_def\<close>)
  moreover have "reactor_joins ctl h spins ?r1" by (rule reactor_waiting_joins) (use assms in \<open>simp_all add: set_reactor_def\<close>)
  ultimately show ?thesis by (rule reactor_joins_step [OF _ same_work_reactor(1)])
qed

lemma reactor_busy_joins:
  assumes "srv_shutdown (sr_server r)" "sr_loop r \<noteq> NotStarted"
    "pool_workers (reactor_thread_pool (sr_server r)) = [Busy AcceptJob]" "pool_tasks (reactor_thread_pool (sr_server r)) = []"
  shows "reactor_joins ctl h spins r"
proof (cases "sr_loop r = Checking")
  case True
  have "server_step ctl h spins r (r\<lparr>sr_loop := Ended\<rparr>)" using server_step.loop_check [OF True, of ctl h spins] assms(1) by simp
  moreover have "reactor_joins ctl h spins (r\<lparr>sr_loop := Ended\<rparr>)" by (rule reactor_suspended_joins) (use assms in simp_all)
  ultimately show ?thesis by (rule reactor_joins_step [OF _ same_work_reactor(2)])
next
  case False
  then show ?thesis using assms by (intro reactor_suspended_joins) (cases "sr_loop r"; simp)+
qed

lemma reactor_ok_joins:
  assumes "reactor_ok r" "srv_shutdown (sr_server r)"
  shows "reactor_joins ctl h spins r"
proof -
  let ?p = "reactor_thread_pool (sr_server r)"
  consider "pool_workers ?p = [Waiting]" "pool_tasks ?p = [AcceptJob]" "\<not> pool_stop ?p"
    | "sr_loop r \<noteq> NotStarted" "pool_workers ?p = [Busy AcceptJob]" "pool_tasks ?p = []"
    | "pool_workers ?p = [Waiting]" "pool_tasks ?p = []"
    | "pool_workers ?p = [Exited]" "pool_stop ?p"
    using assms(1) by (auto simp: reactor_ok_def Let_def split: if_splits)
  then show ?thesis
  proof cases
    case 1
    let ?r1 = "(set_reactor (?p\<lparr>pool_workers := [Busy AcceptJob], pool_tasks := []\<rparr>) r)\<lparr>sr_loop := Checking\<rparr>"
    have "server_step ctl h spins r ?r1"
      using server_step.loop_start [of 0 r "?p\<lparr>pool_workers := [Busy AcceptJob], pool_tasks := []\<rparr>" ctl h spins] 1
      by (simp add: worker_take_def set_reactor_def)
    moreover have "reactor_joins ctl h spins ?r1" by (rule reactor_busy_joins) (use assms in \<open>simp_all add: set_reactor_def\<close>)
    ultimately show ?thesis by (rule reactor_joins_step [OF _ same_work_reactor(3)])
  next
    case 4
    then show ?thesis unfolding reactor_joins_def by (intro exI [of _ r]) (simp add: Shutdown_joined_def same_work_def)
  qed (use assms(2) in \<open>auto intro: reactor_busy_joins reactor_waiting_joins\<close>)
qed

text \<open>The workers of a stopped pool that has no work leave, one after the other.\<close>

lemma count_list_replace: "i < length xs \<Longrightarrow> xs ! i = a \<Longrightarrow> b \<noteq> a \<Longrightarrow> count_list xs a = Suc (count_list (xs[i := b]) a)"
  by (induction xs arbitrary: i) (auto split: nat.splits)

lemma workers_leave:
  assumes "pool_stop (work_thread_pool (sr_server r))" "\<forall>w \<in> set (pool_workers (work_thread_pool (sr_server r))). \<forall>t. w \<noteq> Busy t"
  shows "\<exists>r'. (server_step ctl h spins)\<^sup>*\<^sup>* r r' \<and> same_server r r' \<and> sr_finished r' = sr_finished r \<and>
    Shutdown_joined (work_thread_pool (sr_server r'))"
  using assms
proof (induction "count_list (pool_workers (work_thread_pool (sr_server r))) Waiting" arbitrary: r)
  case 0
  then have "\<forall>w \<in> set (pool_workers (work_thread_pool (sr_server r))). w = Exited"
    by (metis count_list_0_iff worker.exhaust)
  then show ?case using 0 by (intro exI [of _ r]) (simp add: Shutdown_joined_def list_all_iff)
next
  case (Suc m)
  let ?p = "work_thread_pool (sr_server r)"
  have "Waiting \<in> set (pool_workers ?p)" using Suc.hyps(2) by (metis count_notin nat.distinct(1))
  then obtain i where i: "i < length (pool_workers ?p)" "pool_workers ?p ! i = Waiting" by (metis in_set_conv_nth)
  let ?q = "?p\<lparr>pool_workers := (pool_workers ?p)[i := Exited]\<rparr>"
  have step: "server_step ctl h spins r (set_work_pool ?q r)"
    by (rule server_step.worker_leave [where i = i]) (use i Suc.prems(1) in \<open>simp_all add: worker_take_def\<close>)
  have "m = count_list (pool_workers ?q) Waiting" using i Suc.hyps(2) count_list_replace [of i "pool_workers ?p" Waiting Exited] by simp
  moreover have "\<forall>w \<in> set (pool_workers ?q). \<forall>t. w \<noteq> Busy t"
    using Suc.prems(2) set_update_subset_insert [of "pool_workers ?p" i Exited] by auto
  ultimately obtain r' where "(server_step ctl h spins)\<^sup>*\<^sup>* (set_work_pool ?q r) r'" "same_server (set_work_pool ?q r) r'"
    "sr_finished r' = sr_finished r" "Shutdown_joined (work_thread_pool (sr_server r'))"
    using Suc.hyps(1) [of "set_work_pool ?q r"] Suc.prems(1) by auto
  moreover have "same_server r (set_work_pool ?q r)" by (auto simp: same_server_def)
  ultimately show ?case using step same_server_trans by (meson converse_rtranclp_into_rtranclp)
qed

lemma flags_set:
  assumes "r' = r\<lparr>sr_server := Shutdown_flags (sr_server r)\<rparr>"
  shows "work_run r' = work_run r" "srv_shutdown (sr_server r')" "tm_stop (srv_timers (sr_server r'))"
  using assms by (simp_all add: work_run_def Shutdown_flags_def tm_shutdown_def)

lemma all_finished_idle:
  assumes "pool_inv n w" "pool_tasks (run_pool w) = []" "mset (run_finished w) = mset (run_accepted w)"
  shows "busy (run_pool w) = {#}"
proof -
  have "run_accepted w = run_started w" "mset (run_started w) = mset (run_finished w) + busy (run_pool w)"
    using assms(1,2) by (simp_all add: pool_inv_def)
  then have "mset (run_finished w) = mset (run_finished w) + busy (run_pool w)" using assms(3) by metis
  then show ?thesis by (simp only: add_cancel_right_right)
qed

lemma not_busy: "busy p = {#} \<Longrightarrow> w \<in> set (pool_workers p) \<Longrightarrow> w \<noteq> Busy t"
proof -
  have "\<forall>w \<in> set ws. w \<noteq> Busy t" if "(\<Sum>w\<leftarrow>ws. busy_task w) = {#}" for ws
    using that by (induction ws) auto
  then show "busy p = {#} \<Longrightarrow> w \<in> set (pool_workers p) \<Longrightarrow> w \<noteq> Busy t" by (auto simp: busy_def)
qed

text \<open>The work pool with its timers stopped and the reactor pool joined: it drains, stops, and its
  workers leave.\<close>

lemma work_pool_joins:
  assumes "server_inv spins n r" "0 < n" "tm_stop (srv_timers (sr_server r))" "Shutdown_joined (reactor_thread_pool (sr_server r))"
    and "\<forall>c \<in> set (sr_accepted r). \<not> spins c"
  shows "\<exists>r'. (server_step ctl h spins)\<^sup>*\<^sup>* r r' \<and> same_server r r' \<and> Shutdown_joined (work_thread_pool (sr_server r'))"
proof -
  obtain r1 where r1: "(server_step ctl h spins)\<^sup>*\<^sup>* r r1" "same_server r r1" "pool_tasks (work_thread_pool (sr_server r1)) = []"
    "{#t \<in># mset (sr_finished r1). \<not> endless_job spins r t#} = {#t \<in># mset (run_accepted (work_run r)). \<not> endless_job spins r t#}"
    by (rule server_drains [OF assms(1)]) (use assms in auto)
  have "server_inv spins n r1" by (rule server_steps_inv [OF r1(1) assms(1)])
  then have "pool_inv n (work_run r1)" by (simp add: server_inv_def)
  moreover have "mset (run_finished (work_run r1)) = mset (run_accepted (work_run r1))"
  proof -
    have "\<forall>t \<in> set (sr_finished r1). \<not> endless_job spins r t"
      using assms(3) server_steps_inv [OF r1(1) assms(1)] by (auto simp: server_inv_def endless_job_def)
    moreover have "\<forall>t \<in> set (run_accepted (work_run r)). \<not> endless_job spins r t"
      using assms(3,5) by (auto simp: endless_job_def work_run_def)
    ultimately have "mset (sr_finished r1) = mset (run_accepted (work_run r))"
      using r1(4) by (simp add: filter_mset_eq_conv flip: mset_filter)
    then show ?thesis using r1(2) by (simp add: same_server_def work_run_def)
  qed
  ultimately have "busy (run_pool (work_run r1)) = {#}" using r1(3) by (intro all_finished_idle) (simp_all add: work_run_def)
  then have busy: "busy (work_thread_pool (sr_server r1)) = {#}" by (simp add: work_run_def)
  let ?q = "(work_thread_pool (sr_server r1))\<lparr>pool_stop := True\<rparr>"
  have step: "server_step ctl h spins r1 (set_work_pool ?q r1)"
    by (rule server_step.stop_work) (use r1(2,3) assms(4) in \<open>auto simp: same_server_def Shutdown_stop_def\<close>)
  have "\<forall>w \<in> set (pool_workers ?q). \<forall>t. w \<noteq> Busy t" using not_busy [OF busy] by simp
  then obtain r2 where "(server_step ctl h spins)\<^sup>*\<^sup>* (set_work_pool ?q r1) r2" "same_server (set_work_pool ?q r1) r2"
    "Shutdown_joined (work_thread_pool (sr_server r2))"
    using workers_leave [of "set_work_pool ?q r1" ctl h spins] by auto
  moreover have "same_server r (set_work_pool ?q r1)" using r1(2) by (auto simp: same_server_def)
  ultimately show ?thesis using r1(1) step same_server_trans by (meson rtranclp.rtrancl_into_rtrancl rtranclp_trans)
qed

lemma server_shuts_down:
  assumes "server_inv spins n r" "0 < n" "\<forall>c \<in> set (sr_accepted r). \<not> spins c"
  shows "\<exists>r'. (server_step ctl h spins)\<^sup>*\<^sup>* r r' \<and> sr_accepted r' = sr_accepted r \<and> srv_shutdown (sr_server r') \<and>
    Shutdown_joined (reactor_thread_pool (sr_server r')) \<and> Shutdown_joined (work_thread_pool (sr_server r'))"
proof -
  let ?r1 = "r\<lparr>sr_server := Shutdown_flags (sr_server r)\<rparr>"
  have f1: "server_step ctl h spins r ?r1" by (rule server_step.flags)
  note f = flags_set [OF refl, of r]
  have inv: "server_inv spins n ?r1" by (rule server_step_inv [OF f1 assms(1)])
  then obtain r2 where r2: "(server_step ctl h spins)\<^sup>*\<^sup>* ?r1 r2" "Shutdown_joined (reactor_thread_pool (sr_server r2))" "same_work ?r1 r2"
    using reactor_ok_joins [of ?r1 ctl h spins] f(2) by (auto simp: server_inv_def reactor_joins_def)
  have "server_inv spins n r2" by (rule server_steps_inv [OF r2(1) inv])
  moreover have "tm_stop (srv_timers (sr_server r2))" using r2(3) f(3) by (simp add: same_work_def)
  moreover have acc: "sr_accepted r2 = sr_accepted r"
    using r2(3) f(1) by (simp add: same_work_def work_run_def inj_map_eq_map inj_def)
  ultimately obtain r3 where r3: "(server_step ctl h spins)\<^sup>*\<^sup>* r2 r3" "same_server r2 r3" "Shutdown_joined (work_thread_pool (sr_server r3))"
    using work_pool_joins [OF _ assms(2) _ r2(2)] assms(3) by metis
  have "(server_step ctl h spins)\<^sup>*\<^sup>* r r3" using f1 r2(1) r3(1) by (meson converse_rtranclp_into_rtranclp rtranclp_trans)
  moreover have "sr_accepted r3 = sr_accepted r"
    using r3(2) acc by (simp add: same_server_def)
  ultimately show ?thesis using r2 r3 f(2) by (intro exI [of _ r3]) (auto simp: same_server_def same_work_def)
qed

text \<open>A spinning handler keeps the pool from being joined.\<close>

lemma spinning_blocks_join:
  assumes "server_inv spins n r" "c \<in> set (sr_accepted r)" "spins c"
  shows "\<not> Shutdown_joined (work_thread_pool (sr_server r))"
proof
  assume j: "Shutdown_joined (work_thread_pool (sr_server r))"
  have "pool_inv n (work_run r)" using assms(1) by (simp add: server_inv_def)
  from joined_finished [OF this] have "mset (sr_finished r) = mset (run_accepted (work_run r))"
    using j by (simp add: work_run_def)
  then have "set (sr_finished r) = set (run_accepted (work_run r))" by (metis set_mset_mset)
  then have "HandleRequest c \<in> set (sr_finished r)" using assms(2) by (simp add: work_run_def)
  then show False using assms(1,3) by (auto simp: server_inv_def)
qed

lemma accepted_stay: "server_step ctl h spins r r' \<Longrightarrow> set (sr_accepted r) \<subseteq> set (sr_accepted r')"
  by (induction rule: server_step.induct) (auto simp: accepted_def Let_def split: option.splits)

lemma accepted_stay_steps: "(server_step ctl h spins)\<^sup>*\<^sup>* r r' \<Longrightarrow> set (sr_accepted r) \<subseteq> set (sr_accepted r')"
  by (induction rule: rtranclp_induct) (auto dest!: accepted_stay)

section \<open>Fair runs\<close>

text \<open>
  Infinite runs of a server in which the threads of the work pool are scheduled fairly, and so is
  the return of each handler that does not spin; the timer loop and the spinning handlers hold
  their threads.
\<close>

definition fair_server_run :: "'k ctl \<Rightarrow> 'h \<Rightarrow> (('h, 'k) tcp_connection \<Rightarrow> bool) \<Rightarrow> u64 \<Rightarrow>
    (nat \<Rightarrow> ('h, 'k, 'f) server_run) \<Rightarrow> bool" where
  "fair_server_run ctl h spins thread_num rs \<longleftrightarrow> started_server thread_num (rs 0) \<and>
     (\<forall>k. (server_step ctl h spins)\<^sup>=\<^sup>= (rs k) (rs (Suc k))) \<and>
     (\<forall>i < unat thread_num. weakly_fair (takes i) (\<lambda>k. work_run (rs k)) \<and>
        weakly_fair (completes (\<lambda>t. t = TickJob \<or> spinning spins t) i) (\<lambda>k. work_run (rs k)))"

lemma tick_or_spinning_count:
  "length (filter (\<lambda>t. t = TickJob \<or> spinning spins t) (run_accepted (work_run r))) =
    1 + length (filter spins (sr_accepted r))"
proof -
  have "filter (\<lambda>t. t = TickJob \<or> spinning spins t) (map HandleRequest (sr_accepted r)) =
      filter (spinning spins) (map HandleRequest (sr_accepted r))" by (intro filter_cong) auto
  then show ?thesis by (simp add: work_run_def)
qed

lemma fair_server_pool:
  assumes run: "fair_server_run ctl h spins thread_num rs"
    and n: "\<forall>k. 1 + length (filter spins (sr_accepted (rs k))) < unat thread_num"
  shows "fair_pool_run (\<lambda>t. t = TickJob \<or> spinning spins t) (unat thread_num) (\<lambda>k. work_run (rs k))"
proof -
  have "pool_inv (unat thread_num) (work_run (rs 0))"
    using run started_server_inv [of thread_num "rs 0"] by (simp add: fair_server_run_def server_inv_def)
  moreover have "pool_step\<^sup>=\<^sup>= (work_run (rs k)) (work_run (rs (Suc k)))" for k
  proof -
    have "server_step ctl h spins (rs k) (rs (Suc k)) \<or> rs (Suc k) = rs k" using run unfolding fair_server_run_def by auto
    then show ?thesis using server_step_work [of ctl h spins "rs k" "rs (Suc k)"] by auto
  qed
  moreover have "length (filter (\<lambda>t. t = TickJob \<or> spinning spins t) (run_accepted (work_run (rs k)))) < unat thread_num" for k
    using n tick_or_spinning_count [of spins "rs k"] by simp
  ultimately show ?thesis using run by (simp add: fair_pool_run_def fair_server_run_def)
qed

lemma fair_server_handles:
  assumes "fair_server_run ctl h spins thread_num rs"
    and "\<forall>k. 1 + length (filter spins (sr_accepted (rs k))) < unat thread_num"
  shows "\<exists>j \<ge> k. mset (map HandleRequest (filter (\<lambda>c. \<not> spins c) (sr_accepted (rs k)))) \<subseteq># mset (sr_finished (rs j))"
proof -
  obtain j where "k \<le> j" "{#t \<in># mset (run_accepted (work_run (rs k))). \<not> (t = TickJob \<or> spinning spins t)#}
      \<subseteq># mset (run_finished (work_run (rs j)))"
    using accepted_finish [OF fair_server_pool [OF assms], of k] by blast
  then show ?thesis using returning_jobs [where spins = spins and r = "rs k"] by (auto simp: work_run_def)
qed

text \<open>A server that has handled everything rests, fairly.\<close>

lemma drained_busy:
  assumes "server_inv spins n r'" "same_server r r'" "pool_tasks (work_thread_pool (sr_server r')) = []"
    and "{#t \<in># mset (sr_finished r'). \<not> endless_job spins r t#} = {#t \<in># mset (run_accepted (work_run r)). \<not> endless_job spins r t#}"
  shows "{#t \<in># busy (work_thread_pool (sr_server r')). \<not> (t = TickJob \<or> spinning spins t)#} = {#}"
proof -
  have "run_accepted (work_run r') = sr_started r'" "mset (sr_started r') = mset (sr_finished r') + busy (work_thread_pool (sr_server r'))"
    using assms(1,3) by (simp_all add: server_inv_def pool_inv_def work_run_def)
  moreover have "run_accepted (work_run r') = run_accepted (work_run r)" using assms(2) by (simp add: same_server_def work_run_def)
  ultimately have "{#t \<in># mset (sr_finished r'). \<not> endless_job spins r t#} =
      {#t \<in># mset (sr_finished r'). \<not> endless_job spins r t#} + {#t \<in># busy (work_thread_pool (sr_server r')). \<not> endless_job spins r t#}"
    using assms(4) by (metis filter_union_mset)
  then have "{#t \<in># busy (work_thread_pool (sr_server r')). \<not> endless_job spins r t#} = {#}" by (simp only: add_cancel_right_right)
  then show ?thesis by (auto simp: endless_job_def)
qed

lemma drained_rests:
  assumes "started_server thread_num r0" "(server_step ctl h spins)\<^sup>*\<^sup>* r0 r" "pool_tasks (work_thread_pool (sr_server r)) = []"
    and "{#t \<in># busy (work_thread_pool (sr_server r)). \<not> (t = TickJob \<or> spinning spins t)#} = {#}"
  shows "\<exists>rs m. fair_server_run ctl h spins thread_num rs \<and> (\<forall>k \<ge> m. rs k = r)"
proof -
  obtain rs m where rs: "rs 0 = r0" "\<forall>k. (server_step ctl h spins)\<^sup>=\<^sup>= (rs k) (rs (Suc k))" "\<forall>k \<ge> m. rs k = r"
    using rests_forever [OF assms(2)] by blast
  have idle: "\<nexists>w. takes i (work_run r) w" "\<nexists>w. completes (\<lambda>t. t = TickJob \<or> spinning spins t) i (work_run r) w" for i
    using takes_idle [of "work_run r" i] completes_idle [of "\<lambda>t. t = TickJob \<or> spinning spins t" "work_run r" i] assms(3,4)
    by (simp_all add: work_run_def)
  have "weakly_fair (takes i) (\<lambda>k. work_run (rs k))" "weakly_fair (completes (\<lambda>t. t = TickJob \<or> spinning spins t) i) (\<lambda>k. work_run (rs k))" for i
    using rs(3) idle [of i] by (auto intro!: weakly_fair_rest [where m = m and r = "work_run r"])
  then have "fair_server_run ctl h spins thread_num rs" unfolding fair_server_run_def using rs(1,2) assms(1) by auto
  then show ?thesis using rs(3) by blast
qed

section \<open>An example run\<close>

text \<open>A server of four threads on the map of descriptors to masks accepts one connection.\<close>

lemma example_accepts:
  obtains c n where "accept map_ctl () ([- 1, 7], new_socket 5, new_event_manager Map.empty 2048) = Inr (Some c, [], n)"
    "sock_fd (fst (conn_net c)) = 7"
proof -
  have "accepting map_ctl map_close id True (new_socket 5, new_event_manager Map.empty 2048 :: (int \<rightharpoonup> u32) event_manager)"
    using map_epoll_laws by (simp add: accepting_def em_agrees_def new_socket_def new_event_manager_def)
  then obtain n where "accept map_ctl () ((if True then [- 1, 7] else [7]) @ [], new_socket 5, new_event_manager Map.empty 2048) =
      Inr (Some (new_connection 7 (snd n)), [], n)"
    by (rule accept_one [where fd = 7 and h = "()"]) auto
  then show ?thesis using that by (simp add: new_connection_def new_socket_def)
qed

lemma example_server_runs:
  "\<exists>r0 r :: (unit, int \<rightharpoonup> u32, unit) server_run. started_server 4 r0 \<and> (server_step map_ctl () spins)\<^sup>*\<^sup>* r0 r \<and>
     map (\<lambda>c. sock_fd (fst (conn_net c))) (sr_accepted r) = [7]"
proof -
  let ?a = "(new_socket 5, new_event_manager Map.empty 2048) :: (unit, int \<rightharpoonup> u32) net"
  obtain s :: "(unit, int \<rightharpoonup> u32, unit) tcp_server" where s: "TcpServer Map.empty 5 0 0 4 new_timer_manager = Inr s" and
      fs: "acceptor s = ?a" "\<not> srv_shutdown s" "reactor_thread_pool s = new_pool 1" "work_thread_pool s = Commit TickJob (new_pool 4)"
    by (simp add: TcpServer_def TcpAcceptor_def BindAddress_def Listen_def)
  let ?r0 = "new_server_run s"
  let ?r1 = "?r0\<lparr>sr_server := (sr_server ?r0)\<lparr>reactor_thread_pool := \<lparr>pool_workers = [Busy AcceptJob], pool_tasks = [], pool_stop = False\<rparr>\<rparr>,
    sr_loop := Checking\<rparr>"
  let ?r2 = "?r1\<lparr>sr_loop := Accepting\<rparr>"
  obtain c n where c: "accept map_ctl () ([- 1, 7], new_socket 5, new_event_manager Map.empty 2048) = Inr (Some c, [], n)"
    "sock_fd (fst (conn_net c)) = 7" by (rule example_accepts)
  have "server_step map_ctl () spins ?r0 ?r1"
    by (rule server_step.loop_start [where i = 0])
      (simp_all add: new_server_run_def server_Start_def fs new_pool_def Commit_def worker_take_def)
  moreover have "server_step map_ctl () spins ?r1 ?r2"
    using server_step.loop_check [of ?r1 map_ctl "()" spins] fs(2) by (simp add: new_server_run_def server_Start_def)
  moreover have "server_step map_ctl () spins ?r2 (accepted (Some c) n ?r2)"
    by (rule server_step.loop_accept [where tr = "[- 1, 7]"]) (use c(1) fs(1) in \<open>simp_all add: new_server_run_def server_Start_def\<close>)
  ultimately have steps: "(server_step map_ctl () spins)\<^sup>*\<^sup>* ?r0 (accepted (Some c) n ?r2)"
    by (rule converse_rtranclp_into_rtranclp [OF _ converse_rtranclp_into_rtranclp [OF _ r_into_rtranclp]])
  have "map (\<lambda>c. sock_fd (fst (conn_net c))) (sr_accepted (accepted (Some c) n ?r2)) = [7]"
    using c(2) fs(4) by (simp add: accepted_def Let_def new_server_run_def server_Start_def Commit_def new_pool_def)
  moreover have "started_server 4 ?r0" unfolding started_server_def by (intro exI conjI) (rule s, rule refl)
  ultimately show ?thesis using steps by (intro exI conjI)
qed

lemma example_fair_server:
  "\<exists>rs :: nat \<Rightarrow> (unit, int \<rightharpoonup> u32, unit) server_run. fair_server_run map_ctl () spins 4 rs \<and>
    (\<exists>k. map (\<lambda>c. sock_fd (fst (conn_net c))) (sr_accepted (rs k)) = [7])"
proof -
  obtain r0 r :: "(unit, int \<rightharpoonup> u32, unit) server_run" where r: "started_server 4 r0" "(server_step map_ctl () spins)\<^sup>*\<^sup>* r0 r"
    "map (\<lambda>c. sock_fd (fst (conn_net c))) (sr_accepted r) = [7]" using example_server_runs [of spins] by (elim exE conjE)
  have inv: "server_inv spins 4 r" using server_sys.inv_reachable [OF r(1,2)] by simp
  obtain r' where r': "(server_step map_ctl () spins)\<^sup>*\<^sup>* r r'" "same_server r r'" "pool_tasks (work_thread_pool (sr_server r')) = []"
    "{#t \<in># mset (sr_finished r'). \<not> endless_job spins r t#} = {#t \<in># mset (run_accepted (work_run r)). \<not> endless_job spins r t#}"
  proof (rule server_drains [OF inv])
    have "length (filter spins (sr_accepted r)) \<le> 1"
      using r(3) length_filter_le [of spins "sr_accepted r"] by (metis length_map list.size(3,4) One_nat_def plus_nat.add_0)
    then show "(if tm_stop (srv_timers (sr_server r)) then 0 else 1) + length (filter spins (sr_accepted r)) < 4" by simp
  qed
  have idle: "{#t \<in># busy (work_thread_pool (sr_server r')). \<not> (t = TickJob \<or> spinning spins t)#} = {#}"
    by (rule drained_busy [OF server_steps_inv [OF r'(1) inv] r'(2-4)])
  obtain rs m where rs: "fair_server_run map_ctl () spins 4 rs" "\<forall>k \<ge> m. rs k = r'"
    using drained_rests [OF r(1) rtranclp_trans [OF r(2) r'(1)] r'(3) idle] by (elim exE conjE)
  have "map (\<lambda>c. sock_fd (fst (conn_net c))) (sr_accepted (rs m)) = [7]"
    using rs(2) r(3) r'(2) by (simp add: same_server_def)
  with rs(1) show ?thesis by (intro exI conjI)
qed

end
