(* ===== verification/Reactor.thy ===== *)
theory Reactor
  imports Tcp_Server
begin

text \<open>
  One event manager with all the sockets that share it: the connections of
  \<open>luce/net/tcp/tcp_server.cpp\<close> all use the main reactor of \<open>luce/net/event_manager.cpp\<close>.

  \<open>Event_Manager\<close> has the operations on one socket. Here the socket objects live in a store by
  address, and the kernel's entry of a descriptor has the address that was passed with it
  (\<open>ev.data.ptr\<close>). A connection is accepted on a descriptor no open socket has, awaiters
  register and deregister, a connection is closed (by the request timer), a connection object is
  destroyed with its socket, the manager is shut down.

  The event manager has no lock. \<open>AddRecv\<close>, \<open>AddSend\<close>, \<open>DelRecv\<close> and \<open>DelSend\<close> are therefore not
  atomic: each is the sequence of its accesses to what the event loop reads, the kernel's
  interest list and the coroutine handle, and \<open>rx_ops\<close> has the operations in progress with their
  control points. Any two of them interleave. In an \<^emph>\<open>orderly\<close> run the operations on one socket do not
  overlap, a connection is not closed during an operation on it, and a closed connection is not
  destroyed while its descriptor belongs to a new one; the code enforces none of this, and what
  happens otherwise is shown at the end. An awaiter tests \<open>IsClosed\<close> before it calls the manager,
  so no operation begins on a closed connection.
\<close>

section \<open>The operations in steps\<close>

datatype io_kind = RecvIo | SendIo

text \<open>Where an operation in progress is: before \<open>SetRecvCoro\<close> (\<open>SetSendCoro\<close>), before the
  \<open>UpdateEvent\<close> of \<open>AddRecv\<close>, before the \<open>UpdateEvent\<close> of \<open>DelRecv\<close>.\<close>

datatype 'h io_point = StoreCoro io_kind 'h | AddEvent io_kind | DelEvent io_kind

definition io_mask :: "io_kind \<Rightarrow> u32" where
  "io_mask k = (case k of RecvIo \<Rightarrow> EPOLLIN | SendIo \<Rightarrow> EPOLLOUT)"

definition coro :: "io_kind \<Rightarrow> 'h socket \<Rightarrow> 'h option" where
  "coro k s = (case k of RecvIo \<Rightarrow> recv_coro s | SendIo \<Rightarrow> send_coro s)"

definition SetCoro :: "io_kind \<Rightarrow> 'h \<Rightarrow> 'h socket \<Rightarrow> 'h socket" where
  "SetCoro k h s = (case k of RecvIo \<Rightarrow> SetRecvCoro h s | SendIo \<Rightarrow> SetSendCoro h s)"

definition DelCoro :: "io_kind \<Rightarrow> 'h socket \<Rightarrow> 'h socket" where
  "DelCoro k s = (case k of RecvIo \<Rightarrow> DelRecvCoro s | SendIo \<Rightarrow> DelSendCoro s)"

definition add_update :: "'k ctl \<Rightarrow> io_kind \<Rightarrow> ('h, 'k) net \<Rightarrow> net_stop + ('h, 'k) net" where
  "add_update ctl k = (\<lambda>(s, em). let new_state = io_state s OR io_mask k in
     UpdateEvent ctl new_state (SetIOState new_state s, em))"

definition del_update :: "'k ctl \<Rightarrow> io_kind \<Rightarrow> ('h, 'k) net \<Rightarrow> net_stop + ('h, 'k) net" where
  "del_update ctl k = (\<lambda>(s, em). let new_state = io_state s AND NOT (io_mask k) in
     UpdateEvent ctl new_state (SetIOState new_state s, em))"

text \<open>The operations of the manager are these parts one after the other.\<close>

definition add_io :: "'k ctl \<Rightarrow> io_kind \<Rightarrow> 'h \<Rightarrow> ('h, 'k) net \<Rightarrow> net_stop + ('h, 'k) net" where
  "add_io ctl k h = (\<lambda>(s, em).
     try_bind (if \<not> Attached s then Attach ctl (io_mask k OR EPOLLET) (s, em) else Inr (s, em))
       (\<lambda>(s1, em1). add_update ctl k (SetCoro k h s1, em1)))"

definition del_io :: "'k ctl \<Rightarrow> io_kind \<Rightarrow> ('h, 'k) net \<Rightarrow> net_stop + ('h, 'k) net" where
  "del_io ctl k = (\<lambda>(s, em). del_update ctl k (DelCoro k s, em))"

lemmas io_parts = io_mask_def coro_def SetCoro_def DelCoro_def add_update_def del_update_def add_io_def del_io_def

lemma manager_operations:
  "\<not> is_shutdown em \<Longrightarrow> AddRecv ctl h (s, em) = add_io ctl RecvIo h (s, em)"
  "\<not> is_shutdown em \<Longrightarrow> AddSend ctl h (s, em) = add_io ctl SendIo h (s, em)"
  "\<not> is_shutdown em \<Longrightarrow> DelRecv ctl (s, em) = del_io ctl RecvIo (s, em)"
  "\<not> is_shutdown em \<Longrightarrow> DelSend ctl (s, em) = del_io ctl SendIo (s, em)"
  by (simp_all add: AddRecv_def AddSend_def DelRecv_def DelSend_def io_parts Let_def)

section \<open>The model\<close>

record ('h, 'k) reactor =
  rx_socks :: "nat \<rightharpoonup> 'h socket"
  rx_em :: "'k event_manager"
  rx_data :: "int \<rightharpoonup> nat"
  rx_ops :: "(nat \<times> 'h io_point) list"

definition new_reactor :: "'k \<Rightarrow> nat \<Rightarrow> ('h, 'k) reactor" where
  "new_reactor k init_size = \<lparr>rx_socks = Map.empty, rx_em = new_event_manager k init_size, rx_data = Map.empty, rx_ops = []\<rparr>"

text \<open>After a call to \<open>epoll_ctl\<close>, which passes the address of the socket's handle.\<close>

definition rx_store :: "nat \<Rightarrow> ('h, 'k) net \<Rightarrow> ('h, 'k) reactor \<Rightarrow> ('h, 'k) reactor" where
  "rx_store p = (\<lambda>(s, em) r. r\<lparr>rx_socks := (rx_socks r)(p \<mapsto> s), rx_em := em, rx_data := (rx_data r)(sock_fd s \<mapsto> p)\<rparr>)"

text \<open>\<open>TcpConnection::Close\<close> on a connection that is not closed yet, and the destructors of the
  connection and of its socket.\<close>

definition rx_close :: "(int \<Rightarrow> 'k \<Rightarrow> 'k) \<Rightarrow> nat \<Rightarrow> 'h socket \<Rightarrow> ('h, 'k) reactor \<Rightarrow> ('h, 'k) reactor" where
  "rx_close kclose p s r = (case conn_net (conn_Close kclose \<lparr>conn_net = (s, rx_em r), conn_closed = False\<rparr>) of
     (s', em) \<Rightarrow> r\<lparr>rx_socks := (rx_socks r)(p \<mapsto> s'), rx_em := em\<rparr>)"

definition rx_destroy :: "'k ctl \<Rightarrow> (int \<Rightarrow> 'k \<Rightarrow> 'k) \<Rightarrow> nat \<Rightarrow> 'h socket \<Rightarrow> ('h, 'k) reactor \<Rightarrow> net_stop + ('h, 'k) reactor" where
  "rx_destroy ctl kclose p s r =
     try_bind (destroy_connection ctl \<lparr>conn_net = (s, rx_em r), conn_closed = sock_is_closed s\<rparr>) (\<lambda>c.
       Inr (r\<lparr>rx_socks := (rx_socks r)(p := None), rx_em := destroy_socket kclose (conn_net c)\<rparr>))"

definition open_at :: "('h, 'k) reactor \<Rightarrow> nat \<Rightarrow> 'h socket \<Rightarrow> bool" where
  "open_at r p s \<longleftrightarrow> rx_socks r p = Some s \<and> \<not> sock_is_closed s"

definition idle :: "('h, 'k) reactor \<Rightarrow> nat \<Rightarrow> bool" where
  "idle r p \<longleftrightarrow> p \<notin> fst ` set (rx_ops r)"

text \<open>An operation begins after its test of \<open>is_shutdown_\<close> and is not stopped by a later \<open>Shutdown\<close>;
  after \<open>Shutdown\<close> none begins. A coroutine keeps its connection alive during an operation.\<close>

inductive rx_step :: "bool \<Rightarrow> 'k ctl \<Rightarrow> (int \<Rightarrow> 'k \<Rightarrow> 'k) \<Rightarrow> ('h, 'k) reactor \<Rightarrow> ('h, 'k) reactor \<Rightarrow> bool"
  for orderly ctl kclose where
  accepted: "rx_socks r p = None \<Longrightarrow> 0 \<le> fd \<Longrightarrow> \<forall>q s. open_at r q s \<longrightarrow> sock_fd s \<noteq> fd \<Longrightarrow>
    rx_step orderly ctl kclose r (r\<lparr>rx_socks := (rx_socks r)(p \<mapsto> new_socket fd)\<rparr>)"
| add_attach: "open_at r p s \<Longrightarrow> orderly \<longrightarrow> idle r p \<Longrightarrow> \<not> is_shutdown (rx_em r) \<Longrightarrow> \<not> Attached s \<Longrightarrow>
    Attach ctl (io_mask k OR EPOLLET) (s, rx_em r) = Inr n \<Longrightarrow>
    rx_step orderly ctl kclose r ((rx_store p n r)\<lparr>rx_ops := (p, StoreCoro k h) # rx_ops r\<rparr>)"
| add_attached: "open_at r p s \<Longrightarrow> orderly \<longrightarrow> idle r p \<Longrightarrow> \<not> is_shutdown (rx_em r) \<Longrightarrow> Attached s \<Longrightarrow>
    rx_step orderly ctl kclose r (r\<lparr>rx_ops := (p, StoreCoro k h) # rx_ops r\<rparr>)"
| add_store: "rx_ops r = xs @ (p, StoreCoro k h) # ys \<Longrightarrow> rx_socks r p = Some s \<Longrightarrow>
    rx_step orderly ctl kclose r (r\<lparr>rx_socks := (rx_socks r)(p \<mapsto> SetCoro k h s), rx_ops := xs @ (p, AddEvent k) # ys\<rparr>)"
| add_event: "rx_ops r = xs @ (p, AddEvent k) # ys \<Longrightarrow> rx_socks r p = Some s \<Longrightarrow>
    add_update ctl k (s, rx_em r) = Inr n \<Longrightarrow> rx_step orderly ctl kclose r ((rx_store p n r)\<lparr>rx_ops := xs @ ys\<rparr>)"
| del_store: "open_at r p s \<Longrightarrow> orderly \<longrightarrow> idle r p \<Longrightarrow> \<not> is_shutdown (rx_em r) \<Longrightarrow>
    rx_step orderly ctl kclose r (r\<lparr>rx_socks := (rx_socks r)(p \<mapsto> DelCoro k s), rx_ops := (p, DelEvent k) # rx_ops r\<rparr>)"
| del_event: "rx_ops r = xs @ (p, DelEvent k) # ys \<Longrightarrow> rx_socks r p = Some s \<Longrightarrow>
    del_update ctl k (s, rx_em r) = Inr n \<Longrightarrow> rx_step orderly ctl kclose r ((rx_store p n r)\<lparr>rx_ops := xs @ ys\<rparr>)"
| closed: "open_at r p s \<Longrightarrow> orderly \<longrightarrow> idle r p \<Longrightarrow> rx_step orderly ctl kclose r (rx_close kclose p s r)"
| destroyed: "rx_socks r p = Some s \<Longrightarrow> idle r p \<Longrightarrow>
    orderly \<longrightarrow> sock_is_closed s \<longrightarrow> detached s \<or> (\<forall>q t. open_at r q t \<longrightarrow> sock_fd t \<noteq> sock_fd s) \<Longrightarrow>
    rx_destroy ctl kclose p s r = Inr r' \<Longrightarrow> rx_step orderly ctl kclose r r'"
| stopped: "rx_step orderly ctl kclose r (r\<lparr>rx_em := em_Shutdown (rx_em r)\<rparr>)"

text \<open>What \<open>epoll_wait\<close> may report: an event of a registered descriptor, with readiness the mask
  asks for (and conditions such as \<open>EPOLLHUP\<close>), carrying the stored address.\<close>

definition reported :: "('k \<Rightarrow> int \<rightharpoonup> u32) \<Rightarrow> ('h, 'k) reactor \<Rightarrow> u32 \<times> nat \<Rightarrow> bool" where
  "reported interest r = (\<lambda>(ev, ptr). \<exists>fd mask. interest (epfd (rx_em r)) fd = Some mask \<and> rx_data r fd = Some ptr \<and>
     (ev AND EPOLLIN \<noteq> 0 \<longrightarrow> mask AND EPOLLIN \<noteq> 0) \<and> (ev AND EPOLLOUT \<noteq> 0 \<longrightarrow> mask AND EPOLLOUT \<noteq> 0))"

section \<open>The invariant\<close>

text \<open>The windows of a socket: between \<open>Attach\<close> (or the test for it) and \<open>SetRecvCoro\<close>, and between
  \<open>DelRecvCoro\<close> and \<open>UpdateEvent\<close>. Outside of them a socket that waits for readiness has the coroutine
  to resume.\<close>

definition window :: "('h, 'k) reactor \<Rightarrow> nat \<Rightarrow> io_kind \<Rightarrow> bool" where
  "window r p k \<longleftrightarrow> (\<exists>h. (p, StoreCoro k h) \<in> set (rx_ops r)) \<or> (p, DelEvent k) \<in> set (rx_ops r)"

definition has_coro :: "io_kind \<Rightarrow> 'h socket \<Rightarrow> bool" where
  "has_coro k s \<longleftrightarrow> detached s \<or> (io_state s AND io_mask k \<noteq> 0 \<longrightarrow> coro k s \<noteq> None)"

definition sock_ok :: "('k \<Rightarrow> int \<rightharpoonup> u32) \<Rightarrow> ('h, 'k) reactor \<Rightarrow> nat \<Rightarrow> 'h socket \<Rightarrow> bool" where
  "sock_ok interest r p s \<longleftrightarrow> em_agrees interest (s, rx_em r) \<and> 0 \<le> sock_fd s \<and>
     (\<not> detached s \<longrightarrow> rx_data r (sock_fd s) = Some p) \<and>
     (\<forall>k. window r p k \<or> has_coro k s) \<and> (\<forall>k. (p, AddEvent k) \<in> set (rx_ops r) \<longrightarrow> coro k s \<noteq> None)"

definition rx_inv :: "'k ctl \<Rightarrow> (int \<Rightarrow> 'k \<Rightarrow> 'k) \<Rightarrow> ('k \<Rightarrow> int \<rightharpoonup> u32) \<Rightarrow> ('h, 'k) reactor \<Rightarrow> bool" where
  "rx_inv ctl kclose interest r \<longleftrightarrow> epoll_laws ctl kclose interest \<and>
     (\<forall>p s. open_at r p s \<longrightarrow> sock_ok interest r p s) \<and>
     (\<forall>p q s t. open_at r p s \<longrightarrow> open_at r q t \<longrightarrow> sock_fd s = sock_fd t \<longrightarrow> p = q) \<and>
     (\<forall>fd. interest (epfd (rx_em r)) fd \<noteq> None \<longrightarrow> (\<exists>p s. open_at r p s \<and> sock_fd s = fd)) \<and>
     distinct (map fst (rx_ops r)) \<and> (\<forall>p. \<not> idle r p \<longrightarrow> (\<exists>s. open_at r p s))"

text \<open>The masks as single bits.\<close>

lemma mask_powers: "EPOLLIN = 2 ^ 0" "EPOLLOUT = 2 ^ 2" "EPOLLET = 2 ^ 31"
  by (simp_all add: EPOLLIN_def EPOLLOUT_def EPOLLET_def)

lemma mask_bits [simp]:
  "bit EPOLLIN i \<longleftrightarrow> i = 0" "bit EPOLLOUT i \<longleftrightarrow> i = 2" "bit EPOLLET i \<longleftrightarrow> i = 31"
  unfolding mask_powers bit_exp_iff by auto

lemma mask_wants [simp]: "w AND EPOLLIN = 0 \<longleftrightarrow> \<not> bit w 0" "w AND EPOLLOUT = 0 \<longleftrightarrow> \<not> bit w 2"
  unfolding mask_powers and_exp_eq_0_iff_not_bit by (rule refl)+

definition io_bit :: "io_kind \<Rightarrow> nat" where
  "io_bit k = (case k of RecvIo \<Rightarrow> 0 | SendIo \<Rightarrow> 2)"

lemma io_bit [simp]: "io_bit k' = io_bit k \<longleftrightarrow> k' = k" "io_bit k \<noteq> 31" "io_bit k < 32"
  by (cases k; cases k'; simp add: io_bit_def)+

lemma io_mask_bit: "bit (io_mask k) i \<longleftrightarrow> i = io_bit k"
  by (cases k) (simp_all add: io_mask_def io_bit_def)

lemma io_mask_and: "w AND io_mask k = 0 \<longleftrightarrow> \<not> bit w (io_bit k)"
  by (cases k) (simp_all add: io_mask_def io_bit_def)

lemma io_mask_wants [simp]:
  "((w OR io_mask k) AND io_mask k' = 0) \<longleftrightarrow> k' \<noteq> k \<and> w AND io_mask k' = 0"
  "((w AND NOT (io_mask k)) AND io_mask k' = 0) \<longleftrightarrow> k' = k \<or> w AND io_mask k' = 0"
  "((io_mask k OR EPOLLET) AND io_mask k' = 0) \<longleftrightarrow> k' \<noteq> k"
  unfolding io_mask_and bit_or_iff bit_and_iff bit_not_iff io_mask_bit by auto

lemma coro_set [simp]:
  "coro k' (SetCoro k h s) = (if k' = k then Some h else coro k' s)" "coro k' (DelCoro k s) = (if k' = k then None else coro k' s)"
  by (cases k; cases k'; simp add: coro_def SetCoro_def DelCoro_def socket_defs)+

lemma coro_fields [simp]:
  "sock_fd (SetCoro k h s) = sock_fd s" "io_state (SetCoro k h s) = io_state s" "detached (SetCoro k h s) = detached s"
  "sock_is_closed (SetCoro k h s) = sock_is_closed s"
  "sock_fd (DelCoro k s) = sock_fd s" "io_state (DelCoro k s) = io_state s" "detached (DelCoro k s) = detached s"
  "sock_is_closed (DelCoro k s) = sock_is_closed s"
  "coro k (s\<lparr>io_state := st\<rparr>) = coro k s" "coro k (s\<lparr>io_state := st, detached := d\<rparr>) = coro k s"
  "coro k (s\<lparr>sock_is_closed := b\<rparr>) = coro k s" "coro k (new_socket fd) = None"
  by (cases k; simp add: coro_def SetCoro_def DelCoro_def socket_defs new_socket_def)+

text \<open>A successful \<open>UpdateEvent\<close>.\<close>

lemma UpdateEvent_done:
  assumes laws: "epoll_laws ctl kclose interest" and agr: "em_agrees interest (s, em)"
    and u: "UpdateEvent ctl st (SetIOState st s, em) = Inr n"
  obtains em' where "n = (s\<lparr>io_state := st\<rparr>, em')" "\<not> detached s" "em_agrees interest (s\<lparr>io_state := st\<rparr>, em')"
    "same_others interest (sock_fd s) em em'"
proof -
  let ?s = "s\<lparr>io_state := st\<rparr>"
  have d: "\<not> detached s"
  proof
    assume "detached s"
    then have "interest (epfd em) (sock_fd ?s) = None" using agr by (simp add: em_agrees_def)
    from epoll_call_unregistered(1) [OF laws this] u show False by (simp add: UpdateEvent_def SetIOState_def)
  qed
  then have "interest (epfd em) (sock_fd ?s) \<noteq> None" using agr by (simp add: em_agrees_def)
  then obtain em' where "UpdateEvent ctl st (?s, em) = Inr (?s, em')" "em_agrees interest (?s, em')"
    "same_others interest (sock_fd ?s) em em'"
    by (rule UpdateEvent_attached [OF laws, where ev = st]) (use d in simp_all)
  then show ?thesis using u d by (intro that [of em']) (simp_all add: SetIOState_def)
qed

lemma sock_ok_other:
  assumes "sock_ok interest r p s" "interest (epfd (rx_em r')) (sock_fd s) = interest (epfd (rx_em r)) (sock_fd s)"
    and "rx_data r' (sock_fd s) = rx_data r (sock_fd s)" "\<And>x. (p, x) \<in> set (rx_ops r') \<longleftrightarrow> (p, x) \<in> set (rx_ops r)"
  shows "sock_ok interest r' p s"
  using assms by (simp add: sock_ok_def em_agrees_def window_def)

lemma rx_invI:
  assumes "epoll_laws ctl kclose interest" "\<And>p s. open_at r p s \<Longrightarrow> sock_ok interest r p s"
    and "\<And>p q s t. open_at r p s \<Longrightarrow> open_at r q t \<Longrightarrow> sock_fd s = sock_fd t \<Longrightarrow> p = q"
    and "\<And>fd. interest (epfd (rx_em r)) fd \<noteq> None \<Longrightarrow> \<exists>p s. open_at r p s \<and> sock_fd s = fd"
    and "distinct (map fst (rx_ops r))" "\<And>p. \<not> idle r p \<Longrightarrow> \<exists>s. open_at r p s"
  shows "rx_inv ctl kclose interest r"
  unfolding rx_inv_def using assms by blast

lemma rx_invD:
  assumes "rx_inv ctl kclose interest r"
  shows "epoll_laws ctl kclose interest" "open_at r p s \<Longrightarrow> sock_ok interest r p s"
    "open_at r p s \<Longrightarrow> open_at r q t \<Longrightarrow> sock_fd s = sock_fd t \<Longrightarrow> p = q"
    "interest (epfd (rx_em r)) fd \<noteq> None \<Longrightarrow> \<exists>p s. open_at r p s \<and> sock_fd s = fd"
    "distinct (map fst (rx_ops r))" "\<not> idle r p \<Longrightarrow> \<exists>s. open_at r p s"
  using assms unfolding rx_inv_def by blast+

lemma open_at_unique: "open_at r p s \<Longrightarrow> open_at r p t \<Longrightarrow> s = t"
  by (simp add: open_at_def)

lemma rx_inv_accepted:
  assumes inv: "rx_inv ctl kclose interest r" and "rx_socks r p = None" "0 \<le> fd" "\<forall>q s. open_at r q s \<longrightarrow> sock_fd s \<noteq> fd"
  shows "rx_inv ctl kclose interest (r\<lparr>rx_socks := (rx_socks r)(p \<mapsto> new_socket fd)\<rparr>)" (is "rx_inv _ _ _ ?r")
proof (rule rx_invI)
  have open_r: "open_at ?r q t \<longleftrightarrow> q = p \<and> t = new_socket fd \<or> open_at r q t" for q t
    using assms(2) by (auto simp: open_at_def new_socket_def)
  have "interest (epfd (rx_em r)) fd = None" using rx_invD(4) [OF inv] assms(4) by blast
  moreover have "idle r p" using rx_invD(6) [OF inv, of p] assms(2) by (auto simp: open_at_def)
  ultimately have new: "sock_ok interest ?r p (new_socket fd)"
    using assms(3) by (force simp: sock_ok_def em_agrees_def has_coro_def new_socket_def idle_def)
  have fd: "sock_fd (new_socket fd) = fd" by (simp add: new_socket_def)
  show "sock_ok interest ?r q t" if "open_at ?r q t" for q t
    using that open_r new sock_ok_other [OF rx_invD(2) [OF inv], of q t ?r] by auto
  show "q = q'" if "open_at ?r q t" "open_at ?r q' t'" "sock_fd t = sock_fd t'" for q q' t t'
    using that open_r rx_invD(3) [OF inv] assms(4) fd by metis
  show "\<exists>q t. open_at ?r q t \<and> sock_fd t = f" if "interest (epfd (rx_em ?r)) f \<noteq> None" for f
    using rx_invD(4) [OF inv, of f] that open_r by auto
  show "\<exists>s. open_at ?r q s" if "\<not> idle ?r q" for q
    using rx_invD(6) [OF inv, of q] that open_r by (auto simp: idle_def)
qed (use rx_invD [OF inv] in simp_all)

text \<open>A step of an operation on one open socket.\<close>

lemma rx_inv_sock:
  assumes inv: "rx_inv ctl kclose interest r" and o: "open_at r p s"
    and socks: "rx_socks r' = (rx_socks r)(p \<mapsto> s')" "sock_fd s' = sock_fd s" "sock_is_closed s' = sock_is_closed s"
    and em: "same_others interest (sock_fd s) (rx_em r) (rx_em r')" "\<And>f. f \<noteq> sock_fd s \<Longrightarrow> rx_data r' f = rx_data r f"
    and ops: "distinct (map fst (rx_ops r'))" "\<And>q x. q \<noteq> p \<Longrightarrow> (q, x) \<in> set (rx_ops r') \<longleftrightarrow> (q, x) \<in> set (rx_ops r)"
    and own: "sock_ok interest r' p s'"
  shows "rx_inv ctl kclose interest r'"
proof (rule rx_invI)
  have open_r: "open_at r' q t \<longleftrightarrow> (if q = p then t = s' else open_at r q t)" for q t
    using o socks by (auto simp: open_at_def)
  show "sock_ok interest r' q t" if a: "open_at r' q t" for q t
  proof (cases "q = p")
    case False
    then have t: "open_at r q t" "sock_fd t \<noteq> sock_fd s" using a open_r rx_invD(3) [OF inv o] by (simp, metis)
    then show ?thesis using em ops(2) False
      by (intro sock_ok_other [OF rx_invD(2) [OF inv t(1)]]) (auto simp: same_others_def)
  qed (use a open_r own in auto)
  show "q = q'" if "open_at r' q t" "open_at r' q' t'" "sock_fd t = sock_fd t'" for q q' t t'
    using that open_r o socks(2) rx_invD(3) [OF inv] by metis
  show "\<exists>q t. open_at r' q t \<and> sock_fd t = f" if a: "interest (epfd (rx_em r')) f \<noteq> None" for f
  proof (cases "f = sock_fd s")
    case False
    then have "interest (epfd (rx_em r)) f \<noteq> None" using a em(1) by (simp add: same_others_def)
    then obtain q t where "open_at r q t" "sock_fd t = f" using rx_invD(4) [OF inv] by blast
    then show ?thesis using open_r o False open_at_unique by metis
  qed (use open_r socks(2) in auto)
  show "\<exists>s. open_at r' q s" if a: "\<not> idle r' q" for q
  proof (cases "q = p")
    case False
    then have "\<not> idle r q" using a ops(2) by (auto simp: idle_def image_iff)
    then show ?thesis using rx_invD(6) [OF inv] open_r False by auto
  qed (use open_r in auto)
qed (rule rx_invD(1) [OF inv] ops(1))+

lemma idle_ops: "idle r p \<Longrightarrow> (p, x) \<in> set (rx_ops r) \<Longrightarrow> False"
  by (force simp: idle_def)

lemma idle_window: "idle r p \<Longrightarrow> \<not> window r p k"
  by (auto simp: window_def dest: idle_ops)

lemma rx_inv_add_attach:
  assumes inv: "rx_inv ctl kclose interest r" and o: "open_at r p s" and i: "idle r p" and d: "\<not> Attached s"
    and a: "Attach ctl (io_mask k OR EPOLLET) (s, rx_em r) = Inr n"
  shows "rx_inv ctl kclose interest ((rx_store p n r)\<lparr>rx_ops := (p, StoreCoro k h) # rx_ops r\<rparr>)"
proof -
  have ok: "sock_ok interest r p s" by (rule rx_invD(2) [OF inv o])
  then have agr: "em_agrees interest (s, rx_em r)" by (simp add: sock_ok_def)
  let ?s = "s\<lparr>io_state := io_mask k OR EPOLLET, detached := False\<rparr>"
  obtain em where em: "n = (?s, em)" "em_agrees interest (?s, em)" "same_others interest (sock_fd s) (rx_em r) em"
    by (rule Attach_ok [OF rx_invD(1) [OF inv] agr, of "io_mask k OR EPOLLET"]) (use d a in \<open>simp_all add: Attached_def\<close>)
  show ?thesis
    by (rule rx_inv_sock [OF inv o, where s' = ?s])
      (use em ok i rx_invD(5) [OF inv] in \<open>auto simp: rx_store_def idle_def sock_ok_def has_coro_def window_def dest: idle_ops [OF i]\<close>)
qed

lemma rx_inv_add_attached:
  assumes inv: "rx_inv ctl kclose interest r" and o: "open_at r p s" and i: "idle r p"
  shows "rx_inv ctl kclose interest (r\<lparr>rx_ops := (p, StoreCoro k h) # rx_ops r\<rparr>)"
  by (rule rx_inv_sock [OF inv o, where s' = s])
    (use o rx_invD(2) [OF inv o] i rx_invD(5) [OF inv] in
      \<open>auto simp: open_at_def fun_eq_iff idle_def sock_ok_def window_def em_agrees_def dest: idle_ops [OF i]\<close>)

text \<open>With one operation at most on each socket, the control point of this one decides.\<close>

lemma only_op:
  assumes "rx_inv ctl kclose interest r" "rx_ops r = xs @ (p, x) # ys"
  shows "(p, y) \<in> set (rx_ops r) \<longleftrightarrow> y = x" "(p, y) \<notin> set (xs @ ys)" "distinct (map fst (xs @ ys))" "p \<notin> fst ` set (xs @ ys)"
proof -
  have d: "distinct (map fst (xs @ (p, x) # ys))" using rx_invD(5) [OF assms(1)] assms(2) by simp
  then show 1: "p \<notin> fst ` set (xs @ ys)" "distinct (map fst (xs @ ys))" by auto
  then show "(p, y) \<notin> set (xs @ ys)" by force
  then show "(p, y) \<in> set (rx_ops r) \<longleftrightarrow> y = x" using assms(2) by auto
qed

lemma op_open:
  assumes "rx_inv ctl kclose interest r" "rx_ops r = xs @ (p, x) # ys" "rx_socks r p = Some s"
  shows "open_at r p s"
proof -
  have "\<not> idle r p" using assms(2) by (simp add: idle_def)
  then obtain t where "open_at r p t" using rx_invD(6) [OF assms(1)] by blast
  then show ?thesis using assms(3) by (simp add: open_at_def)
qed

lemma rx_inv_add_store:
  assumes inv: "rx_inv ctl kclose interest r" and ops: "rx_ops r = xs @ (p, StoreCoro k h) # ys" and s: "rx_socks r p = Some s"
  shows "rx_inv ctl kclose interest (r\<lparr>rx_socks := (rx_socks r)(p \<mapsto> SetCoro k h s), rx_ops := xs @ (p, AddEvent k) # ys\<rparr>)"
proof -
  note only = only_op [OF inv ops] and o = op_open [OF inv ops s]
  have ok: "sock_ok interest r p s" by (rule rx_invD(2) [OF inv o])
  have win: "window r p k' \<longleftrightarrow> k' = k" for k' using only(1) by (auto simp: window_def)
  show ?thesis
    by (rule rx_inv_sock [OF inv o, where s' = "SetCoro k h s"])
      (use ok win ops only(2-4) in \<open>auto simp: sock_ok_def has_coro_def window_def em_agrees_def\<close>)
qed

lemma rx_inv_add_event:
  assumes inv: "rx_inv ctl kclose interest r" and ops: "rx_ops r = xs @ (p, AddEvent k) # ys" and s: "rx_socks r p = Some s"
    and u: "add_update ctl k (s, rx_em r) = Inr n"
  shows "rx_inv ctl kclose interest ((rx_store p n r)\<lparr>rx_ops := xs @ ys\<rparr>)"
proof -
  note only = only_op [OF inv ops] and o = op_open [OF inv ops s]
  have ok: "sock_ok interest r p s" by (rule rx_invD(2) [OF inv o])
  then have agr: "em_agrees interest (s, rx_em r)" by (simp add: sock_ok_def)
  let ?st = "io_state s OR io_mask k"
  have "UpdateEvent ctl ?st (SetIOState ?st s, rx_em r) = Inr n" using u by (simp add: add_update_def Let_def)
  then obtain em where em: "n = (s\<lparr>io_state := ?st\<rparr>, em)" "\<not> detached s" "em_agrees interest (s\<lparr>io_state := ?st\<rparr>, em)"
    "same_others interest (sock_fd s) (rx_em r) em" by (rule UpdateEvent_done [OF rx_invD(1) [OF inv] agr])
  have "\<not> window r p k'" for k' using only(1) by (auto simp: window_def)
  moreover have "coro k s \<noteq> None" using ok only(1) by (simp add: sock_ok_def)
  ultimately show ?thesis
    by (intro rx_inv_sock [OF inv o, where s' = "s\<lparr>io_state := ?st\<rparr>"])
      (use ok em ops only(2-4) in \<open>auto simp: sock_ok_def has_coro_def window_def rx_store_def\<close>)
qed

lemma rx_inv_del_store:
  assumes inv: "rx_inv ctl kclose interest r" and o: "open_at r p s" and i: "idle r p"
  shows "rx_inv ctl kclose interest (r\<lparr>rx_socks := (rx_socks r)(p \<mapsto> DelCoro k s), rx_ops := (p, DelEvent k) # rx_ops r\<rparr>)"
  by (rule rx_inv_sock [OF inv o, where s' = "DelCoro k s"])
    (use rx_invD(2) [OF inv o] i idle_window [OF i] rx_invD(5) [OF inv] in
      \<open>auto simp: idle_def sock_ok_def has_coro_def window_def em_agrees_def dest: idle_ops [OF i]\<close>)

lemma rx_inv_del_event:
  assumes inv: "rx_inv ctl kclose interest r" and ops: "rx_ops r = xs @ (p, DelEvent k) # ys" and s: "rx_socks r p = Some s"
    and u: "del_update ctl k (s, rx_em r) = Inr n"
  shows "rx_inv ctl kclose interest ((rx_store p n r)\<lparr>rx_ops := xs @ ys\<rparr>)"
proof -
  note only = only_op [OF inv ops] and o = op_open [OF inv ops s]
  have ok: "sock_ok interest r p s" by (rule rx_invD(2) [OF inv o])
  then have agr: "em_agrees interest (s, rx_em r)" by (simp add: sock_ok_def)
  let ?st = "io_state s AND NOT (io_mask k)"
  have "UpdateEvent ctl ?st (SetIOState ?st s, rx_em r) = Inr n" using u by (simp add: del_update_def Let_def)
  then obtain em where em: "n = (s\<lparr>io_state := ?st\<rparr>, em)" "\<not> detached s" "em_agrees interest (s\<lparr>io_state := ?st\<rparr>, em)"
    "same_others interest (sock_fd s) (rx_em r) em" by (rule UpdateEvent_done [OF rx_invD(1) [OF inv] agr])
  have "window r p k' \<longleftrightarrow> k' = k" for k' using only(1) by (auto simp: window_def)
  then show ?thesis
    by (intro rx_inv_sock [OF inv o, where s' = "s\<lparr>io_state := ?st\<rparr>"])
      (use ok em ops only(2-4) in \<open>auto simp: sock_ok_def has_coro_def window_def rx_store_def\<close>)
qed

text \<open>Closing and destroying take one socket and its descriptor away.\<close>

lemma rx_inv_gone:
  assumes inv: "rx_inv ctl kclose interest r" and o: "open_at r p s"
    and "\<And>q t. open_at r' q t \<longleftrightarrow> q \<noteq> p \<and> open_at r q t" "rx_data r' = rx_data r \<and> rx_ops r' = rx_ops r \<and> idle r p"
    and "\<And>f. interest (epfd (rx_em r')) f = (if f = sock_fd s then None else interest (epfd (rx_em r)) f)"
  shows "rx_inv ctl kclose interest r'"
proof (rule rx_invI)
  show "sock_ok interest r' q t" if "open_at r' q t" for q t
  proof -
    have t: "open_at r q t" "q \<noteq> p" using that assms(3) by auto
    then have "sock_fd t \<noteq> sock_fd s" using rx_invD(3) [OF inv o] by metis
    then show ?thesis by (intro sock_ok_other [OF rx_invD(2) [OF inv t(1)]]) (simp_all add: assms(4,5))
  qed
  show "q = q'" if "open_at r' q t" "open_at r' q' t'" "sock_fd t = sock_fd t'" for q q' t t'
    using that assms(3) rx_invD(3) [OF inv] by metis
  show "\<exists>q t. open_at r' q t \<and> sock_fd t = f" if "interest (epfd (rx_em r')) f \<noteq> None" for f
  proof -
    have "interest (epfd (rx_em r)) f \<noteq> None" "f \<noteq> sock_fd s" using that assms(5) by (auto split: if_splits)
    then obtain q t where "open_at r q t" "sock_fd t = f" "q \<noteq> p"
      using rx_invD(4) [OF inv] o open_at_unique by metis
    then show ?thesis using assms(3) by blast
  qed
  show "\<exists>t. open_at r' q t" if a: "\<not> idle r' q" for q
  proof -
    have "\<not> idle r q" "q \<noteq> p" using a assms(4) by (auto simp: idle_def)
    then show ?thesis using rx_invD(6) [OF inv] assms(3) by blast
  qed
qed (use rx_invD [OF inv] assms(4) in simp_all)

lemma kclose_interest: "epoll_laws ctl kclose interest \<Longrightarrow> interest (kclose f k) g = (if g = f then None else interest k g)"
  by (simp add: epoll_laws_def)

lemma rx_inv_closed:
  assumes inv: "rx_inv ctl kclose interest r" and o: "open_at r p s" and i: "idle r p"
  shows "rx_inv ctl kclose interest (rx_close kclose p s r)"
  by (rule rx_inv_gone [OF inv o])
    (use o i kclose_interest [OF rx_invD(1) [OF inv]] in \<open>auto simp: rx_close_def conn_Close_def sock_Close_def open_at_def\<close>)

lemma rx_inv_same:
  assumes inv: "rx_inv ctl kclose interest r" and same: "open_at r' = open_at r" "rx_data r' = rx_data r"
    "epfd (rx_em r') = epfd (rx_em r)" "rx_ops r' = rx_ops r"
  shows "rx_inv ctl kclose interest r'"
  using inv by (simp add: rx_inv_def sock_ok_def em_agrees_def window_def idle_def same)

lemma destroy_open:
  assumes laws: "epoll_laws ctl kclose interest" and s: "em_agrees interest (s, rx_em r)" "\<not> sock_is_closed s" "0 \<le> sock_fd s"
  obtains em where "rx_destroy ctl kclose p s r = Inr (r\<lparr>rx_socks := (rx_socks r)(p := None), rx_em := em\<rparr>)"
    "\<forall>f. interest (epfd em) f = (if f = sock_fd s then None else interest (epfd (rx_em r)) f)"
proof (cases "detached s")
  case True
  then show ?thesis using that s(2,3) kclose_interest [OF laws]
    by (simp add: rx_destroy_def destroy_connection_def destroy_socket_def Attached_def)
next
  case False
  obtain em1 where "Detach ctl (s, rx_em r) = Inr (s\<lparr>detached := True\<rparr>, em1)" "same_others interest (sock_fd s) (rx_em r) em1"
    by (rule Detach_ok [OF laws s(1) False])
  then show ?thesis using that [of "em1\<lparr>epfd := kclose (sock_fd s) (epfd em1)\<rparr>"] s(2,3) False kclose_interest [OF laws]
    by (simp add: rx_destroy_def destroy_connection_def destroy_socket_def Attached_def same_others_def)
qed

lemma rx_inv_destroyed:
  assumes inv: "rx_inv ctl kclose interest r" and "rx_socks r p = Some s" "idle r p"
    and c: "sock_is_closed s \<longrightarrow> detached s \<or> (\<forall>q t. open_at r q t \<longrightarrow> sock_fd t \<noteq> sock_fd s)"
    and d: "rx_destroy ctl kclose p s r = Inr r'"
  shows "rx_inv ctl kclose interest r'"
proof (cases "sock_is_closed s")
  case True
  have "detached s \<or> sock_fd s = - 1"
  proof (rule ccontr)
    assume a: "\<not> (detached s \<or> sock_fd s = - 1)"
    then have "\<not> interest (epfd (rx_em r)) (sock_fd s) \<noteq> None"
      using c True rx_invD(4) [OF inv, of "sock_fd s"] by blast
    then have "interest (epfd (rx_em r)) (sock_fd (EventDetach s)) = None" by (simp add: EventDetach_def)
    from epoll_call_unregistered(2) [OF rx_invD(1) [OF inv] this] a d
    show False by (simp add: rx_destroy_def destroy_connection_def Detach_def Attached_def)
  qed
  then have "r' = r\<lparr>rx_socks := (rx_socks r)(p := None)\<rparr>"
    using d True by (elim disjE) (simp_all add: rx_destroy_def destroy_connection_def destroy_socket_def Attached_def)
  then show ?thesis using True assms(2) by (intro rx_inv_same [OF inv]) (auto simp: open_at_def fun_eq_iff)
next
  case False
  then have o: "open_at r p s" using assms(2) by (simp add: open_at_def)
  then have s: "em_agrees interest (s, rx_em r)" "0 \<le> sock_fd s" using rx_invD(2) [OF inv] by (auto simp: sock_ok_def)
  obtain em where em: "rx_destroy ctl kclose p s r = Inr (r\<lparr>rx_socks := (rx_socks r)(p := None), rx_em := em\<rparr>)"
    "\<forall>f. interest (epfd em) f = (if f = sock_fd s then None else interest (epfd (rx_em r)) f)"
    by (rule destroy_open [where p = p, OF rx_invD(1) [OF inv] s(1) False s(2)])
  then have "r' = r\<lparr>rx_socks := (rx_socks r)(p := None), rx_em := em\<rparr>" using d by simp
  then show ?thesis by (intro rx_inv_gone [OF inv o]) (auto simp: open_at_def em(2) assms(3))
qed

lemma rx_step_inv:
  "rx_step orderly ctl kclose r r' \<Longrightarrow> orderly \<Longrightarrow> rx_inv ctl kclose interest r \<Longrightarrow> rx_inv ctl kclose interest r'"
proof (induction rule: rx_step.induct)
  case (stopped r)
  then show ?case by (intro rx_inv_same [OF stopped(2)]) (auto simp: open_at_def fun_eq_iff em_Shutdown_def)
qed (auto intro: rx_inv_accepted rx_inv_add_attach rx_inv_add_attached rx_inv_add_store rx_inv_add_event
    rx_inv_del_store rx_inv_del_event rx_inv_closed rx_inv_destroyed)

definition rx_init :: "'k ctl \<Rightarrow> (int \<Rightarrow> 'k \<Rightarrow> 'k) \<Rightarrow> ('k \<Rightarrow> int \<rightharpoonup> u32) \<Rightarrow> ('h, 'k) reactor \<Rightarrow> bool" where
  "rx_init ctl kclose interest r \<longleftrightarrow> epoll_laws ctl kclose interest \<and>
     (\<exists>k n. interest k = Map.empty \<and> r = new_reactor k n)"

lemma rx_init_inv: "rx_init ctl kclose interest r \<Longrightarrow> rx_inv ctl kclose interest r"
  by (auto simp: rx_init_def rx_inv_def new_reactor_def open_at_def new_event_manager_def idle_def)

interpretation rx_sys: step_system "rx_init ctl kclose interest" "rx_step True ctl kclose" "rx_inv ctl kclose interest"
  for ctl kclose interest
  by unfold_locales (rule rx_init_inv, assumption, erule rx_step_inv, rule TrueI)

section \<open>The operations run without interruption\<close>

text \<open>The steps of one operation, taken in a row, have the effect of the operation of \<open>Event_Manager\<close>.\<close>

lemma rx_store_store [simp]:
  "sock_fd s' = sock_fd s \<Longrightarrow> rx_store p (s', em') (rx_store p (s, em) r) = rx_store p (s', em') r"
  by (simp add: rx_store_def)

lemma add_io_steps:
  assumes o: "open_at r p s" "orderly \<longrightarrow> idle r p" "\<not> is_shutdown (rx_em r)" and a: "add_io ctl k h (s, rx_em r) = Inr n"
  shows "(rx_step orderly ctl kclose)\<^sup>*\<^sup>* r (rx_store p n r)"
proof -
  let ?step = "rx_step orderly ctl kclose"
  obtain s1 em1 where b: "(if \<not> Attached s then Attach ctl (io_mask k OR EPOLLET) (s, rx_em r) else Inr (s, rx_em r)) = Inr (s1, em1)"
    and u: "add_update ctl k (SetCoro k h s1, em1) = Inr n"
    using a by (auto simp: add_io_def try_bind_eq_Inr)
  define r1 where "r1 = (if Attached s then r else rx_store p (s1, em1) r)"
  have fd: "sock_fd s1 = sock_fd s" "sock_fd (fst n) = sock_fd s"
    using b u by (auto simp: Attach_def epoll_call_eq EventAttach_def SetIOState_def add_update_def UpdateEvent_def Let_def
        split: if_splits)
  have 1: "?step r (r1\<lparr>rx_ops := (p, StoreCoro k h) # rx_ops r\<rparr>)"
  proof (cases "Attached s")
    case True
    then show ?thesis using rx_step.add_attached [OF o True, of ctl kclose k h] by (simp add: r1_def)
  next
    case False
    then show ?thesis using rx_step.add_attach [OF o False, of ctl k "(s1, em1)" kclose h] b by (simp add: r1_def)
  qed
  have r1: "rx_socks r1 p = Some s1" "rx_em r1 = em1"
    using b o(1) by (auto simp: r1_def rx_store_def open_at_def)
  let ?r2 = "r1\<lparr>rx_socks := (rx_socks r1)(p \<mapsto> SetCoro k h s1), rx_ops := (p, AddEvent k) # rx_ops r\<rparr>"
  have 2: "?step (r1\<lparr>rx_ops := (p, StoreCoro k h) # rx_ops r\<rparr>) ?r2"
    using rx_step.add_store [of "r1\<lparr>rx_ops := (p, StoreCoro k h) # rx_ops r\<rparr>" "[]" p k h "rx_ops r" s1 orderly ctl kclose] r1
    by simp
  have 3: "?step ?r2 ((rx_store p n ?r2)\<lparr>rx_ops := rx_ops r\<rparr>)"
    using rx_step.add_event [of ?r2 "[]" p k "rx_ops r" "SetCoro k h s1" ctl n orderly kclose] u r1(2) by simp
  have "(rx_store p n ?r2)\<lparr>rx_ops := rx_ops r\<rparr> = rx_store p n r"
    using fd by (cases n) (simp add: r1_def rx_store_def)
  with 1 2 3 show ?thesis
    by (metis (no_types, lifting) converse_rtranclp_into_rtranclp r_into_rtranclp)
qed

lemma del_io_steps:
  assumes o: "open_at r p s" "orderly \<longrightarrow> idle r p" "\<not> is_shutdown (rx_em r)" and d: "del_io ctl k (s, rx_em r) = Inr n"
  shows "(rx_step orderly ctl kclose)\<^sup>*\<^sup>* r (rx_store p n r)"
proof -
  let ?r1 = "r\<lparr>rx_socks := (rx_socks r)(p \<mapsto> DelCoro k s), rx_ops := (p, DelEvent k) # rx_ops r\<rparr>"
  have 1: "rx_step orderly ctl kclose r ?r1" by (rule rx_step.del_store [OF o])
  have 2: "rx_step orderly ctl kclose ?r1 ((rx_store p n ?r1)\<lparr>rx_ops := rx_ops r\<rparr>)"
    using rx_step.del_event [of ?r1 "[]" p k "rx_ops r" "DelCoro k s" ctl n orderly kclose] d by (simp add: del_io_def)
  have "(rx_store p n ?r1)\<lparr>rx_ops := rx_ops r\<rparr> = rx_store p n r" by (cases n) (simp add: rx_store_def)
  with 1 2 show ?thesis by (metis (no_types, lifting) converse_rtranclp_into_rtranclp r_into_rtranclp)
qed

inductive io_op :: "'k ctl \<Rightarrow> ('h, 'k) net \<Rightarrow> ('h, 'k) net \<Rightarrow> bool" for ctl where
  "AddRecv ctl h n = Inr n' \<Longrightarrow> io_op ctl n n'"
| "DelRecv ctl n = Inr n' \<Longrightarrow> io_op ctl n n'"
| "AddSend ctl h n = Inr n' \<Longrightarrow> io_op ctl n n'"
| "DelSend ctl n = Inr n' \<Longrightarrow> io_op ctl n n'"

lemma io_op_steps:
  assumes o: "open_at r p s" "orderly \<longrightarrow> idle r p" "\<not> is_shutdown (rx_em r)" and "io_op ctl (s, rx_em r) n"
  shows "(rx_step orderly ctl kclose)\<^sup>*\<^sup>* r (rx_store p n r)"
  using assms(4)
  by (cases rule: io_op.cases) (use o in \<open>auto simp: manager_operations intro: add_io_steps [OF o] del_io_steps [OF o]\<close>)

section \<open>Properties\<close>

lemma null_handle:
  "resume_event False socks resume (ev, ptr) st = Inl NullHandle \<Longrightarrow> \<exists>k. ev AND io_mask k \<noteq> 0 \<and> coro k (socks st ptr) = None"
  by (auto simp: resume_event_def event_direction_def coro_def io_mask_def split: if_splits option.splits
      intro: exI [of _ RecvIo] exI [of _ SendIo])

text \<open>
  Claim C14. In every orderly run (see the head of this theory: the operations of the event
  manager interleave at each access to the interest list and to the coroutine handles, but those
  on one socket do not overlap, no connection is closed during one, and no closed connection is
  destroyed once its descriptor has been given to a new one), an event that \<open>epoll_wait\<close> can report
  carries the address of a live socket that is open and attached. Dispatching it in that state
  resumes a null handle only inside a window of an operation in progress on that very socket,
  before \<open>SetRecvCoro\<close> or after \<open>DelRecvCoro\<close> (\<open>SetSendCoro\<close>, \<open>DelSendCoro\<close>); when no operation is in
  progress on it, the coroutine that waits for this readiness is there.
\<close>

theorem events_find_their_coroutine:
  assumes "rx_init ctl kclose interest r0" "(rx_step True ctl kclose)\<^sup>*\<^sup>* r0 r" "reported interest r (ev, ptr)"
  shows "\<exists>s. open_at r ptr s \<and> Attached s \<and>
    (resume_event False (\<lambda>_ q. the (rx_socks r q)) resume (ev, ptr) st = Inl NullHandle \<longrightarrow>
      (\<exists>k. ev AND io_mask k \<noteq> 0 \<and> window r ptr k)) \<and>
    (idle r ptr \<longrightarrow> resume_event False (\<lambda>_ q. the (rx_socks r q)) resume (ev, ptr) st \<noteq> Inl NullHandle)"
proof -
  have inv: "rx_inv ctl kclose interest r" by (rule rx_sys.inv_reachable [OF assms(1,2)])
  obtain fd mask where e: "interest (epfd (rx_em r)) fd = Some mask" "rx_data r fd = Some ptr"
    "ev AND io_mask k \<noteq> 0 \<longrightarrow> mask AND io_mask k \<noteq> 0" for k
    using assms(3) by (auto simp: reported_def io_mask_def split: io_kind.splits)
  then obtain p s where s: "open_at r p s" "sock_fd s = fd" using rx_invD(4) [OF inv, of fd] by blast
  then have ok: "sock_ok interest r p s" by (intro rx_invD(2) [OF inv])
  then have at: "\<not> detached s" "io_state s = mask" "p = ptr"
    using e(1,2) s(2) by (auto simp: sock_ok_def em_agrees_def split: if_splits)
  have null: "\<exists>k. ev AND io_mask k \<noteq> 0 \<and> window r ptr k"
    if n: "resume_event False (\<lambda>_ q. the (rx_socks r q)) resume (ev, ptr) st = Inl NullHandle"
  proof -
    obtain k where "ev AND io_mask k \<noteq> 0" "coro k s = None"
      using null_handle [OF n] s(1) at(3) by (auto simp: open_at_def)
    moreover have "window r ptr k \<or> has_coro k s" using ok at(3) by (simp add: sock_ok_def)
    moreover have "\<not> has_coro k s" using calculation(1,2) at(1,2) e(3) [of k] by (simp add: has_coro_def)
    ultimately show ?thesis by blast
  qed
  moreover have "resume_event False (\<lambda>_ q. the (rx_socks r q)) resume (ev, ptr) st \<noteq> Inl NullHandle" if "idle r ptr"
    using null idle_window [OF that] by blast
  ultimately show ?thesis using s(1) at by (intro exI [of _ s]) (simp add: Attached_def)
qed

text \<open>A reactor with one connection whose coroutine waits for input.\<close>

definition example_reactor :: "(nat, int \<rightharpoonup> u32) reactor" where
  "example_reactor = \<lparr>rx_socks = [3 \<mapsto> (new_socket 5)\<lparr>io_state := EPOLLIN OR EPOLLET, detached := False, recv_coro := Some 7\<rparr>],
     rx_em = (new_event_manager Map.empty 16)\<lparr>epfd := [5 \<mapsto> EPOLLIN OR EPOLLET]\<rparr>, rx_data = [5 \<mapsto> 3], rx_ops = []\<rparr>"

lemma map_rx_init: "rx_init map_ctl map_close id (new_reactor Map.empty 16)"
  using map_epoll_laws by (auto simp: rx_init_def)

lemma example_reactor_reached: "(rx_step True map_ctl map_close)\<^sup>*\<^sup>* (new_reactor Map.empty 16) example_reactor"
proof -
  let ?r0 = "new_reactor Map.empty 16 :: (nat, int \<rightharpoonup> u32) reactor"
  let ?r1 = "?r0\<lparr>rx_socks := (rx_socks ?r0)(3 \<mapsto> new_socket 5)\<rparr>"
  let ?n = "((new_socket 5)\<lparr>io_state := EPOLLIN OR EPOLLET, detached := False, recv_coro := Some (7 :: nat)\<rparr>,
    (new_event_manager Map.empty 16)\<lparr>epfd := [5 \<mapsto> EPOLLIN OR EPOLLET]\<rparr>)"
  have 1: "rx_step True map_ctl map_close ?r0 ?r1" by (rule rx_step.accepted) (simp_all add: new_reactor_def open_at_def)
  have "AddRecv map_ctl 7 (new_socket 5, rx_em ?r1) = Inr ?n"
    by (simp add: em_defs AddRecv_def map_ctl_def new_reactor_def new_event_manager_def new_socket_def Let_def EPOLLIN_def EPOLLET_def)
  then have 2: "(rx_step True map_ctl map_close)\<^sup>*\<^sup>* ?r1 (rx_store 3 ?n ?r1)"
    by (intro io_op_steps [where s = "new_socket 5"] io_op.intros(1))
      (simp_all add: open_at_def new_socket_def idle_def new_reactor_def new_event_manager_def)
  have 3: "rx_store 3 ?n ?r1 = example_reactor"
    by (simp add: rx_store_def example_reactor_def new_reactor_def new_event_manager_def new_socket_def)
  show ?thesis
    by (rule converse_rtranclp_into_rtranclp [where r = "rx_step True map_ctl map_close", OF 1 2 [unfolded 3]])
qed

theorem events_find_their_coroutine_witness:
  "\<exists>s. open_at example_reactor 3 s \<and> Attached s \<and>
    resume_event False (\<lambda>_ q. the (rx_socks example_reactor q)) (\<lambda>r st. st @ [r]) (EPOLLIN, 3) [] \<noteq> Inl NullHandle"
proof -
  have "id (epfd (rx_em example_reactor)) 5 = Some (EPOLLIN OR EPOLLET)" "rx_data example_reactor 5 = Some 3"
    by (simp_all add: example_reactor_def)
  then have "reported id example_reactor (EPOLLIN, 3)"
    unfolding reported_def by (simp, intro exI [of _ 5] exI [of _ "EPOLLIN OR EPOLLET"]) (simp add: bit_or_iff)
  moreover have "idle example_reactor 3" by (simp add: idle_def example_reactor_def)
  ultimately show ?thesis
    using events_find_their_coroutine [OF map_rx_init example_reactor_reached, of "EPOLLIN" 3 "\<lambda>r st. st @ [r]" "[]"]
    by (elim meta_impE) (assumption, elim exE conjE, intro exI conjI, assumption+, erule mp, assumption)
qed

text \<open>
  The window inside \<open>AddRecv\<close>: the descriptor is put into the interest list before the
  coroutine is stored. When input is already there and the event loop runs between the two,
  it resumes a null handle. The rest of \<open>AddRecv\<close> closes the window.
\<close>

theorem attach_window_resumes_null:
  assumes "epoll_laws ctl kclose interest" "em_agrees interest (s, em)" "detached s" "recv_coro s = None" "\<not> is_shutdown em"
  shows "\<exists>s1 em1. Attach ctl (EPOLLIN OR EPOLLET) (s, em) = Inr (s1, em1) \<and>
    interest (epfd em1) (sock_fd s) = Some (EPOLLIN OR EPOLLET) \<and>
    resume_event False (\<lambda>_ _. s1) resume (EPOLLIN, ptr) st = Inl NullHandle \<and>
    (\<exists>em2. AddRecv ctl h (s, em) = Inr (s1\<lparr>recv_coro := Some h\<rparr>, em2) \<and>
      resume_event False (\<lambda>_ _. s1\<lparr>recv_coro := Some h\<rparr>) resume (EPOLLIN, ptr) st = Inr (resume (ResumeRecv ptr h) st))"
proof -
  let ?s1 = "s\<lparr>io_state := EPOLLIN OR EPOLLET, detached := False\<rparr>"
  obtain em1 where 1: "Attach ctl (EPOLLIN OR EPOLLET) (s, em) = Inr (?s1, em1)" "em_agrees interest (?s1, em1)"
    by (rule Attach_ok [OF assms(1,2,3), of "EPOLLIN OR EPOLLET"]) auto
  obtain em2 where 2: "AddRecv ctl h (s, em) = Inr (s\<lparr>io_state := attach_state EPOLLIN s, detached := False, recv_coro := Some h\<rparr>, em2)"
    by (rule AddRecv_ok [OF assms(1,2,5), of h])
  then have 3: "AddRecv ctl h (s, em) = Inr (?s1\<lparr>recv_coro := Some h\<rparr>, em2)" using assms(3) by (simp add: attach_state_def)
  have "event_direction EPOLLIN = Some ToRecv" by (simp add: event_direction_def EPOLLIN_def)
  then show ?thesis using 1 3 assms(4)
    by (intro exI [of _ ?s1] exI [of _ em1]) (simp add: em_agrees_def resume_event_def)
qed

theorem attach_window_resumes_null_witness:
  "\<exists>s1 em1. Attach map_ctl (EPOLLIN OR EPOLLET) (new_socket 5 :: nat socket, new_event_manager Map.empty 16) = Inr (s1, em1) \<and>
    id (epfd em1) 5 = Some (EPOLLIN OR EPOLLET) \<and>
    resume_event False (\<lambda>_ _. s1) (\<lambda>r st. st @ [r]) (EPOLLIN, 3) [] = Inl NullHandle"
  using attach_window_resumes_null [OF map_epoll_laws, of "new_socket 5" "new_event_manager Map.empty 16" "\<lambda>r st. st @ [r]" 3 "[]" 7]
  by (auto simp: em_agrees_def new_socket_def new_event_manager_def)

text \<open>
  Operations on one socket that overlap: \<open>AddRecv\<close> has put the descriptor into the interest list
  and stored the coroutine, input arrives, the event loop resumes the coroutine, and its \<open>DelRecv\<close>
  runs before the \<open>UpdateEvent\<close> of the \<open>AddRecv\<close> that is still on its way. This last call asks for
  input again, now without a coroutine: when no operation is in progress any more, the next event
  resumes a null handle.
\<close>

lemma update_attached:
  assumes "epoll_laws ctl kclose interest" "em_agrees interest (s, em)" "\<not> detached s"
  obtains em' where "UpdateEvent ctl st (SetIOState st s, em) = Inr (s\<lparr>io_state := st\<rparr>, em')"
    "em_agrees interest (s\<lparr>io_state := st\<rparr>, em')"
proof -
  have "interest (epfd em) (sock_fd (s\<lparr>io_state := st\<rparr>)) \<noteq> None" using assms(2,3) by (simp add: em_agrees_def)
  then show ?thesis
    by (rule UpdateEvent_attached [OF assms(1), where ev = st]) (use assms(3) that in \<open>simp_all add: SetIOState_def\<close>)
qed

theorem overlapping_operations_lose_the_coroutine:
  fixes r :: "('h, 'k) reactor" and h :: 'h
  assumes "rx_inv ctl kclose interest r" "open_at r p s" "\<not> Attached s" "idle r p" "\<not> is_shutdown (rx_em r)"
  shows "\<exists>r' s'. (rx_step False ctl kclose)\<^sup>*\<^sup>* r r' \<and> open_at r' p s' \<and> rx_ops r' = rx_ops r \<and>
    reported interest r' (EPOLLIN, p) \<and>
    resume_event False (\<lambda>_ q. the (rx_socks r' q)) resume (EPOLLIN, p) st = Inl NullHandle"
proof -
  let ?step = "rx_step False ctl kclose"
  have laws: "epoll_laws ctl kclose interest" and agr: "em_agrees interest (s, rx_em r)"
    using rx_invD(1,2) [OF assms(1)] assms(2) by (auto simp: sock_ok_def)
  define s1 where "s1 = s\<lparr>io_state := io_mask RecvIo OR EPOLLET, detached := False\<rparr>"
  obtain em1 where 1: "Attach ctl (io_mask RecvIo OR EPOLLET) (s, rx_em r) = Inr (s1, em1)" "em_agrees interest (s1, em1)"
    "same_others interest (sock_fd s) (rx_em r) em1"
    by (rule Attach_ok [OF laws agr, of "io_mask RecvIo OR EPOLLET"]) (use assms(3) in \<open>simp_all add: Attached_def s1_def\<close>)
  let ?s3 = "DelCoro RecvIo (SetCoro RecvIo h s1)"
  let ?st4 = "io_state ?s3 AND NOT (io_mask RecvIo)"
  let ?s4 = "?s3\<lparr>io_state := ?st4\<rparr>"
  obtain em2 where 2: "UpdateEvent ctl ?st4 (SetIOState ?st4 ?s3, em1) = Inr (?s4, em2)" "em_agrees interest (?s4, em2)"
    by (rule update_attached [OF laws, of ?s3 em1 ?st4]) (use 1(2) in \<open>simp_all add: em_agrees_def s1_def\<close>)
  let ?st5 = "io_state ?s4 OR io_mask RecvIo"
  let ?s5 = "?s4\<lparr>io_state := ?st5\<rparr>"
  obtain em3 where 3: "UpdateEvent ctl ?st5 (SetIOState ?st5 ?s4, em2) = Inr (?s5, em3)" "em_agrees interest (?s5, em3)"
    by (rule update_attached [OF laws 2(2), of ?st5]) (simp_all add: s1_def)
  let ?r1 = "(rx_store p (s1, em1) r)\<lparr>rx_ops := (p, StoreCoro RecvIo h) # rx_ops r\<rparr>"
  let ?r2 = "?r1\<lparr>rx_socks := (rx_socks ?r1)(p \<mapsto> SetCoro RecvIo h s1), rx_ops := (p, AddEvent RecvIo) # rx_ops r\<rparr>"
  let ?r3 = "?r2\<lparr>rx_socks := (rx_socks ?r2)(p \<mapsto> ?s3), rx_ops := (p, DelEvent RecvIo) # rx_ops ?r2\<rparr>"
  let ?r4 = "(rx_store p (?s4, em2) ?r3)\<lparr>rx_ops := (p, AddEvent RecvIo) # rx_ops r\<rparr>"
  let ?r5 = "(rx_store p (?s5, em3) ?r4)\<lparr>rx_ops := rx_ops r\<rparr>"
  have a: "?step r ?r1" by (rule rx_step.add_attach [OF assms(2) _ assms(5,3) 1(1)]) simp
  have b: "?step ?r1 ?r2" using rx_step.add_store [of ?r1 "[]" p RecvIo h "rx_ops r" s1 False ctl kclose] by (simp add: rx_store_def)
  have c: "?step ?r2 ?r3"
    by (rule rx_step.del_store) (use assms(2,5) 1(3) in \<open>simp_all add: open_at_def rx_store_def same_others_def s1_def\<close>)
  have d: "?step ?r3 ?r4"
    using rx_step.del_event [of ?r3 "[]" p RecvIo "(p, AddEvent RecvIo) # rx_ops r" ?s3 ctl "(?s4, em2)" False kclose] 2(1)
    by (simp add: rx_store_def del_update_def Let_def)
  have e: "?step ?r4 ?r5"
    using rx_step.add_event [of ?r4 "[]" p RecvIo "rx_ops r" ?s4 ctl "(?s5, em3)" False kclose] 3(1)
    by (simp add: rx_store_def add_update_def Let_def)
  have "?step\<^sup>*\<^sup>* r ?r5" using a b c d e by (meson converse_rtranclp_into_rtranclp r_into_rtranclp)
  moreover have "open_at ?r5 p ?s5" using assms(2) by (simp add: open_at_def rx_store_def s1_def)
  moreover have "interest (epfd (rx_em ?r5)) (sock_fd s) = Some ?st5" "rx_data ?r5 (sock_fd s) = Some p"
    using 3(2) by (simp_all add: rx_store_def em_agrees_def s1_def)
  then have "reported interest ?r5 (EPOLLIN, p)"
    unfolding reported_def by (simp, intro exI [of _ "sock_fd s"] exI [of _ ?st5]) (simp add: bit_or_iff io_mask_bit io_bit_def)
  moreover have "coro RecvIo ?s5 = None" "the (rx_socks ?r5 p) = ?s5" by (simp_all add: rx_store_def)
  then have "resume_event False (\<lambda>_ q. the (rx_socks ?r5 q)) resume (EPOLLIN, p) st = Inl NullHandle"
    by (simp add: resume_event_def event_direction_def coro_def EPOLLIN_def)
  ultimately show ?thesis by (intro exI [of _ ?r5] exI [of _ ?s5] conjI) simp_all
qed

theorem overlapping_operations_lose_the_coroutine_witness:
  "\<exists>r' :: (nat, int \<rightharpoonup> u32) reactor. rx_ops r' = [] \<and> reported id r' (EPOLLIN, 3) \<and>
    resume_event False (\<lambda>_ q. the (rx_socks r' q)) (\<lambda>r st. st @ [r]) (EPOLLIN, 3) [] = Inl NullHandle"
proof -
  let ?r0 = "new_reactor Map.empty 16 :: (nat, int \<rightharpoonup> u32) reactor"
  let ?r1 = "?r0\<lparr>rx_socks := (rx_socks ?r0)(3 \<mapsto> new_socket 5)\<rparr>"
  have 1: "rx_step True map_ctl map_close ?r0 ?r1" by (rule rx_step.accepted) (simp_all add: new_reactor_def open_at_def)
  have "rx_inv map_ctl map_close id ?r1" by (rule rx_step_inv [OF 1 TrueI rx_init_inv [OF map_rx_init]])
  from overlapping_operations_lose_the_coroutine [OF this, of 3 "new_socket 5" "\<lambda>r st. st @ [r]" "[]"]
  show ?thesis by (auto simp: open_at_def idle_def Attached_def new_socket_def new_reactor_def new_event_manager_def)
qed

text \<open>A descriptor used by two socket objects: the closed one still says it is attached.\<close>

lemma stale_destroy:
  assumes laws: "epoll_laws ctl kclose interest" and "sock_is_closed s" "\<not> detached s" "sock_fd s \<noteq> - 1"
    and "interest (epfd (rx_em r)) (sock_fd s) \<noteq> None"
  obtains em where "rx_destroy ctl kclose p s r = Inr (r\<lparr>rx_socks := (rx_socks r)(p := None), rx_em := em\<rparr>)"
    "interest (epfd em) (sock_fd s) = None" "is_shutdown em = is_shutdown (rx_em r)"
proof -
  obtain em where "epoll_call ctl CTL_DEL 0 (EventDetach s, rx_em r) = Inr (EventDetach s, em)"
    "interest (epfd em) (sock_fd s) = None" "is_shutdown em = is_shutdown (rx_em r)"
    by (rule epoll_call_DEL [OF laws, of "rx_em r" "EventDetach s" 0]) (use assms(5) in \<open>auto simp: EventDetach_def same_others_def\<close>)
  then show ?thesis using that assms(2-4)
    by (simp add: rx_destroy_def destroy_connection_def Detach_def Attached_def destroy_socket_def EventDetach_def)
qed

lemma AddRecv_unregistered:
  assumes "epoll_laws ctl kclose interest" "interest (epfd em) (sock_fd t) = None" "\<not> detached t" "\<not> is_shutdown em"
  shows "AddRecv ctl h (t, em) = Inl Fatal"
  using assms(2-4) by (simp add: AddRecv_def UpdateEvent_def SetRecvCoro_def socket_defs Let_def epoll_call_unregistered [OF assms(1)])

lemma close_frees:
  assumes inv: "rx_inv ctl kclose interest r" and o: "open_at r p s"
  shows "rx_socks (rx_close kclose p s r) = (rx_socks r)(p \<mapsto> s\<lparr>sock_is_closed := True\<rparr>)"
    "is_shutdown (rx_em (rx_close kclose p s r)) = is_shutdown (rx_em r)"
    "\<forall>q t. open_at (rx_close kclose p s r) q t \<longrightarrow> sock_fd t \<noteq> sock_fd s"
proof -
  show 1: "rx_socks (rx_close kclose p s r) = (rx_socks r)(p \<mapsto> s\<lparr>sock_is_closed := True\<rparr>)"
    "is_shutdown (rx_em (rx_close kclose p s r)) = is_shutdown (rx_em r)"
    by (simp_all add: rx_close_def conn_Close_def sock_Close_def)
  show "\<forall>q t. open_at (rx_close kclose p s r) q t \<longrightarrow> sock_fd t \<noteq> sock_fd s"
    using 1 rx_invD(3) [OF inv o] by (auto simp: open_at_def split: if_splits)
qed

text \<open>A new connection on a given free descriptor registers for input.\<close>

lemma accept_and_wait:
  fixes r :: "('h, 'k) reactor" and h :: 'h
  assumes inv: "rx_inv ctl kclose interest r" and "rx_socks r q = None" "0 \<le> fd" "\<forall>q s. open_at r q s \<longrightarrow> sock_fd s \<noteq> fd"
    and "\<not> is_shutdown (rx_em r)"
  obtains r' t where "(rx_step True ctl kclose)\<^sup>*\<^sup>* r r'" "open_at r' q t" "\<not> detached t" "sock_fd t = fd" "\<not> is_shutdown (rx_em r')"
    "\<forall>p. p \<noteq> q \<longrightarrow> rx_socks r' p = rx_socks r p"
proof -
  let ?n = "new_socket fd :: 'h socket"
  let ?r = "r\<lparr>rx_socks := (rx_socks r)(q \<mapsto> ?n)\<rparr>"
  let ?t = "?n\<lparr>io_state := attach_state EPOLLIN ?n, detached := False, recv_coro := Some h\<rparr>"
  have 1: "rx_step True ctl kclose r ?r" by (rule rx_step.accepted [OF assms(2-4)])
  have o: "open_at ?r q ?n" by (simp add: open_at_def new_socket_def)
  note agr = rx_invD(2) [OF rx_step_inv [OF 1 TrueI inv] o, unfolded sock_ok_def, THEN conjunct1]
  obtain em where em: "AddRecv ctl h (?n, rx_em ?r) = Inr (?t, em)" "same_others interest (sock_fd ?n) (rx_em ?r) em"
    by (rule AddRecv_ok [OF rx_invD(1) [OF inv] agr, where h = h]) (use assms(5) in simp_all)
  have "idle ?r q" using rx_invD(6) [OF inv, of q] assms(2) by (auto simp: idle_def open_at_def)
  then have 2: "(rx_step True ctl kclose)\<^sup>*\<^sup>* ?r (rx_store q (?t, em) ?r)"
    by (intro io_op_steps [OF o _ _ io_op.intros(1) [OF em(1)]]) (use assms(5) in simp_all)
  show ?thesis
  proof (rule that)
    show "(rx_step True ctl kclose)\<^sup>*\<^sup>* r (rx_store q (?t, em) ?r)"
      by (rule converse_rtranclp_into_rtranclp [where r = "rx_step True ctl kclose", OF 1 2])
    show "open_at (rx_store q (?t, em) ?r) q ?t" "\<not> detached ?t" "sock_fd ?t = fd"
      by (simp_all add: open_at_def rx_store_def new_socket_def)
    show "\<not> is_shutdown (rx_em (rx_store q (?t, em) ?r))" "\<forall>p. p \<noteq> q \<longrightarrow> rx_socks (rx_store q (?t, em) ?r) p = rx_socks r p"
      using em(2) assms(5) by (simp_all add: same_others_def rx_store_def)
  qed
qed

text \<open>An operation in progress on an attached socket can run to its end.\<close>

lemma finish_event:
  assumes inv: "rx_inv ctl kclose interest r" and o: "open_at r p s" "Attached s"
    and ops: "rx_ops r = xs @ (p, x) # ys" "x = AddEvent k \<or> x = DelEvent k"
  obtains r' s' where "rx_step True ctl kclose r r'" "open_at r' p s'" "Attached s'" "idle r' p"
    "\<forall>q. q \<noteq> p \<longrightarrow> rx_socks r' q = rx_socks r q" "is_shutdown (rx_em r') = is_shutdown (rx_em r)"
proof -
  note laws = rx_invD(1) [OF inv]
  have agr: "em_agrees interest (s, rx_em r)" using rx_invD(2) [OF inv o(1)] by (simp add: sock_ok_def)
  define st where "st = (if x = AddEvent k then io_state s OR io_mask k else io_state s AND NOT (io_mask k))"
  let ?s = "s\<lparr>io_state := st\<rparr>"
  have "interest (epfd (rx_em r)) (sock_fd ?s) \<noteq> None" using agr o(2) by (simp add: em_agrees_def Attached_def)
  then obtain em where em: "UpdateEvent ctl st (?s, rx_em r) = Inr (?s, em)" "same_others interest (sock_fd ?s) (rx_em r) em"
    by (rule UpdateEvent_attached [OF laws, where ev = st]) (use o(2) in \<open>simp_all add: Attached_def\<close>)
  let ?r = "(rx_store p (?s, em) r)\<lparr>rx_ops := xs @ ys\<rparr>"
  have sock: "rx_socks r p = Some s" using o(1) by (simp add: open_at_def)
  have "rx_step True ctl kclose r ?r"
    using ops(2)
  proof
    assume x: "x = AddEvent k"
    show ?thesis
      by (rule rx_step.add_event [OF ops(1) [unfolded x] sock]) (use em(1) in \<open>simp add: x st_def add_update_def SetIOState_def\<close>)
  next
    assume x: "x = DelEvent k"
    show ?thesis
      by (rule rx_step.del_event [OF ops(1) [unfolded x] sock]) (use em(1) in \<open>simp add: x st_def del_update_def SetIOState_def\<close>)
  qed
  moreover have "idle ?r p" using only_op(4) [OF inv ops(1)] by (simp add: idle_def)
  ultimately show ?thesis using that [of ?r ?s] o em(2) by (simp add: open_at_def rx_store_def Attached_def same_others_def)
qed

lemma finish_io:
  assumes inv: "rx_inv ctl kclose interest r" and o: "open_at r p s" "Attached s"
  obtains r' s' where "(rx_step True ctl kclose)\<^sup>*\<^sup>* r r'" "open_at r' p s'" "Attached s'" "idle r' p"
    "\<forall>q. q \<noteq> p \<longrightarrow> rx_socks r' q = rx_socks r q" "is_shutdown (rx_em r') = is_shutdown (rx_em r)"
proof (cases "idle r p")
  case True
  then show ?thesis using that [of r s] o by simp
next
  case False
  then obtain x xs ys where ops: "rx_ops r = xs @ (p, x) # ys" by (auto simp: idle_def dest: split_list)
  show ?thesis
  proof (cases x)
    case (StoreCoro k h)
    let ?r = "r\<lparr>rx_socks := (rx_socks r)(p \<mapsto> SetCoro k h s), rx_ops := xs @ (p, AddEvent k) # ys\<rparr>"
    have 1: "rx_step True ctl kclose r ?r"
      by (rule rx_step.add_store [OF ops [unfolded StoreCoro]]) (use o(1) in \<open>simp add: open_at_def\<close>)
    have o': "open_at ?r p (SetCoro k h s)" "Attached (SetCoro k h s)" using o by (simp_all add: open_at_def Attached_def)
    obtain r' s' where 2: "rx_step True ctl kclose ?r r'" and r': "open_at r' p s'" "Attached s'" "idle r' p"
      "\<forall>q. q \<noteq> p \<longrightarrow> rx_socks r' q = rx_socks ?r q" "is_shutdown (rx_em r') = is_shutdown (rx_em ?r)"
      by (rule finish_event [OF rx_step_inv [OF 1 TrueI inv] o', of xs "AddEvent k" ys k]) simp_all
    have "(rx_step True ctl kclose)\<^sup>*\<^sup>* r r'" using 1 2 by (meson converse_rtranclp_into_rtranclp r_into_rtranclp)
    then show ?thesis using that r' by simp
  qed (use finish_event [OF inv o ops] that in \<open>metis r_into_rtranclp\<close>)+
qed

lemma stale_destroy_idle:
  assumes inv: "rx_inv ctl kclose interest r"
    and "open_at r p s" "Attached s" "rx_socks r q = None" "\<not> is_shutdown (rx_em r)" "idle r p"
  shows "\<exists>r1 s' t r2. (rx_step True ctl kclose)\<^sup>*\<^sup>* r r1 \<and> rx_socks r1 p = Some s' \<and> open_at r1 q t \<and> Attached t \<and>
    rx_destroy ctl kclose p s' r1 = Inr r2 \<and> open_at r2 q t \<and> interest (epfd (rx_em r2)) (sock_fd t) = None \<and>
    AddRecv ctl h (t, rx_em r2) = Inl Fatal"
proof -
  let ?ra = "rx_close kclose p s r" and ?s' = "s\<lparr>sock_is_closed := True\<rparr>"
  have fd: "0 \<le> sock_fd s" using rx_invD(2) [OF inv assms(2)] by (simp add: sock_ok_def)
  have pq: "p \<noteq> q" using assms(2,4) by (auto simp: open_at_def)
  have a: "rx_step True ctl kclose r ?ra" by (rule rx_step.closed [OF assms(2)]) (use assms(6) in simp)
  note f = close_frees [OF inv assms(2)]
  obtain r1 t where r1: "(rx_step True ctl kclose)\<^sup>*\<^sup>* ?ra r1" "open_at r1 q t" "\<not> detached t" "sock_fd t = sock_fd s"
    "\<not> is_shutdown (rx_em r1)" "\<forall>p. p \<noteq> q \<longrightarrow> rx_socks r1 p = rx_socks ?ra p"
    by (rule accept_and_wait [OF rx_step_inv [OF a TrueI inv] _ fd f(3), where q = q]) (use f(1,2) pq assms(4,5) in auto)
  have steps: "(rx_step True ctl kclose)\<^sup>*\<^sup>* r r1"
    by (rule converse_rtranclp_into_rtranclp [where r = "rx_step True ctl kclose", OF a r1(1)])
  have inv1: "rx_inv ctl kclose interest r1" by (rule rx_sys.inv_steps [OF steps inv])
  then have "interest (epfd (rx_em r1)) (sock_fd s) \<noteq> None"
    using rx_invD(2) [OF inv1 r1(2)] r1(3,4) by (simp add: sock_ok_def em_agrees_def)
  then obtain em where em: "rx_destroy ctl kclose p ?s' r1 = Inr (r1\<lparr>rx_socks := (rx_socks r1)(p := None), rx_em := em\<rparr>)"
    "interest (epfd em) (sock_fd s) = None" "is_shutdown em = is_shutdown (rx_em r1)"
    using stale_destroy [OF rx_invD(1) [OF inv], of ?s' r1 p] assms(3) fd by (auto simp: Attached_def)
  have "AddRecv ctl h (t, em) = Inl Fatal"
    by (rule AddRecv_unregistered [OF rx_invD(1) [OF inv]]) (use em(2,3) r1(3-5) in simp_all)
  then show ?thesis using steps r1 em(1,2) f(1) pq
    by (intro exI [of _ r1] exI [of _ ?s'] exI [of _ t] exI conjI) (auto simp: open_at_def Attached_def)
qed

text \<open>
  Claim C32. Descriptor reuse: the destructor of a connection that its timer has closed
  deregisters by descriptor number. Whenever a connection is registered with the event manager,
  there is an orderly run in which an operation in progress on it ends, it is closed, a new
  connection gets its descriptor and registers, and then the old object is destroyed: the new
  connection is taken out of the interest list while its socket says it is attached, gets no more
  events, and its next wait ends the process.
\<close>

theorem stale_destroy_cuts_new_connection:
  assumes "rx_init ctl kclose interest r0" "(rx_step True ctl kclose)\<^sup>*\<^sup>* r0 r"
    and "open_at r p s" "Attached s" "rx_socks r q = None" "\<not> is_shutdown (rx_em r)"
  shows "\<exists>r1 s' t r2. (rx_step True ctl kclose)\<^sup>*\<^sup>* r r1 \<and> rx_socks r1 p = Some s' \<and> open_at r1 q t \<and> Attached t \<and>
    rx_destroy ctl kclose p s' r1 = Inr r2 \<and> open_at r2 q t \<and> interest (epfd (rx_em r2)) (sock_fd t) = None \<and>
    AddRecv ctl h (t, rx_em r2) = Inl Fatal"
proof -
  have inv: "rx_inv ctl kclose interest r" by (rule rx_sys.inv_reachable [OF assms(1,2)])
  obtain r' s' where r': "(rx_step True ctl kclose)\<^sup>*\<^sup>* r r'" "open_at r' p s'" "Attached s'" "idle r' p"
    "\<forall>q. q \<noteq> p \<longrightarrow> rx_socks r' q = rx_socks r q" "is_shutdown (rx_em r') = is_shutdown (rx_em r)"
    by (rule finish_io [OF inv assms(3,4)])
  have "q \<noteq> p" using assms(3,5) by (auto simp: open_at_def)
  then have "rx_socks r' q = None" "\<not> is_shutdown (rx_em r')" using r'(5,6) assms(5,6) by simp_all
  from stale_destroy_idle [OF rx_sys.inv_steps [OF r'(1) inv] r'(2,3) this r'(4), of h]
  show ?thesis using rtranclp_trans [where r = "rx_step True ctl kclose", OF r'(1)] by meson
qed

theorem stale_destroy_cuts_new_connection_witness:
  "\<exists>r1 s' t r2. (rx_step True map_ctl map_close)\<^sup>*\<^sup>* example_reactor r1 \<and> rx_socks r1 3 = Some s' \<and> open_at r1 4 t \<and>
    rx_destroy map_ctl map_close 3 s' r1 = Inr r2 \<and> open_at r2 4 t \<and> id (epfd (rx_em r2)) (sock_fd t) = None"
proof -
  let ?s = "(new_socket 5)\<lparr>io_state := EPOLLIN OR EPOLLET, detached := False, recv_coro := Some (7 :: nat)\<rparr>"
  have "open_at example_reactor 3 ?s" "Attached ?s" "rx_socks example_reactor 4 = None" "\<not> is_shutdown (rx_em example_reactor)"
    by (simp_all add: open_at_def example_reactor_def Attached_def new_socket_def new_event_manager_def)
  from stale_destroy_cuts_new_connection [OF map_rx_init example_reactor_reached this] show ?thesis by blast
qed

end
