(* ===== verification/Echo_Server.thy ===== *)
theory Echo_Server
  imports Io_Awaiter
begin

text \<open>
  The example application \<open>example/echo_server.cpp\<close>, on the awaitable calls of
  \<open>Io_Awaiter\<close>: its request handler reads up to 512 bytes at a time and writes them back
  until a read brings nothing. \<open>AsyncRead\<close> answers 0 for the end of the stream and for an
  error, so the handler's branch for negative results is never taken. The state is the
  traces of the socket calls, the bytes on the wire and the connection; the handler
  terminates because every round but the last uses up results of \<open>read\<close>.
\<close>

record ('h, 'k) echo_conn =
  e_reads :: "bytes sys list"
  e_writes :: "nat sys list"
  e_wire :: bytes
  e_conn :: "('h, 'k) tcp_connection"

definition ECHO_BUFFER :: nat where "ECHO_BUFFER = 512"

text \<open>One round of the loop; the flag tells whether the loop goes on.\<close>

definition echo_round :: "'k ctl \<Rightarrow> 'h \<Rightarrow> ('h, 'k) echo_conn \<Rightarrow> net_stop + bool \<times> ('h, 'k) echo_conn" where
  "echo_round ctl h st =
     try_bind (AsyncRead ctl h (replicate ECHO_BUFFER 0) (e_reads st, e_conn st)) (\<lambda>((buffer, recv_len), tr, c).
     let st1 = st\<lparr>e_reads := tr, e_conn := c\<rparr> in
     if recv_len = 0 then Inr (False, st1)
     else try_bind (AsyncWrite ctl h buffer (e_writes st1, e_wire st1, e_conn st1)) (\<lambda>(_, wtr, sent, c').
       Inr (True, st1\<lparr>e_writes := wtr, e_wire := sent, e_conn := c'\<rparr>)))"

lemma AsyncRead_uses_trace:
  "AsyncRead ctl h buf io = Inr ((bs, n), tr', c') \<Longrightarrow> n \<noteq> 0 \<Longrightarrow> length tr' < length (fst io)"
proof (induction ctl h buf io rule: AsyncRead.induct)
  case (1 ctl h buf io)
  obtain r tr1 c1 where r: "ReadInnerAwaiter ctl h io = Inr (r, tr1, c1)"
    using 1(2) by (subst (asm) AsyncRead.simps) (auto simp: try_bind_eq_Inr)
  show ?case
  proof (cases r)
    case (Ret x)
    then have "x \<noteq> []" using 1(2,3) r by (subst (asm) AsyncRead.simps) auto
    moreover have "tr1 = tr'" using 1(2) r Ret by (subst (asm) AsyncRead.simps) auto
    ultimately show ?thesis using ReadInnerAwaiter_less [of ctl h "fst io" "snd io"] r Ret by simp
  next
    case (Err e)
    then have "retry e" "AsyncRead ctl h buf (tr1, c1) = Inr ((bs, n), tr', c')"
      using 1(2,3) r by (subst (asm) AsyncRead.simps; simp split: if_splits)+
    then have "length tr' < length tr1" using 1(1) [OF r [unfolded Err] refl] r Err 1(3) by auto
    moreover have "length tr1 < length (fst io)"
      using ReadInnerAwaiter_less [of ctl h "fst io" "snd io"] r Err by simp
    ultimately show ?thesis by simp
  qed
qed

lemma echo_round_uses_trace:
  "echo_round ctl h st = Inr (True, st') \<Longrightarrow> length (e_reads st') < length (e_reads st)"
  by (auto simp: echo_round_def try_bind_eq_Inr Let_def dest: AsyncRead_uses_trace split: if_splits)

function echo_OnRequest :: "'k ctl \<Rightarrow> 'h \<Rightarrow> ('h, 'k) echo_conn \<Rightarrow> net_stop + ('h, 'k) echo_conn" where
  "echo_OnRequest ctl h st =
     try_bind (echo_round ctl h st) (\<lambda>(go_on, st'). if go_on then echo_OnRequest ctl h st' else Inr st')"
  by pat_completeness auto
termination
  by (relation "measure (\<lambda>(_, _, st). length (e_reads st))") (auto dest: echo_round_uses_trace)

declare echo_OnRequest.simps [simp del]

section \<open>Echoing\<close>

text \<open>Reads that bring the given pieces, one per call after any number of waits, and writes
  that take them in any portions.\<close>

fun reads_pieces :: "bytes list \<Rightarrow> bytes sys list \<Rightarrow> bytes sys list \<Rightarrow> bool" where
  "reads_pieces [] tr rest \<longleftrightarrow> tr = rest"
| "reads_pieces (p # ps) tr rest \<longleftrightarrow> (\<exists>t tr'. tr = t @ tr' \<and> fair t \<and> oks t = [p] \<and> length p \<le> ECHO_BUFFER \<and> reads_pieces ps tr' rest)"

fun takes_pieces :: "bytes list \<Rightarrow> nat sys list \<Rightarrow> nat sys list \<Rightarrow> bool" where
  "takes_pieces [] tr rest \<longleftrightarrow> tr = rest"
| "takes_pieces (p # ps) tr rest \<longleftrightarrow> (\<exists>t tr'. tr = t @ tr' \<and> fair t \<and> 0 \<notin> set (oks t) \<and> sum_list (oks t) = length p \<and> takes_pieces ps tr' rest)"

lemma reads_pieces_Cons:
  "fair t \<Longrightarrow> oks t = [p] \<Longrightarrow> length p \<le> ECHO_BUFFER \<Longrightarrow> reads_pieces ps tr rest \<Longrightarrow> reads_pieces (p # ps) (t @ tr) rest"
  by auto

lemma takes_pieces_Cons:
  "fair t \<Longrightarrow> 0 \<notin> set (oks t) \<Longrightarrow> sum_list (oks t) = length p \<Longrightarrow> takes_pieces ps tr rest \<Longrightarrow> takes_pieces (p # ps) (t @ tr) rest"
  by auto

lemma echo_read:
  assumes "conn_inv ctl kclose interest (e_conn st)" "e_reads st = t @ tr" "fair t" "oks t = [p]"
  obtains c where "AsyncRead ctl h (replicate ECHO_BUFFER 0) (e_reads st, e_conn st) = Inr ((p, length p), tr, c)"
    "conn_inv ctl kclose interest c"
  using AsyncRead_fair [OF assms(1,3,4), of h "replicate ECHO_BUFFER 0" tr] assms(2) by auto

lemma echo_round_end:
  assumes "conn_inv ctl kclose interest (e_conn st)" "e_reads st = t @ tr" "fair t" "oks t = [[]]"
  obtains c where "echo_round ctl h st = Inr (False, st\<lparr>e_reads := tr, e_conn := c\<rparr>)" "conn_inv ctl kclose interest c"
proof -
  obtain c where "AsyncRead ctl h (replicate ECHO_BUFFER 0) (e_reads st, e_conn st) = Inr (([], length ([] :: bytes)), tr, c)"
    "conn_inv ctl kclose interest c" by (rule echo_read [OF assms])
  then show ?thesis by (intro that [of c]) (simp_all add: echo_round_def)
qed

lemma echo_round_piece:
  assumes "conn_inv ctl kclose interest (e_conn st)" "e_reads st = t @ tr" "fair t" "oks t = [p]" "p \<noteq> []"
    and "e_writes st = w @ wtr" "fair w" "0 \<notin> set (oks w)" "sum_list (oks w) = length p"
  obtains c where "echo_round ctl h st =
      Inr (True, st\<lparr>e_reads := tr, e_writes := wtr, e_wire := e_wire st @ p, e_conn := c\<rparr>)" "conn_inv ctl kclose interest c"
proof -
  obtain c where c: "AsyncRead ctl h (replicate ECHO_BUFFER 0) (e_reads st, e_conn st) = Inr ((p, length p), tr, c)"
    "conn_inv ctl kclose interest c" by (rule echo_read [OF assms(1-4)])
  obtain c' where c': "AsyncWrite ctl h p (w @ wtr, e_wire st, c) = Inr (length p, wtr, e_wire st @ p, c')"
    "conn_inv ctl kclose interest c'"
    using AsyncWrite_loop_fair [OF c(2) assms(7-9), of p 0 h wtr "e_wire st"] by (auto simp: AsyncWrite_def)
  show ?thesis by (rule that [OF _ c'(2)]) (use c(1) c'(1) assms(5,6) in \<open>simp add: echo_round_def Let_def\<close>)
qed

lemma echo_pieces:
  assumes "conn_inv ctl kclose interest (e_conn st)" "[] \<notin> set ps"
    and "reads_pieces (ps @ [[]]) (e_reads st) rest" "takes_pieces ps (e_writes st) wrest"
  shows "\<exists>c. echo_OnRequest ctl h st =
      Inr (st\<lparr>e_reads := rest, e_writes := wrest, e_wire := e_wire st @ concat ps, e_conn := c\<rparr>) \<and> conn_inv ctl kclose interest c"
  using assms
proof (induction ps arbitrary: st)
  case Nil
  then obtain t where t: "e_reads st = t @ rest" "fair t" "oks t = [[]]" by auto
  obtain c where "echo_round ctl h st = Inr (False, st\<lparr>e_reads := rest, e_conn := c\<rparr>)" "conn_inv ctl kclose interest c"
    by (rule echo_round_end [OF Nil(1) t])
  then show ?case using Nil.prems(4) by (intro exI [of _ c]) (simp add: echo_OnRequest.simps [of _ _ st])
next
  case (Cons p ps)
  obtain t tr where t: "e_reads st = t @ tr" "fair t" "oks t = [p]" "reads_pieces (ps @ [[]]) tr rest"
    using Cons.prems(3) by auto
  obtain w wtr where w: "e_writes st = w @ wtr" "fair w" "0 \<notin> set (oks w)" "sum_list (oks w) = length p" "takes_pieces ps wtr wrest"
    using Cons.prems(4) by auto
  have "p \<noteq> []" using Cons.prems(2) by auto
  obtain c where c: "echo_round ctl h st =
      Inr (True, st\<lparr>e_reads := tr, e_writes := wtr, e_wire := e_wire st @ p, e_conn := c\<rparr>)" "conn_inv ctl kclose interest c"
    by (rule echo_round_piece [OF Cons.prems(1) t(1-3) \<open>p \<noteq> []\<close> w(1-4)])
  let ?st = "st\<lparr>e_reads := tr, e_writes := wtr, e_wire := e_wire st @ p, e_conn := c\<rparr>"
  obtain c' where "echo_OnRequest ctl h ?st =
      Inr (?st\<lparr>e_reads := rest, e_writes := wrest, e_wire := e_wire ?st @ concat ps, e_conn := c'\<rparr>)" "conn_inv ctl kclose interest c'"
    using Cons.IH [of ?st] Cons.prems(2) t(4) w(5) c(2) by auto
  then show ?case using c(1) by (intro exI [of _ c']) (simp add: echo_OnRequest.simps [of _ _ st])
qed

definition example_echo :: "(unit, int \<rightharpoonup> u32) echo_conn" where
  "example_echo = \<lparr>e_reads = [Err EAGAIN, Ret [1, 2, 3], Ret [4], Ret []], e_writes = [Ret 2, Err EAGAIN, Ret 1, Ret 1],
     e_wire = [], e_conn = example_conn\<rparr>"

text \<open>
  Claim C31. The echo server echoes: whatever the client sends, in pieces of at most 512
  bytes with any waits between them, comes back on the wire unchanged and in order over any
  short writes, and at the end of the stream the handler returns.
\<close>

theorem echo_server_echoes:
  assumes "conn_inv ctl kclose interest (e_conn st)" "[] \<notin> set ps"
    and "reads_pieces (ps @ [[]]) (e_reads st) rest" "takes_pieces ps (e_writes st) wrest"
  shows "\<exists>st'. echo_OnRequest ctl h st = Inr st' \<and> e_wire st' = e_wire st @ concat ps \<and>
    e_reads st' = rest \<and> e_writes st' = wrest \<and> conn_inv ctl kclose interest (e_conn st')"
  using echo_pieces [OF assms, of h] by auto

theorem echo_server_echoes_witness:
  "\<exists>st'. echo_OnRequest map_ctl () example_echo = Inr st' \<and> e_wire st' = [1, 2, 3, 4]"
proof -
  have "reads_pieces ([[1, 2, 3], [4]] @ [[]]) ([Err EAGAIN, Ret [1, 2, 3]] @ [Ret [4]] @ [Ret []] @ []) []"
    unfolding append.simps(2)[of _ "[[4]]"] append.simps(2)[of _ "[]" "[[]]"] append.simps(1)[of "[[]]"]
    by (intro reads_pieces_Cons) (simp_all add: ECHO_BUFFER_def retry_def)
  moreover have "takes_pieces [[1, 2, 3], [4]] ([Ret 2, Err EAGAIN, Ret 1] @ [Ret 1] @ []) []"
    by (intro takes_pieces_Cons) (simp_all add: retry_def)
  ultimately show ?thesis
    using echo_server_echoes [of map_ctl map_close id example_echo "[[1, 2, 3], [4]]" "[]" "[]" "()"] example_conn_inv
    by (auto simp: example_echo_def)
qed

end
