(* ===== verification/Blocking_Queue.thy ===== *)
theory Blocking_Queue
  imports Luce_Prelude
begin

text \<open>
  The queue shared by threads and the latch: \<open>luce/common/blocking_queue.h\<close> and
  \<open>luce/common/count_down_latch.h\<close>.

  Every operation runs under the mutex of its object and is one atomic transition. A call
  that waits on the condition variable with a false predicate does not return: the result
  \<open>None\<close>. For the \<open>try_\<close> operations the argument \<open>locked\<close> tells whether \<open>try_to_lock\<close> got the
  mutex.
\<close>

section \<open>The queue\<close>

record 'a blocking_queue =
  bq_queue :: "'a list"
  bq_stop :: bool

definition new_queue :: "'a blocking_queue" where
  "new_queue = \<lparr>bq_queue = [], bq_stop = False\<rparr>"

definition bq_push :: "'a \<Rightarrow> 'a blocking_queue \<Rightarrow> 'a blocking_queue" where
  "bq_push v q = q\<lparr>bq_queue := bq_queue q @ [v]\<rparr>"

definition bq_try_push :: "bool \<Rightarrow> 'a \<Rightarrow> 'a blocking_queue \<Rightarrow> bool \<times> 'a blocking_queue" where
  "bq_try_push locked v q = (if \<not> locked then (False, q) else (True, bq_push v q))"

definition bq_pop :: "'a blocking_queue \<Rightarrow> ('a option \<times> 'a blocking_queue) option" where
  "bq_pop q =
     (if \<not> (bq_queue q \<noteq> [] \<or> bq_stop q) then None
      else case bq_queue q of
        [] \<Rightarrow> Some (None, q)
      | x # xs \<Rightarrow> Some (Some x, q\<lparr>bq_queue := xs\<rparr>))"

definition bq_try_pop_if :: "bool \<Rightarrow> ('a \<Rightarrow> bool) option \<Rightarrow> 'a blocking_queue \<Rightarrow> 'a option \<times> 'a blocking_queue" where
  "bq_try_pop_if locked predict q =
     (if \<not> locked then (None, q)
      else case bq_queue q of
        [] \<Rightarrow> (None, q)
      | x # xs \<Rightarrow>
          (case predict of
             Some p \<Rightarrow> if \<not> p x then (None, q) else (Some x, q\<lparr>bq_queue := xs\<rparr>)
           | None \<Rightarrow> (Some x, q\<lparr>bq_queue := xs\<rparr>)))"

definition bq_size :: "'a blocking_queue \<Rightarrow> nat" where
  "bq_size q = length (bq_queue q)"

definition bq_empty :: "'a blocking_queue \<Rightarrow> bool" where
  "bq_empty q \<longleftrightarrow> bq_queue q = []"

definition bq_set_stop :: "'a blocking_queue \<Rightarrow> 'a blocking_queue" where
  "bq_set_stop q = q\<lparr>bq_stop := True\<rparr>"

lemmas bq_defs = bq_push_def bq_try_push_def bq_pop_def bq_try_pop_if_def bq_size_def bq_empty_def bq_set_stop_def

section \<open>First in, first out\<close>

text \<open>
  The contract of a queue whose consumers wait: elements are taken in the order in which
  they were put in, and a consumer is told to give up only when the queue is closed and
  empty. The non-blocking calls carry the outcome of \<open>try_to_lock\<close>; \<open>TryTake\<close> also the
  predicate on the front element, where the caller gave one. A non-blocking call that fails
  leaves the content alone. The client's lemma is about any interleaving of producers and
  consumers.
\<close>

datatype 'a queue_call =
  Put 'a | TryPut bool 'a | Take | TryTake bool "('a \<Rightarrow> bool) option" | CloseQueue

locale fifo_queue =
  fixes content :: "'q \<Rightarrow> 'a list"
    and closed :: "'q \<Rightarrow> bool"
    and put :: "'a \<Rightarrow> 'q \<Rightarrow> 'q"
    and take_front :: "'q \<Rightarrow> ('a option \<times> 'q) option"
    and close_queue :: "'q \<Rightarrow> 'q"
    and try_put :: "bool \<Rightarrow> 'a \<Rightarrow> 'q \<Rightarrow> bool \<times> 'q"
    and try_take :: "bool \<Rightarrow> ('a \<Rightarrow> bool) option \<Rightarrow> 'q \<Rightarrow> 'a option \<times> 'q"
  assumes put_law: "content (put x q) = content q @ [x]" "closed (put x q) = closed q"
    and close_law: "content (close_queue q) = content q" "closed (close_queue q)"
    and take_blocks: "take_front q = None \<longleftrightarrow> content q = [] \<and> \<not> closed q"
    and take_some: "take_front q = Some (Some x, q') \<Longrightarrow> content q = x # content q' \<and> closed q' = closed q"
    and take_none: "take_front q = Some (None, q') \<Longrightarrow> content q = [] \<and> closed q \<and> q' = q"
    and try_put_law: "try_put l x q = (b, q') \<Longrightarrow>
      content q' = (if b then content q @ [x] else content q) \<and> closed q' = closed q"
    and try_take_some: "try_take l p q = (Some x, q') \<Longrightarrow> content q = x # content q' \<and> closed q' = closed q"
    and try_take_none: "try_take l p q = (None, q') \<Longrightarrow> content q' = content q \<and> closed q' = closed q"
begin

text \<open>A call that blocks leaves the queue alone and is tried again later.\<close>

definition one_queue_call :: "'a queue_call \<Rightarrow> 'q \<times> 'a list \<times> 'a list \<Rightarrow> 'q \<times> 'a list \<times> 'a list" where
  "one_queue_call c = (\<lambda>(q, ins, outs). case c of
     Put x \<Rightarrow> (put x q, ins @ [x], outs)
   | TryPut l x \<Rightarrow> (case try_put l x q of (b, q') \<Rightarrow> (q', if b then ins @ [x] else ins, outs))
   | Take \<Rightarrow> (case take_front q of Some (Some x, q') \<Rightarrow> (q', ins, outs @ [x]) | _ \<Rightarrow> (q, ins, outs))
   | TryTake l p \<Rightarrow> (case try_take l p q of (Some x, q') \<Rightarrow> (q', ins, outs @ [x]) | (None, q') \<Rightarrow> (q', ins, outs))
   | CloseQueue \<Rightarrow> (close_queue q, ins, outs))"

lemma one_queue_call_order:
  assumes "ins = outs @ content q" "one_queue_call c (q, ins, outs) = (q', ins', outs')"
  shows "ins' = outs' @ content q'"
  using assms by (auto simp: one_queue_call_def put_law close_law
      dest: take_some try_put_law try_take_some try_take_none
      split: queue_call.splits option.splits prod.splits if_splits)

lemma queue_order:
  assumes "ins = outs @ content q" "fold one_queue_call cs (q, ins, outs) = (q', ins', outs')"
  shows "ins' = outs' @ content q'"
  using assms
proof (induction cs arbitrary: q ins outs)
  case (Cons c cs)
  obtain q1 ins1 outs1 where 1: "one_queue_call c (q, ins, outs) = (q1, ins1, outs1)" by (metis prod_cases3)
  then show ?case using Cons.IH [of ins1 outs1 q1] one_queue_call_order [OF Cons.prems(1) 1] Cons.prems(2) by simp
qed simp

end

interpretation bq: fifo_queue bq_queue bq_stop bq_push bq_pop bq_set_stop bq_try_push bq_try_pop_if
  by unfold_locales (auto simp: bq_defs split: list.splits if_splits option.splits)

section \<open>The latch\<close>

record latch =
  latch_count :: "32 word"
  latch_waiters :: nat

text \<open>\<open>latch_waiters\<close> counts the threads blocked in \<open>Wait\<close>; \<open>notify_one\<close> wakes one of them,
  which leaves when the count is not positive any more.\<close>

definition new_latch :: "32 word \<Rightarrow> latch" where
  "new_latch n = \<lparr>latch_count = n, latch_waiters = 0\<rparr>"

definition latch_Wait :: "latch \<Rightarrow> bool \<times> latch" where
  "latch_Wait l = (if 0 < sint (latch_count l) then (False, l\<lparr>latch_waiters := latch_waiters l + 1\<rparr>) else (True, l))"

definition latch_CountDown :: "latch \<Rightarrow> latch" where
  "latch_CountDown l =
     (let l' = l\<lparr>latch_count := latch_count l - 1\<rparr> in
      if latch_count l' = 0 then l'\<lparr>latch_waiters := latch_waiters l' - 1\<rparr> else l')"

definition GetCount :: "latch \<Rightarrow> int" where
  "GetCount l = sint (latch_count l)"

section \<open>Properties\<close>

text \<open>The calls of all threads in the order in which they get the mutex, with the lists of
  elements put in and taken out.\<close>

definition queue_call :: "'a queue_call \<Rightarrow> 'a blocking_queue \<times> 'a list \<times> 'a list \<Rightarrow> 'a blocking_queue \<times> 'a list \<times> 'a list" where
  "queue_call c = (\<lambda>(q, ins, outs). case c of
     Put x \<Rightarrow> (bq_push x q, ins @ [x], outs)
   | TryPut l x \<Rightarrow> (case bq_try_push l x q of (b, q') \<Rightarrow> (q', if b then ins @ [x] else ins, outs))
   | Take \<Rightarrow> (case bq_pop q of Some (Some x, q') \<Rightarrow> (q', ins, outs @ [x]) | _ \<Rightarrow> (q, ins, outs))
   | TryTake l p \<Rightarrow> (case bq_try_pop_if l p q of (Some x, q') \<Rightarrow> (q', ins, outs @ [x]) | (None, q') \<Rightarrow> (q', ins, outs))
   | CloseQueue \<Rightarrow> (bq_set_stop q, ins, outs))"

lemma queue_call_bq: "queue_call = bq.one_queue_call"
  by (simp add: fun_eq_iff queue_call_def bq.one_queue_call_def)

lemma latch_CountDowns:
  "k < 2 ^ 31 \<Longrightarrow> k \<noteq> 0 \<Longrightarrow> latch_count l = of_nat k \<Longrightarrow>
    (latch_CountDown ^^ k) l = l\<lparr>latch_count := 0, latch_waiters := latch_waiters l - 1\<rparr>"
proof (induction k arbitrary: l)
  case (Suc k)
  then have c: "latch_count l - 1 = of_nat k" by simp
  show ?case
  proof (cases "k = 0")
    case True
    then show ?thesis using c by (simp add: latch_CountDown_def)
  next
    case False
    have "unat (of_nat k :: 32 word) = k" using Suc.prems(1) by (simp add: unat_of_nat)
    then have "(of_nat k :: 32 word) \<noteq> 0" using False by auto
    then have "latch_CountDown l = l\<lparr>latch_count := of_nat k\<rparr>" using c by (simp add: latch_CountDown_def)
    then show ?thesis using Suc.IH [of "l\<lparr>latch_count := of_nat k\<rparr>"] Suc.prems(1) False
      by (simp add: funpow_swap1)
  qed
qed simp

text \<open>
  Claim C20. In any interleaving of \<open>push\<close>, \<open>try_push\<close>, \<open>pop\<close>, \<open>try_pop_if\<close> (with any outcome of
  \<open>try_to_lock\<close> and any predicate) and \<open>stop\<close>, the elements taken out of the queue followed by the
  elements still in it are the elements put in, in order: no element is lost, duplicated or
  overtaken. A \<open>pop\<close> gives up only on a stopped and empty queue and blocks only on an empty queue
  that is not stopped; a \<open>try_pop_if\<close> hands out the oldest element exactly when it got the mutex
  and the predicate, if any, holds of that element.
\<close>

theorem blocking_queue_fifo:
  assumes "fold queue_call cs (new_queue, [], []) = (q, ins, outs)"
  shows "ins = outs @ bq_queue q \<and>
    (bq_pop q = None \<longleftrightarrow> ins = outs \<and> \<not> bq_stop q) \<and>
    (bq_pop q = Some (None, q) \<longleftrightarrow> ins = outs \<and> bq_stop q) \<and>
    (\<forall>l p x. fst (bq_try_pop_if l p q) = Some x \<longleftrightarrow>
      l \<and> (case p of None \<Rightarrow> True | Some f \<Rightarrow> f x) \<and> (\<exists>rest. ins = outs @ x # rest))"
proof -
  have "ins = outs @ bq_queue q"
    using bq.queue_order [of "[]" "[]" new_queue cs q ins outs] assms
    by (simp add: queue_call_bq new_queue_def)
  then show ?thesis by (auto simp: bq_pop_def bq_try_pop_if_def split: list.splits option.splits)
qed

theorem blocking_queue_fifo_witness:
  "fold queue_call [Put 1, TryPut False 7, TryPut True 2, TryTake True (Some (\<lambda>x. x = 2)), Take, Put 3, TryTake True None, CloseQueue]
      (new_queue, [], []) = (\<lparr>bq_queue = [3], bq_stop = True\<rparr>, [1, 2, 3 :: nat], [1, 2]) \<and>
   [1, 2, 3] = [1, 2] @ bq_queue \<lparr>bq_queue = [3 :: nat], bq_stop = True\<rparr>"
  using blocking_queue_fifo [of "[Put 1, TryPut False 7, TryPut True 2, TryTake True (Some (\<lambda>x. x = 2)), Take, Put 3, TryTake True None, CloseQueue]"
      "\<lparr>bq_queue = [3], bq_stop = True\<rparr>" "[1, 2, 3 :: nat]" "[1, 2]"]
  by (simp add: queue_call_def new_queue_def bq_defs)

text \<open>
  A latch counted down to zero wakes a single waiter: with several threads in
  \<open>Wait\<close>, all but one stay blocked although the count is zero.
\<close>

theorem latch_strands_waiters:
  assumes "0 < k" "k < 2 ^ 31"
  shows "(latch_CountDown ^^ k) (((\<lambda>l. snd (latch_Wait l)) ^^ w) (new_latch (of_nat k))) =
    \<lparr>latch_count = 0, latch_waiters = w - 1\<rparr>"
proof -
  have "((\<lambda>l. snd (latch_Wait l)) ^^ w) (new_latch (of_nat k)) = \<lparr>latch_count = of_nat k, latch_waiters = w\<rparr>"
    using assms by (induction w) (simp_all add: new_latch_def latch_Wait_def sint_of_nat_u31)
  then show ?thesis using latch_CountDowns [of k] assms by simp
qed

theorem latch_strands_waiters_witness:
  "(latch_CountDown ^^ 3) (((\<lambda>l. snd (latch_Wait l)) ^^ 2) (new_latch (of_nat 3))) = \<lparr>latch_count = 0, latch_waiters = 2 - 1\<rparr>"
  by (rule latch_strands_waiters) simp_all

end
