(* ===== verification/Queue_Pools.thy ===== *)
theory Queue_Pools
  imports Blocking_Queue "HOL-Library.Multiset"
begin

text \<open>
  The two pools with one blocking queue per worker:
  \<open>luce/common/blocking_queue_thread_pool.h\<close> and \<open>luce/co/co_thread_pool.{h,cpp}\<close>.

  Random choices (\<open>rand()\<close>), the number of processors and the outcomes of \<open>try_to_lock\<close> are
  arguments. A failed assertion, a division by zero and a queue index out of range are
  errors.
\<close>

datatype pool_error = AssertFailed | DivByZero | QueueRange

section \<open>The function pool\<close>

record 't bq_pool =
  bqp_queues :: "'t blocking_queue list"
  bqp_thread_num :: nat
  bqp_stop :: bool

definition new_bq_pool :: "nat \<Rightarrow> 't bq_pool" where
  "new_bq_pool n = \<lparr>bqp_queues = replicate n new_queue, bqp_thread_num = n, bqp_stop = False\<rparr>"

definition push_at :: "nat \<Rightarrow> 'a \<Rightarrow> 'a blocking_queue list \<Rightarrow> pool_error + 'a blocking_queue list" where
  "push_at i x qs = (if i < length qs then Inr (qs[i := bq_push x (qs ! i)]) else Inl QueueRange)"

definition TaskNum :: "'t bq_pool \<Rightarrow> nat" where
  "TaskNum p = (\<Sum>i\<leftarrow>[0..<bqp_thread_num p]. bq_size (bqp_queues p ! i))"

definition bqp_Commit :: "nat \<Rightarrow> 't \<Rightarrow> 't bq_pool \<Rightarrow> pool_error + 't bq_pool" where
  "bqp_Commit rand task p =
     (if bqp_thread_num p = 0 then Inl DivByZero
      else try_bind (push_at (rand mod bqp_thread_num p) task (bqp_queues p)) (\<lambda>qs. Inr (p\<lparr>bqp_queues := qs\<rparr>)))"

text \<open>The parameter \<open>id\<close> is a \<open>size_t\<close>, so the test \<open>id < 0\<close> never holds.\<close>

definition CommitById :: "nat \<Rightarrow> 't option \<Rightarrow> u64 \<Rightarrow> 't bq_pool \<Rightarrow> pool_error + bool \<times> 't bq_pool" where
  "CommitById rand func tid p = (case func of
     None \<Rightarrow> Inr (False, p)
   | Some f \<Rightarrow>
       if bqp_stop p then Inr (False, p)
       else if \<not> unat tid < bqp_thread_num p then Inl AssertFailed
       else try_bind (push_at (unat tid) f (bqp_queues p)) (\<lambda>qs. Inr (True, p\<lparr>bqp_queues := qs\<rparr>)))"

definition bqp_Shutdown :: "'t bq_pool \<Rightarrow> 't bq_pool" where
  "bqp_Shutdown p = p\<lparr>bqp_stop := True, bqp_queues := map bq_set_stop (bqp_queues p)\<rparr>"

text \<open>The destructor.\<close>

definition destroy_bq_pool :: "'t bq_pool \<Rightarrow> 't bq_pool" where
  "destroy_bq_pool p = (if \<not> bqp_stop p then bqp_Shutdown p else p)"

datatype 't round = RunTask 't | GoOn | LeaveLoop

definition bqp_worker :: "nat \<Rightarrow> 't bq_pool \<Rightarrow> ('t round \<times> 't bq_pool) option" where
  "bqp_worker i p = (case bq_pop (bqp_queues p ! i) of
     None \<Rightarrow> None
   | Some (None, q) \<Rightarrow> Some (if bqp_stop p then LeaveLoop else GoOn, p)
   | Some (Some t, q) \<Rightarrow> Some (RunTask t, p\<lparr>bqp_queues := (bqp_queues p)[i := q]\<rparr>))"

section \<open>The coroutine pool\<close>

record 'h task_item =
  handle :: 'h
  can_steal :: bool

record 'h co_pool =
  co_queues :: "'h task_item blocking_queue list"
  co_thread_num :: nat
  co_stopped :: bool
  enable_work_steal :: bool

text \<open>The vector of queues has the size of the argument, the loop bound \<open>thread_num_\<close> the
  number of processors when the argument is 0.\<close>

definition new_co_pool :: "nat \<Rightarrow> nat \<Rightarrow> bool \<Rightarrow> 'h co_pool" where
  "new_co_pool thread_num processors steal =
     \<lparr>co_queues = replicate thread_num new_queue, co_thread_num = (if thread_num \<noteq> 0 then thread_num else processors),
      co_stopped = False, enable_work_steal = steal\<rparr>"

text \<open>
  Binding the workers to processors. \<open>affinity\<close> is the processor set that \<open>sched_getaffinity\<close>
  returns, if it succeeds; \<open>bind_workers\<close> returns the worker and the processor of each
  \<open>sched_setaffinity\<close> call, whose failure is only logged.
\<close>

definition GetCurrentCpus :: "(nat \<Rightarrow> bool) option \<Rightarrow> nat list" where
  "GetCurrentCpus affinity = (case affinity of Some cpus \<Rightarrow> filter cpus [0..<1024] | None \<Rightarrow> [])"

fun bind_loop :: "nat list \<Rightarrow> nat list \<Rightarrow> pool_error + (nat \<times> nat) list" where
  "bind_loop cpu_ids [] = Inr []"
| "bind_loop cpu_ids (i # is) =
     (if length cpu_ids = 0 then Inl DivByZero
      else try_bind (bind_loop cpu_ids is) (\<lambda>calls. Inr ((i, cpu_ids ! (i mod length cpu_ids)) # calls)))"

definition bind_workers :: "bool \<Rightarrow> (nat \<Rightarrow> bool) option \<Rightarrow> 'h co_pool \<Rightarrow> pool_error + (nat \<times> nat) list" where
  "bind_workers enable_core_bindings affinity p =
     (if enable_core_bindings then bind_loop (GetCurrentCpus affinity) [0..<co_thread_num p] else Inr [])"

definition destroy_co_pool :: "'h co_pool \<Rightarrow> 'h co_pool" where
  "destroy_co_pool p = p\<lparr>co_stopped := True, co_queues := map bq_set_stop (co_queues p)\<rparr>"

text \<open>The loop runs over \<open>thread_num_\<close> queues with \<open>at\<close>, which checks the index.\<close>

definition GetItemCount :: "'h co_pool \<Rightarrow> pool_error + nat" where
  "GetItemCount p =
     (if co_thread_num p \<le> length (co_queues p)
      then Inr (\<Sum>i\<leftarrow>[0..<co_thread_num p]. bq_size (co_queues p ! i))
      else Inl QueueRange)"

text \<open>The thread-local pair of a thread: the worker's index and its pool, compared by identity.\<close>

definition GetCurrentId :: "'p \<Rightarrow> nat \<times> 'p option \<Rightarrow> int" where
  "GetCurrentId this current = (if snd current = Some this then int (fst current) else - 1)"

text \<open>The loop over twice the queues; \<open>locks\<close> are the outcomes of its lock attempts.\<close>

fun try_queues :: "nat \<Rightarrow> nat \<Rightarrow> bool list \<Rightarrow> 'h task_item \<Rightarrow> 'h task_item blocking_queue list \<Rightarrow>
    pool_error + 'h task_item blocking_queue list option" where
  "try_queues n i [] item qs = Inr None"
| "try_queues n i (locked # locks) item qs =
     (if i mod n < length qs
      then case bq_try_push locked item (qs ! (i mod n)) of
        (True, q) \<Rightarrow> Inr (Some (qs[i mod n := q]))
      | (False, q) \<Rightarrow> try_queues n (i + 1) locks item qs
      else Inl QueueRange)"

definition ScheduleById :: "nat \<Rightarrow> (nat \<Rightarrow> bool) \<Rightarrow> 'h option \<Rightarrow> int \<Rightarrow> 'h co_pool \<Rightarrow> pool_error + 'h co_pool" where
  "ScheduleById rand lock_free coro tid p = (case coro of
     None \<Rightarrow> Inr p
   | Some h \<Rightarrow>
       if co_stopped p then Inr p
       else if tid = - 1 then
         try_bind (if enable_work_steal p
                   then try_queues (co_thread_num p) 0 (map lock_free [0..<2 * co_thread_num p]) \<lparr>handle = h, can_steal = True\<rparr> (co_queues p)
                   else Inr None) (\<lambda>r. case r of
           Some qs \<Rightarrow> Inr (p\<lparr>co_queues := qs\<rparr>)
         | None \<Rightarrow>
             if co_thread_num p = 0 then Inl DivByZero
             else try_bind (push_at (rand mod co_thread_num p) \<lparr>handle = h, can_steal = enable_work_steal p\<rparr> (co_queues p))
               (\<lambda>qs. Inr (p\<lparr>co_queues := qs\<rparr>)))
       else if \<not> (0 \<le> tid \<and> nat tid < co_thread_num p) then Inl AssertFailed
       else try_bind (push_at (nat tid) \<lparr>handle = h, can_steal = False\<rparr> (co_queues p)) (\<lambda>qs. Inr (p\<lparr>co_queues := qs\<rparr>)))"

text \<open>A worker's round: steal from the queues in turn when that is enabled, else wait on the
  own queue. \<open>steal_from\<close> returns the queue index and the item it took.\<close>

fun steal_from :: "(nat \<Rightarrow> bool) \<Rightarrow> nat list \<Rightarrow> 'h task_item blocking_queue list \<Rightarrow>
    (nat \<times> 'h task_item \<times> 'h task_item blocking_queue list) option" where
  "steal_from lock_free [] qs = None"
| "steal_from lock_free (k # ks) qs = (case bq_try_pop_if (lock_free k) (Some can_steal) (qs ! k) of
     (Some item, q) \<Rightarrow> Some (k, item, qs[k := q])
   | (None, q) \<Rightarrow> steal_from lock_free ks qs)"

definition co_worker :: "(nat \<Rightarrow> bool) \<Rightarrow> nat \<Rightarrow> 'h co_pool \<Rightarrow> ((nat \<times> 'h task_item) round \<times> 'h co_pool) option" where
  "co_worker lock_free i p =
     (case (if enable_work_steal p
            then steal_from lock_free (map (\<lambda>d. (i + d) mod co_thread_num p) [0..<co_thread_num p]) (co_queues p)
            else None) of
        Some (k, item, qs) \<Rightarrow> Some (RunTask (k, item), p\<lparr>co_queues := qs\<rparr>)
      | None \<Rightarrow> (case bq_pop (co_queues p ! i) of
          None \<Rightarrow> None
        | Some (None, q) \<Rightarrow> Some (if co_stopped p then LeaveLoop else GoOn, p)
        | Some (Some item, q) \<Rightarrow> Some (RunTask (i, item), p\<lparr>co_queues := (co_queues p)[i := q]\<rparr>)))"

section \<open>Lemmas\<close>

definition co_wf :: "'h co_pool \<Rightarrow> bool" where
  "co_wf p \<longleftrightarrow> length (co_queues p) = co_thread_num p \<and> 0 < co_thread_num p"

lemma bq_size_push: "bq_size (bq_push x q) = bq_size q + 1"
  by (simp add: bq_size_def bq_push_def)

lemma sum_push:
  "i < length qs \<Longrightarrow> (\<Sum>q\<leftarrow>qs[i := bq_push x (qs ! i)]. bq_size q) = (\<Sum>q\<leftarrow>qs. bq_size q) + 1"
  using sum_list_map_update [of i qs bq_size "bq_push x (qs ! i)"] bq_size_push [of x "qs ! i"] by simp

lemma GetItemCount_wf: "co_wf p \<Longrightarrow> GetItemCount p = Inr (\<Sum>q\<leftarrow>co_queues p. bq_size q)"
  using map_nth [of "co_queues p"] by (simp add: GetItemCount_def co_wf_def flip: map_map [unfolded comp_def])

lemma GetItemCount_push:
  assumes "co_wf p" "k < co_thread_num p" "co_queues p' = (co_queues p)[k := bq_push x (co_queues p ! k)]"
    and "co_thread_num p' = co_thread_num p"
  shows "\<exists>m. GetItemCount p = Inr m \<and> GetItemCount p' = Inr (m + 1)"
proof -
  have "co_wf p'" using assms by (simp add: co_wf_def)
  then show ?thesis using assms sum_push [of k "co_queues p" x] by (simp add: GetItemCount_wf) (simp add: co_wf_def)
qed

lemma try_queues_ok:
  assumes "length qs = n" "0 < n"
  shows "\<exists>r. try_queues n i locks item qs = Inr r \<and>
    (\<forall>qs'. r = Some qs' \<longrightarrow> (\<exists>k < n. qs' = qs[k := bq_push item (qs ! k)]))"
  using assms
proof (induction n i locks item qs rule: try_queues.induct)
  case (2 n i locked locks item qs)
  then have "i mod n < n" by simp
  with 2 show ?case by (cases locked) (auto simp: bq_try_push_def)
qed simp

lemma steal_from_stealable:
  "steal_from lock_free ks qs = Some (k, item, qs') \<Longrightarrow> \<forall>k \<in> set ks. k < length qs \<Longrightarrow>
    can_steal item \<and> k \<in> set ks \<and> (\<exists>q. qs' = qs[k := q] \<and> bq_queue (qs ! k) = item # bq_queue q)"
  by (induction lock_free ks qs rule: steal_from.induct)
    (auto simp: bq_try_pop_if_def split: prod.splits option.splits list.splits if_splits)

lemma ScheduleById_placed:
  assumes "co_wf p" "\<not> co_stopped p" "tid = - 1 \<or> 0 \<le> tid \<and> nat tid < co_thread_num p"
  shows "\<exists>k item p'. ScheduleById rand lock_free (Some h) tid p = Inr p' \<and> k < co_thread_num p \<and> handle item = h \<and>
    p' = p\<lparr>co_queues := (co_queues p)[k := bq_push item (co_queues p ! k)]\<rparr> \<and>
    (\<exists>m. GetItemCount p = Inr m \<and> GetItemCount p' = Inr (m + 1)) \<and> (tid \<noteq> - 1 \<longrightarrow> k = nat tid \<and> \<not> can_steal item)"
proof (cases "tid = - 1")
  case False
  then have k: "nat tid < length (co_queues p)" "0 \<le> tid \<and> nat tid < co_thread_num p" using assms by (auto simp: co_wf_def)
  then show ?thesis
    using assms False GetItemCount_push [OF assms(1), of "nat tid" "p\<lparr>co_queues := (co_queues p)[nat tid := bq_push \<lparr>handle = h, can_steal = False\<rparr> (co_queues p ! nat tid)]\<rparr>"
        "\<lparr>handle = h, can_steal = False\<rparr>"]
    by (intro exI [of _ "nat tid"] exI [of _ "\<lparr>handle = h, can_steal = False\<rparr>"])
      (auto simp: ScheduleById_def push_at_def)
next
  case True
  let ?item = "\<lparr>handle = h, can_steal = True\<rparr>"
  have len: "length (co_queues p) = co_thread_num p" "0 < co_thread_num p" using assms(1) by (auto simp: co_wf_def)
  obtain r where r: "(if enable_work_steal p
      then try_queues (co_thread_num p) 0 (map lock_free [0..<2 * co_thread_num p]) ?item (co_queues p) else Inr None) = Inr r"
    "\<And>qs'. r = Some qs' \<Longrightarrow> \<exists>k < co_thread_num p. qs' = (co_queues p)[k := bq_push ?item (co_queues p ! k)]"
    using try_queues_ok [OF len, of 0 "map lock_free [0..<2 * co_thread_num p]" ?item] by (cases "enable_work_steal p") auto
  show ?thesis
  proof (cases r)
    case (Some qs)
    then obtain k where k: "k < co_thread_num p" "qs = (co_queues p)[k := bq_push ?item (co_queues p ! k)]" using r(2) by blast
    then show ?thesis
      using r(1) Some True assms(2) GetItemCount_push [OF assms(1) k(1), of "p\<lparr>co_queues := qs\<rparr>" ?item] len
      by (intro exI [of _ k] exI [of _ ?item]) (auto simp: ScheduleById_def)
  next
    case None
    let ?k = "rand mod co_thread_num p" and ?it = "\<lparr>handle = h, can_steal = enable_work_steal p\<rparr>"
    have "?k < co_thread_num p" using len by simp
    then show ?thesis
      using r(1) None True assms(2) len
        GetItemCount_push [OF assms(1), of ?k "p\<lparr>co_queues := (co_queues p)[?k := bq_push ?it (co_queues p ! ?k)]\<rparr>" ?it]
      by (intro exI [of _ ?k] exI [of _ ?it]) (auto simp: ScheduleById_def push_at_def)
  qed
qed

lemma co_worker_takes:
  assumes "co_wf p" "i < co_thread_num p" "co_worker lock_free i p = Some (RunTask (k, item), p')"
  obtains q where "p' = p\<lparr>co_queues := (co_queues p)[k := q]\<rparr>" "bq_queue (co_queues p ! k) = item # bq_queue q"
    "k < co_thread_num p" "k = i \<or> can_steal item"
proof -
  have len: "length (co_queues p) = co_thread_num p" using assms(1) by (simp add: co_wf_def)
  consider qs where "steal_from lock_free (map (\<lambda>d. (i + d) mod co_thread_num p) [0..<co_thread_num p]) (co_queues p) = Some (k, item, qs)"
      "p' = p\<lparr>co_queues := qs\<rparr>"
    | q where "bq_pop (co_queues p ! i) = Some (Some item, q)" "k = i" "p' = p\<lparr>co_queues := (co_queues p)[i := q]\<rparr>"
    using assms(3) by (auto simp: co_worker_def split: if_splits option.splits)
  then show ?thesis
  proof cases
    case 1
    have "\<forall>k \<in> set (map (\<lambda>d. (i + d) mod co_thread_num p) [0..<co_thread_num p]). k < length (co_queues p)"
      using assms(2) len by auto
    then obtain q where "can_steal item" "k < length (co_queues p)" "qs = (co_queues p)[k := q]"
      "bq_queue (co_queues p ! k) = item # bq_queue q"
      using steal_from_stealable [OF 1(1)] by blast
    then show ?thesis using that 1(2) len by simp
  next
    case 2
    then show ?thesis using that [of q] assms(2) by (auto simp: bq_pop_def split: list.splits if_splits)
  qed
qed

lemma bind_loop_ok: "cpu_ids \<noteq> [] \<Longrightarrow> bind_loop cpu_ids is = Inr (map (\<lambda>i. (i, cpu_ids ! (i mod length cpu_ids))) is)"
  by (induction "is") simp_all

text \<open>Every worker asks for a processor of the process's set, different ones while there are
  enough; if the set could not be read the constructor divides by zero.\<close>

lemma bind_workers_spread:
  assumes "affinity = Some cpus" "\<exists>c < 1024. cpus c"
  shows "\<exists>calls. bind_workers True affinity p = Inr calls \<and> map fst calls = [0..<co_thread_num p] \<and>
    (\<forall>(i, c) \<in> set calls. cpus c) \<and> (co_thread_num p \<le> length (GetCurrentCpus affinity) \<longrightarrow> distinct (map snd calls))"
proof -
  let ?ids = "GetCurrentCpus affinity"
  have ids: "?ids \<noteq> []" "\<forall>c \<in> set ?ids. cpus c" "distinct ?ids"
    using assms by (auto simp: GetCurrentCpus_def filter_empty_conv)
  have "map snd (map (\<lambda>i. (i, ?ids ! (i mod length ?ids))) [0..<co_thread_num p]) = take (co_thread_num p) ?ids"
    if "co_thread_num p \<le> length ?ids"
    using that by (intro nth_equalityI) simp_all
  with ids show ?thesis by (simp add: bind_workers_def bind_loop_ok comp_def distinct_take)
qed

lemma bind_workers_no_cpus: "0 < co_thread_num p \<Longrightarrow> bind_workers True None p = Inl DivByZero"
  by (simp add: bind_workers_def GetCurrentCpus_def upt_rec)

section \<open>Runs of the coroutine pool\<close>

text \<open>
  The pool with its history: the handles scheduled, each with the worker it was scheduled
  on (\<open>-1\<close> for any), and what each worker has run.
\<close>

record 'c co_run =
  cr_pool :: "('c \<times> int) co_pool"
  cr_scheduled :: "('c \<times> int) list"
  cr_ran :: "(nat \<times> ('c \<times> int)) list"

definition new_co_run :: "nat \<Rightarrow> nat \<Rightarrow> bool \<Rightarrow> 'c co_run" where
  "new_co_run n processors steal = \<lparr>cr_pool = new_co_pool n processors steal, cr_scheduled = [], cr_ran = []\<rparr>"

inductive co_step :: "'c co_run \<Rightarrow> 'c co_run \<Rightarrow> bool" where
  schedule: "\<not> co_stopped (cr_pool r) \<Longrightarrow> ScheduleById rand lock_free (Some (c, tid)) tid (cr_pool r) = Inr p \<Longrightarrow>
    co_step r (r\<lparr>cr_pool := p, cr_scheduled := cr_scheduled r @ [(c, tid)]\<rparr>)"
| run: "i < co_thread_num (cr_pool r) \<Longrightarrow> co_worker lock_free i (cr_pool r) = Some (RunTask (k, item), p) \<Longrightarrow>
    co_step r (r\<lparr>cr_pool := p, cr_ran := cr_ran r @ [(i, handle item)]\<rparr>)"
| stop: "co_step r (r\<lparr>cr_pool := destroy_co_pool (cr_pool r)\<rparr>)"

definition waiting :: "'h co_pool \<Rightarrow> 'h multiset" where
  "waiting p = (\<Sum>q\<leftarrow>co_queues p. mset (map handle (bq_queue q)))"

lemma waiting_update:
  assumes "k < length (co_queues p)"
  shows "waiting (p\<lparr>co_queues := (co_queues p)[k := q]\<rparr>) + mset (map handle (bq_queue (co_queues p ! k))) =
    waiting p + mset (map handle (bq_queue q))"
  using sum_list_map_update [OF assms, of "\<lambda>q. mset (map handle (bq_queue q))" q] by (simp add: waiting_def)

text \<open>A pinned handle waits in its worker's queue and cannot be stolen.\<close>

definition pinned_ok :: "('c \<times> int) co_pool \<Rightarrow> bool" where
  "pinned_ok p \<longleftrightarrow> (\<forall>k < length (co_queues p). \<forall>item \<in> set (bq_queue (co_queues p ! k)).
     snd (handle item) \<noteq> - 1 \<longrightarrow> snd (handle item) = int k \<and> \<not> can_steal item)"

definition co_inv :: "nat \<Rightarrow> 'c co_run \<Rightarrow> bool" where
  "co_inv n r \<longleftrightarrow> co_wf (cr_pool r) \<and> co_thread_num (cr_pool r) = n \<and>
     mset (cr_scheduled r) = mset (map snd (cr_ran r)) + waiting (cr_pool r) \<and> pinned_ok (cr_pool r) \<and>
     (\<forall>(i, h) \<in> set (cr_ran r). i < n \<and> (snd h \<noteq> - 1 \<longrightarrow> snd h = int i))"

lemma ScheduleById_worker:
  assumes "co_wf p" "\<not> co_stopped p" "ScheduleById rand lock_free (Some h) tid p = Inr p'"
  obtains k item where "p' = p\<lparr>co_queues := (co_queues p)[k := bq_push item (co_queues p ! k)]\<rparr>" "k < co_thread_num p"
    "handle item = h" "tid \<noteq> - 1 \<longrightarrow> tid = int k \<and> \<not> can_steal item"
proof -
  have "tid = - 1 \<or> 0 \<le> tid \<and> nat tid < co_thread_num p"
    using assms(2,3) by (auto simp: ScheduleById_def split: if_splits)
  then show ?thesis
    using ScheduleById_placed [OF assms(1,2), of tid rand lock_free h] assms(3) by (auto intro: that)
qed

lemma co_step_inv: "co_step r r' \<Longrightarrow> co_inv n r \<Longrightarrow> co_inv n r'"
proof (induction rule: co_step.induct)
  case (schedule r rand lock_free c tid p)
  let ?p = "cr_pool r"
  have inv: "co_wf ?p" "co_thread_num ?p = n" "pinned_ok ?p" using schedule.prems by (simp_all add: co_inv_def)
  obtain k item where k: "p = ?p\<lparr>co_queues := (co_queues ?p)[k := bq_push item (co_queues ?p ! k)]\<rparr>" "k < co_thread_num ?p"
    "handle item = (c, tid)" "tid \<noteq> - 1 \<longrightarrow> tid = int k \<and> \<not> can_steal item"
    by (rule ScheduleById_worker [OF inv(1) schedule.hyps])
  have len: "k < length (co_queues ?p)" using k(2) inv(1) by (simp add: co_wf_def)
  have "waiting p = add_mset (c, tid) (waiting ?p)"
    using waiting_update [OF len, of "bq_push item (co_queues ?p ! k)"] k(1,3) by (simp add: bq_push_def)
  moreover have "pinned_ok p" using inv(3) k len by (auto simp: pinned_ok_def bq_push_def nth_list_update)
  moreover have "co_wf p" using inv(1) k(1) by (simp add: co_wf_def)
  ultimately show ?case using schedule.prems k(1) by (simp add: co_inv_def)
next
  case (run i r lock_free k item p)
  let ?p = "cr_pool r"
  have inv: "co_wf ?p" "co_thread_num ?p = n" "pinned_ok ?p" using run.prems by (simp_all add: co_inv_def)
  obtain q where q: "p = ?p\<lparr>co_queues := (co_queues ?p)[k := q]\<rparr>" "bq_queue (co_queues ?p ! k) = item # bq_queue q"
    "k < co_thread_num ?p" "k = i \<or> can_steal item"
    by (rule co_worker_takes [OF inv(1) run.hyps])
  have len: "k < length (co_queues ?p)" using q(3) inv(1) by (simp add: co_wf_def)
  have "waiting ?p = add_mset (handle item) (waiting p)" using waiting_update [OF len, of q] q(1,2) by simp
  moreover have "pinned_ok p" using inv(3) q len by (auto simp: pinned_ok_def nth_list_update)
  moreover have "snd (handle item) \<noteq> - 1 \<longrightarrow> snd (handle item) = int i" using inv(3) q(2,4) len by (force simp: pinned_ok_def)
  moreover have "co_wf p" using inv(1) q(1) by (simp add: co_wf_def)
  ultimately show ?case using run.prems run.hyps(1) q(1) by (auto simp: co_inv_def)
next
  case (stop r)
  have "waiting (destroy_co_pool (cr_pool r)) = waiting (cr_pool r)"
    by (simp add: waiting_def destroy_co_pool_def bq_set_stop_def comp_def)
  then show ?case using stop.prems by (auto simp: co_inv_def co_wf_def destroy_co_pool_def pinned_ok_def bq_set_stop_def)
qed

lemma waiting_new: "waiting (new_co_pool n processors steal) = {#}"
proof -
  have "sum_list (replicate n ({#} :: 'h multiset)) = {#}" by (induction n) simp_all
  then show ?thesis by (simp add: waiting_def new_co_pool_def new_queue_def map_replicate_const)
qed

lemma pinned_ok_new: "pinned_ok (new_co_pool n processors steal)"
  by (simp add: pinned_ok_def new_co_pool_def new_queue_def)

interpretation co_sys: step_system "\<lambda>r. 0 < n \<and> r = new_co_run n processors steal" co_step "co_inv n" for n processors steal
proof
  show "0 < n \<and> r = new_co_run n processors steal \<Longrightarrow> co_inv n r" for r :: "'c co_run"
    by (auto simp: co_inv_def new_co_run_def waiting_new pinned_ok_new) (simp_all add: new_co_pool_def co_wf_def)
qed (rule co_step_inv)

section \<open>Properties\<close>

text \<open>
  Scheduling a coroutine on a running pool with queues succeeds whatever locks are
  busy: exactly one queue gets the coroutine, at its end. A coroutine scheduled on a given
  worker goes to that worker's queue and is marked as not to be stolen.
\<close>

theorem ScheduleById_places_once:
  assumes "co_wf p" "\<not> co_stopped p" "tid = - 1 \<or> 0 \<le> tid \<and> nat tid < co_thread_num p"
  shows "\<exists>k item p'. ScheduleById rand lock_free (Some h) tid p = Inr p' \<and> k < co_thread_num p \<and> handle item = h \<and>
    p' = p\<lparr>co_queues := (co_queues p)[k := bq_push item (co_queues p ! k)]\<rparr> \<and>
    (\<exists>m. GetItemCount p = Inr m \<and> GetItemCount p' = Inr (m + 1)) \<and> (tid \<noteq> - 1 \<longrightarrow> k = nat tid \<and> \<not> can_steal item)"
  using assms by (rule ScheduleById_placed)

theorem ScheduleById_places_once_witness:
  "\<exists>k item p'. ScheduleById 0 (\<lambda>_. False) (Some (7 :: nat)) 1 (new_co_pool 2 8 True) = Inr p' \<and> k < co_thread_num (new_co_pool 2 8 True :: nat co_pool) \<and>
    handle (item :: nat task_item) = 7 \<and> k = nat 1"
  using ScheduleById_places_once [of "new_co_pool 2 8 True" 1 0 "\<lambda>_. False" "7 :: nat"]
  by (auto simp: co_wf_def new_co_pool_def)

text \<open>
  Claim C28. In every run of the coroutine pool, with or without stealing, each scheduled
  coroutine is either still waiting in a queue or was resumed, exactly once for each time it
  was scheduled; and a coroutine scheduled on a given worker is resumed by that worker only.
\<close>

theorem co_pool_resumes_once:
  assumes "0 < n" "co_step\<^sup>*\<^sup>* (new_co_run n processors steal) r"
  shows "mset (cr_scheduled r) = mset (map snd (cr_ran r)) + waiting (cr_pool r) \<and>
    (\<forall>(i, h) \<in> set (cr_ran r). i < n \<and> (snd h \<noteq> - 1 \<longrightarrow> snd h = int i))"
proof -
  have "co_inv n r" by (rule co_sys.inv_reachable [OF conjI [OF assms(1) refl] assms(2)])
  then show ?thesis by (simp add: co_inv_def)
qed

theorem co_pool_resumes_once_witness:
  "\<exists>r :: nat co_run. co_step\<^sup>*\<^sup>* (new_co_run 2 8 False) r \<and> cr_scheduled r = [(7 :: nat, 1)] \<and>
    mset (cr_scheduled r) = mset (map snd (cr_ran r)) + waiting (cr_pool r)"
proof -
  let ?p = "(new_co_pool 2 8 False)\<lparr>co_queues := [new_queue, bq_push \<lparr>handle = (7 :: nat, 1), can_steal = False\<rparr> new_queue]\<rparr>"
  have "ScheduleById 0 (\<lambda>_. True) (Some (7 :: nat, 1)) 1 (cr_pool (new_co_run 2 8 False)) = Inr ?p"
    by (simp add: ScheduleById_def new_co_run_def new_co_pool_def push_at_def numeral_2_eq_2)
  from co_step.schedule [OF _ this]
  have "co_step (new_co_run 2 8 False) ((new_co_run 2 8 False)\<lparr>cr_pool := ?p, cr_scheduled := [(7 :: nat, 1)]\<rparr>)"
    by (simp add: new_co_run_def new_co_pool_def)
  then have "co_step\<^sup>*\<^sup>* (new_co_run 2 8 False) ((new_co_run 2 8 False)\<lparr>cr_pool := ?p, cr_scheduled := [(7 :: nat, 1)]\<rparr>)" by blast
  from co_pool_resumes_once [OF _ this] this show ?thesis
    by (intro exI [of _ "(new_co_run 2 8 False)\<lparr>cr_pool := ?p, cr_scheduled := [(7 :: nat, 1)]\<rparr>"]) simp
qed

text \<open>
  Committing with the default worker id fails: the id \<open>-1\<close> is the largest \<open>size_t\<close>,
  the test for a negative id never holds, and the assertion on its range ends the process
  (or, compiled out, the queue index is out of range).
\<close>

theorem CommitById_default_fails:
  assumes "\<not> bqp_stop p" "bqp_thread_num p < 2 ^ 64"
  shows "CommitById rand (Some f) (- 1) p = Inl AssertFailed"
proof -
  have "unat (- 1 :: u64) = 2 ^ 64 - 1" by (simp add: unsigned_minus_1_eq_mask mask_eq_exp_minus_1)
  then show ?thesis using assms by (simp add: CommitById_def)
qed

theorem CommitById_default_fails_witness: "CommitById 5 (Some (7 :: nat)) (- 1) (new_bq_pool 4) = Inl AssertFailed"
  by (rule CommitById_default_fails) (simp_all add: new_bq_pool_def)

text \<open>
  A coroutine pool created with 0 threads takes the number of processors as its
  thread count but has no queue: scheduling always runs into an index out of range.
\<close>

theorem zero_threads_no_queue:
  assumes "0 < processors"
  shows "ScheduleById rand lock_free (Some h) (- 1) (new_co_pool 0 processors steal) = Inl QueueRange"
proof -
  have "[0..<2 * processors] = 0 # [1..<2 * processors]" using assms by (simp add: upt_rec)
  then show ?thesis using assms by (simp add: ScheduleById_def new_co_pool_def push_at_def)
qed

theorem zero_threads_no_queue_witness:
  "ScheduleById 3 (\<lambda>_. True) (Some (7 :: nat)) (- 1) (new_co_pool 0 8 True) = Inl QueueRange"
  by (rule zero_threads_no_queue) simp

end
