(* ===== verification/Co_Task.thy ===== *)
theory Co_Task
  imports Queue_Pools
begin

text \<open>
  Coroutine tasks: \<open>luce/co/task.h\<close>, and their spawning on the coroutine pool:
  \<open>luce/co/scheduler.{h,cpp}\<close>.

  The body of a coroutine is application code, the type \<open>co\<close>: it returns a value, waits for
  an I/O awaiter, awaits a task it creates, yields a value or throws an exception. The state has the coroutine frames by
  address: the promise (value, continuation, detached flag) and where the coroutine is
  suspended. Using the address of a destroyed frame is an error. A continuation \<open>None\<close> is
  the no-op coroutine: control goes back to whoever called \<open>resume\<close>.
\<close>

datatype co_error = UseAfterFree | NullHandle | NotStarted | ResumeDone | NoValue | Terminated

datatype 'v co = Return 'v | Io "'v \<Rightarrow> 'v co" | Await "'v co" "'v \<Rightarrow> 'v co" | Yield 'v "'v co" | Throw

text \<open>Where a frame is suspended: before a piece of its body, inside \<open>co_await\<close> of a child
  task, or at its final suspension point.\<close>

datatype 'v co_point = At "'v co" | Joining nat "'v \<Rightarrow> 'v co" | Final

record 'v co_frame =
  fr_point :: "'v co_point"
  fr_value :: "'v option"
  fr_continuation :: "nat option"
  fr_detached :: bool
  fr_thrd :: int

record 'v world =
  frames :: "nat \<rightharpoonup> 'v co_frame"
  next_frame :: nat
  io_waiting :: "nat option"

definition with_frame :: "'v world \<Rightarrow> nat \<Rightarrow> ('v co_frame \<Rightarrow> co_error + 'a) \<Rightarrow> co_error + 'a" where
  "with_frame w a f = (case frames w a of None \<Rightarrow> Inl UseAfterFree | Some fr \<Rightarrow> f fr)"

definition set_frame :: "nat \<Rightarrow> 'v co_frame \<Rightarrow> 'v world \<Rightarrow> 'v world" where
  "set_frame a fr w = w\<lparr>frames := (frames w)(a \<mapsto> fr)\<rparr>"

text \<open>\<open>coroutine_handle::destroy\<close>.\<close>

definition destroy_frame :: "nat \<Rightarrow> 'v world \<Rightarrow> co_error + 'v world" where
  "destroy_frame a w = with_frame w a (\<lambda>_. Inr (w\<lparr>frames := (frames w)(a := None)\<rparr>))"

section \<open>Promises\<close>

definition return_value :: "'v \<Rightarrow> 'v co_frame \<Rightarrow> 'v co_frame" where
  "return_value v fr = fr\<lparr>fr_value := Some v\<rparr>"

definition yield_value :: "'v \<Rightarrow> 'v co_frame \<Rightarrow> 'v co_frame" where
  "yield_value v fr = fr\<lparr>fr_value := Some v\<rparr>"

definition set_value :: "'v \<Rightarrow> 'v co_frame \<Rightarrow> 'v co_frame" where
  "set_value v fr = fr\<lparr>fr_value := Some v\<rparr>"

definition promise_result :: "'v co_frame \<Rightarrow> co_error + 'v" where
  "promise_result fr = (case fr_value fr of Some v \<Rightarrow> Inr v | None \<Rightarrow> Inl NoValue)"

definition set_continuation :: "nat \<Rightarrow> 'v co_frame \<Rightarrow> 'v co_frame" where
  "set_continuation c fr = fr\<lparr>fr_continuation := Some c\<rparr>"

definition set_thrd :: "int \<Rightarrow> 'v co_frame \<Rightarrow> 'v co_frame" where
  "set_thrd thrd_id fr = fr\<lparr>fr_thrd := thrd_id\<rparr>"

definition promise_detach :: "'v co_frame \<Rightarrow> 'v co_frame" where
  "promise_detach fr = fr\<lparr>fr_detached := True\<rparr>"

text \<open>The awaiter of \<open>final_suspend\<close>: the coroutine to run next.\<close>

definition final_suspend :: "nat \<Rightarrow> 'v world \<Rightarrow> co_error + 'v world \<times> nat option" where
  "final_suspend a w = with_frame w a (\<lambda>fr.
     let continuation = fr_continuation fr; w1 = set_frame a (fr\<lparr>fr_point := Final\<rparr>) w in
     if fr_detached fr then try_bind (destroy_frame a w1) (\<lambda>w2. Inr (w2, continuation)) else Inr (w1, continuation))"

section \<open>Tasks\<close>

record task = t_handle :: "nat option"

text \<open>Calling a coroutine allocates its frame, suspended at the start of its body.\<close>

definition get_return_object :: "'v co \<Rightarrow> 'v world \<Rightarrow> task \<times> 'v world" where
  "get_return_object body w =
     (\<lparr>t_handle = Some (next_frame w)\<rparr>,
      set_frame (next_frame w) \<lparr>fr_point = At body, fr_value = None, fr_continuation = None, fr_detached = False, fr_thrd = - 1\<rparr> w
        \<lparr>next_frame := next_frame w + 1\<rparr>)"

definition task_move :: "task \<Rightarrow> task \<times> task" where
  "task_move other = (\<lparr>t_handle = t_handle other\<rparr>, other\<lparr>t_handle := None\<rparr>)"

definition task_swap :: "task \<Rightarrow> task \<Rightarrow> task \<times> task" where
  "task_swap lhs rhs = (lhs\<lparr>t_handle := t_handle rhs\<rparr>, rhs\<lparr>t_handle := t_handle lhs\<rparr>)"

definition task_destroy :: "task \<Rightarrow> 'v world \<Rightarrow> co_error + 'v world" where
  "task_destroy t w = (case t_handle t of None \<Rightarrow> Inr w | Some a \<Rightarrow> destroy_frame a w)"

fun is_final :: "'v co_point \<Rightarrow> bool" where
  "is_final Final \<longleftrightarrow> True"
| "is_final _ \<longleftrightarrow> False"

definition task_ready :: "task \<Rightarrow> 'v world \<Rightarrow> co_error + bool" where
  "task_ready t w = (case t_handle t of
     None \<Rightarrow> Inr True
   | Some a \<Rightarrow> with_frame w a (\<lambda>fr. Inr (is_final (fr_point fr))))"

definition task_result :: "task \<Rightarrow> 'v world \<Rightarrow> co_error + 'v" where
  "task_result t w = (case t_handle t of None \<Rightarrow> Inl NullHandle | Some a \<Rightarrow> with_frame w a promise_result)"

definition task_detach :: "task \<Rightarrow> 'v world \<Rightarrow> co_error + task \<times> 'v world" where
  "task_detach t w = (case t_handle t of
     None \<Rightarrow> Inl NullHandle
   | Some a \<Rightarrow> with_frame w a (\<lambda>fr. Inr (t\<lparr>t_handle := None\<rparr>, set_frame a (promise_detach fr) w)))"

text \<open>The awaiter of \<open>co_await task\<close>: \<open>await_ready\<close> is the test of \<open>ready\<close>.\<close>

definition await_suspend :: "task \<Rightarrow> nat \<Rightarrow> 'v world \<Rightarrow> co_error + 'v world \<times> nat" where
  "await_suspend t continuation w = (case t_handle t of
     None \<Rightarrow> Inl NullHandle
   | Some a \<Rightarrow> with_frame w a (\<lambda>fr. Inr (set_frame a (set_continuation continuation fr) w, a)))"

definition await_resume :: "task \<Rightarrow> 'v world \<Rightarrow> co_error + 'v" where
  "await_resume t w = task_result t w"

section \<open>Running\<close>

text \<open>
  One transfer of control: the frame runs to its next suspension point. The result is the
  coroutine that runs next, or \<open>None\<close> when control goes back to the caller of \<open>resume\<close>. A
  child task lives until the end of the \<open>co_await\<close> expression and is then destroyed. An
  exception ends the process.
\<close>

definition run_frame :: "nat \<Rightarrow> 'v world \<Rightarrow> co_error + 'v world \<times> nat option" where
  "run_frame a w = with_frame w a (\<lambda>fr. case fr_point fr of
     At (Return v) \<Rightarrow> final_suspend a (set_frame a (return_value v fr) w)
   | At (Io k) \<Rightarrow> Inr (w\<lparr>io_waiting := Some a\<rparr>, None)
   | At (Yield v body) \<Rightarrow> Inr (set_frame a ((yield_value v fr)\<lparr>fr_point := At body\<rparr>) w, None)
   | At Throw \<Rightarrow> Inl Terminated
   | At (Await body k) \<Rightarrow>
       (let (child, w1) = get_return_object body w in
        try_bind (task_ready child w1) (\<lambda>rdy.
        if rdy then try_bind (await_resume child w1) (\<lambda>v. try_bind (task_destroy child w1) (\<lambda>w2.
            Inr (set_frame a (fr\<lparr>fr_point := At (k v)\<rparr>) w2, Some a)))
        else try_bind (await_suspend child a w1) (\<lambda>(w2, c).
            Inr (set_frame a (fr\<lparr>fr_point := Joining c k\<rparr>) w2, Some c))))
   | Joining c k \<Rightarrow> try_bind (await_resume \<lparr>t_handle = Some c\<rparr> w) (\<lambda>v.
       try_bind (task_destroy \<lparr>t_handle = Some c\<rparr> w) (\<lambda>w1.
         Inr (set_frame a (fr\<lparr>fr_point := At (k v)\<rparr>) w1, Some a)))
   | Final \<Rightarrow> Inl ResumeDone)"

text \<open>\<open>handle.resume()\<close>: transfers until one gives control back. \<open>None\<close> is a chain of
  transfers without end.\<close>

partial_function (option) resume :: "nat \<Rightarrow> 'v world \<Rightarrow> (co_error + 'v world) option" where
  "resume a w = (case run_frame a w of
     Inl e \<Rightarrow> Some (Inl e)
   | Inr p \<Rightarrow> (case snd p of None \<Rightarrow> Some (Inr (fst p)) | Some b \<Rightarrow> resume b (fst p)))"

definition task_resume :: "task \<Rightarrow> 'v world \<Rightarrow> (co_error + 'v world) option" where
  "task_resume t w = (case t_handle t of None \<Rightarrow> Some (Inl NullHandle) | Some a \<Rightarrow> resume a w)"

text \<open>\<open>Task<T>::run\<close>: the final read goes through the handle of the detached frame.\<close>

definition task_run :: "task \<Rightarrow> 'v world \<Rightarrow> (co_error + 'v \<times> 'v world) option" where
  "task_run t w = (case task_ready t w of
     Inl e \<Rightarrow> Some (Inl e)
   | Inr rdy \<Rightarrow>
       if rdy then Some (try_bind (task_result t w) (\<lambda>v. Inr (v, w)))
       else case t_handle t of
         None \<Rightarrow> Some (Inl NullHandle)
       | Some a \<Rightarrow> (case task_detach t w of
           Inl e \<Rightarrow> Some (Inl e)
         | Inr (_, w1) \<Rightarrow> (case resume a w1 of
             None \<Rightarrow> None
           | Some (Inl e) \<Rightarrow> Some (Inl e)
           | Some (Inr w2) \<Rightarrow> Some (with_frame w2 a (\<lambda>fr. try_bind (promise_result fr) (\<lambda>v. Inr (v, w2)))))))"

text \<open>The event loop resumes a waiting coroutine with the result of its I/O.\<close>

definition deliver :: "'v \<Rightarrow> nat \<Rightarrow> 'v world \<Rightarrow> co_error + 'v world" where
  "deliver x a w = with_frame w a (\<lambda>fr. case fr_point fr of
     At (Io k) \<Rightarrow> Inr (set_frame a (fr\<lparr>fr_point := At (k x)\<rparr>) w\<lparr>io_waiting := None\<rparr>)
   | _ \<Rightarrow> Inl NotStarted)"

fun drive :: "'v list \<Rightarrow> 'v world \<Rightarrow> (co_error + 'v world \<times> 'v list) option" where
  "drive [] w = Some (Inr (w, []))"
| "drive (x # xs) w = (case io_waiting w of
     None \<Rightarrow> Some (Inr (w, x # xs))
   | Some a \<Rightarrow> (case deliver x a w of
       Inl e \<Rightarrow> Some (Inl e)
     | Inr w1 \<Rightarrow> (case resume a w1 of
         None \<Rightarrow> None
       | Some (Inl e) \<Rightarrow> Some (Inl e)
       | Some (Inr w2) \<Rightarrow> drive xs w2)))"

section \<open>Spawning\<close>

definition co_spawn :: "nat \<Rightarrow> (nat \<Rightarrow> bool) \<Rightarrow> task \<Rightarrow> 'v world \<Rightarrow> nat co_pool \<Rightarrow>
    co_error + task \<times> 'v world \<times> (pool_error + nat co_pool)" where
  "co_spawn rand lock_free t w tp =
     (let h = t_handle t in
      try_bind (task_detach t w) (\<lambda>(t', w'). Inr (t', w', ScheduleById rand lock_free h (- 1) tp)))"

section \<open>What a body computes\<close>

text \<open>The meaning of a body on the results of its I/O: its value and the results it left, or
  how it stops before its end. A yield keeps the value for the owner of the yielding task;
  for the tasks that await it there is none.\<close>

datatype 'v outcome = Done 'v "'v list" | Waits | Yields "'v option" "'v list" | Throws

primrec eval :: "'v co \<Rightarrow> 'v list \<Rightarrow> 'v outcome" where
  "eval (Return v) = (\<lambda>ins. Done v ins)"
| "eval (Io k) = (\<lambda>ins. case ins of [] \<Rightarrow> Waits | x # xs \<Rightarrow> eval (k x) xs)"
| "eval (Await body k) = (\<lambda>ins. case eval body ins of
     Done v rest \<Rightarrow> eval (k v) rest | Waits \<Rightarrow> Waits | Yields _ rest \<Rightarrow> Yields None rest | Throws \<Rightarrow> Throws)"
| "eval (Yield v body) = (\<lambda>ins. Yields (Some v) ins)"
| "eval Throw = (\<lambda>ins. Throws)"

text \<open>The world and the frame in which a body has stopped before its end; \<open>old\<close> is the value
  the frame held.\<close>

fun stopped_at :: "'v outcome \<Rightarrow> 'v option \<Rightarrow> 'v list \<Rightarrow> 'v world \<Rightarrow> 'v co_frame \<Rightarrow> bool" where
  "stopped_at Waits old rest w fr \<longleftrightarrow> rest = [] \<and> io_waiting w \<noteq> None \<and> fr_value fr = old"
| "stopped_at (Yields own r) old rest w fr \<longleftrightarrow>
     rest = r \<and> io_waiting w = None \<and> fr_value fr = (case own of None \<Rightarrow> old | Some v \<Rightarrow> Some v)"
| "stopped_at _ old rest w fr \<longleftrightarrow> False"

text \<open>A coroutine is resumed and the event loop goes on with the given results.\<close>

definition resume_drive :: "nat \<Rightarrow> 'v list \<Rightarrow> 'v world \<Rightarrow> (co_error + 'v world \<times> 'v list) option" where
  "resume_drive a ins w = (case resume a w of
     None \<Rightarrow> None | Some (Inl e) \<Rightarrow> Some (Inl e) | Some (Inr w') \<Rightarrow> drive ins w')"

lemma resume_drive_transfer: "run_frame a w = Inr (w', Some b) \<Longrightarrow> resume_drive a ins w = resume_drive b ins w'"
  by (simp add: resume_drive_def resume.simps [of a])

lemma resume_drive_back: "run_frame a w = Inr (w', None) \<Longrightarrow> resume_drive a ins w = drive ins w'"
  by (simp add: resume_drive_def resume.simps [of a])

lemma drive_resting: "io_waiting w = None \<Longrightarrow> drive ins w = Some (Inr (w, ins))"
  by (cases ins) simp_all

lemma drive_deliver:
  "io_waiting w = Some a \<Longrightarrow> deliver x a w = Inr w' \<Longrightarrow> drive (x # ins) w = resume_drive a ins w'"
  by (simp add: resume_drive_def split: option.splits sum.splits)

definition fresh_above :: "'v world \<Rightarrow> bool" where
  "fresh_above w \<longleftrightarrow> (\<forall>b \<ge> next_frame w. frames w b = None)"

lemma fresh_aboveD: "fresh_above w \<Longrightarrow> frames w (next_frame w) = None"
  by (simp add: fresh_above_def)

lemma fresh_above_live: "fresh_above w \<Longrightarrow> frames w a = Some fr \<Longrightarrow> a < next_frame w"
  by (metis fresh_above_def linorder_not_less option.distinct(1))

definition at_point :: "nat \<Rightarrow> 'v co \<Rightarrow> 'v co_frame \<Rightarrow> 'v world \<Rightarrow> bool" where
  "at_point a body fr w \<longleftrightarrow> frames w a = Some fr \<and> fr_point fr = At body \<and> io_waiting w = None \<and> fresh_above w"

text \<open>The world after a frame has moved to another point and \<open>n\<close> addresses were used.\<close>

definition moved :: "nat \<Rightarrow> 'v co \<Rightarrow> 'v co_frame \<Rightarrow> nat \<Rightarrow> 'v world \<Rightarrow> 'v world" where
  "moved a body fr n w = w\<lparr>frames := (frames w)(a \<mapsto> fr\<lparr>fr_point := At body\<rparr>), next_frame := n\<rparr>"

lemma moved_at_point:
  "at_point a b0 fr w \<Longrightarrow> next_frame w \<le> n \<Longrightarrow> at_point a body (fr\<lparr>fr_point := At body\<rparr>) (moved a body fr n w)"
  using fresh_above_live [of w a fr] by (auto simp: at_point_def moved_def fresh_above_def)

lemma moved_moved: "moved a body (fr\<lparr>fr_point := p\<rparr>) n (moved a b0 fr m w) = moved a body fr n w"
  by (simp add: moved_def)

lemma moved_same: "at_point a body fr w \<Longrightarrow> moved a body fr (next_frame w) w = w"
  by (auto simp: at_point_def moved_def intro!: world.equality co_frame.equality)

text \<open>Waiting for I/O: control goes back to the event loop, which resumes the same frame.\<close>

lemma io_step:
  assumes "at_point a (Io k) fr w"
  shows "resume_drive a (x # ins) w = resume_drive a ins (moved a (k x) fr (next_frame w) w)"
    and "resume_drive a [] w = Some (Inr (w\<lparr>io_waiting := Some a\<rparr>, []))"
proof -
  have r: "run_frame a w = Inr (w\<lparr>io_waiting := Some a\<rparr>, None)"
    using assms by (simp add: run_frame_def with_frame_def at_point_def)
  have d: "deliver x a (w\<lparr>io_waiting := Some a\<rparr>) = Inr (moved a (k x) fr (next_frame w) w)"
    using assms by (simp add: deliver_def with_frame_def at_point_def set_frame_def moved_def)
  show "resume_drive a (x # ins) w = resume_drive a ins (moved a (k x) fr (next_frame w) w)"
    by (subst resume_drive_back [OF r]) (rule drive_deliver [OF _ d], simp)
  show "resume_drive a [] w = Some (Inr (w\<lparr>io_waiting := Some a\<rparr>, []))" using resume_drive_back [OF r, of "[]"] by simp
qed

text \<open>Awaiting: the child's frame is created with the parent as its continuation.\<close>

definition child_frame :: "nat \<Rightarrow> 'v co \<Rightarrow> 'v co_frame" where
  "child_frame a body = \<lparr>fr_point = At body, fr_value = None, fr_continuation = Some a, fr_detached = False, fr_thrd = - 1\<rparr>"

definition joined :: "nat \<Rightarrow> 'v co \<Rightarrow> ('v \<Rightarrow> 'v co) \<Rightarrow> 'v co_frame \<Rightarrow> 'v world \<Rightarrow> 'v world" where
  "joined a body k fr w = w\<lparr>frames := (frames w)(next_frame w \<mapsto> child_frame a body,
     a \<mapsto> fr\<lparr>fr_point := Joining (next_frame w) k\<rparr>), next_frame := next_frame w + 1\<rparr>"

lemma next_frame_joined [simp]: "next_frame (joined a body k fr w) = Suc (next_frame w)"
  by (simp add: joined_def)

lemma await_step:
  assumes "at_point a (Await body k) fr w"
  shows "resume_drive a ins w = resume_drive (next_frame w) ins (joined a body k fr w)"
    and "at_point (next_frame w) body (child_frame a body) (joined a body k fr w)"
proof -
  have live: "frames w a = Some fr" "fr_point fr = At (Await body k)" "a < next_frame w"
    using assms fresh_above_live by (auto simp: at_point_def)
  then have "run_frame a w = Inr (joined a body k fr w, Some (next_frame w))"
    by (simp add: run_frame_def with_frame_def get_return_object_def task_ready_def await_suspend_def set_frame_def
        set_continuation_def joined_def child_frame_def fun_upd_twist)
  then show "resume_drive a ins w = resume_drive (next_frame w) ins (joined a body k fr w)"
    by (rule resume_drive_transfer)
  show "at_point (next_frame w) body (child_frame a body) (joined a body k fr w)"
    using live assms by (auto simp: at_point_def joined_def child_frame_def fresh_above_def)
qed

text \<open>The end of a child: its continuation runs, takes the value and destroys the child.\<close>

lemma join_step:
  assumes "at_point a (Await body k) fr w" "next_frame w \<le> n"
  shows "resume_drive (next_frame w) ins (moved (next_frame w) (Return v) (child_frame a body) n (joined a body k fr w)) =
    resume_drive a ins (moved a (k v) fr n w)"
proof -
  let ?c = "next_frame w" and ?w = "moved (next_frame w) (Return v) (child_frame a body) n (joined a body k fr w)"
  let ?done = "child_frame a body\<lparr>fr_value := Some v, fr_point := Final\<rparr>"
  have a: "frames w a = Some fr" "a < ?c" using assms(1) fresh_above_live by (auto simp: at_point_def)
  have c: "frames w ?c = None" using assms(1) fresh_aboveD [of w] by (simp add: at_point_def)
  have 1: "run_frame ?c ?w = Inr (?w\<lparr>frames := (frames ?w)(?c \<mapsto> ?done)\<rparr>, Some a)"
    by (simp add: run_frame_def with_frame_def moved_def joined_def child_frame_def final_suspend_def return_value_def
        set_frame_def Let_def)
  have "((frames w)(?c \<mapsto> x, a \<mapsto> y, ?c := None, a \<mapsto> z)) = (frames w)(a \<mapsto> z)" for x y z
    using a c by auto
  then have 2: "run_frame a (?w\<lparr>frames := (frames ?w)(?c \<mapsto> ?done)\<rparr>) = Inr (moved a (k v) fr n w, Some a)"
    using a c by (auto simp: run_frame_def with_frame_def moved_def joined_def child_frame_def await_resume_def
        task_result_def promise_result_def task_destroy_def destroy_frame_def set_frame_def intro!: world.equality)
  show ?thesis using resume_drive_transfer [OF 1] resume_drive_transfer [OF 2] by simp
qed

text \<open>An awaited child that has computed its value: the parent goes on with it.\<close>

lemma await_done:
  assumes "at_point a (Await body k) fr w"
    and "\<exists>n \<ge> next_frame (joined a body k fr w). resume_drive (next_frame w) ins (joined a body k fr w) =
      resume_drive (next_frame w) mid (moved (next_frame w) (Return u) (child_frame a body) n (joined a body k fr w))"
  obtains n where "n \<ge> next_frame w" "resume_drive a ins w = resume_drive a mid (moved a (k u) fr n w)"
    "at_point a (k u) (fr\<lparr>fr_point := At (k u)\<rparr>) (moved a (k u) fr n w)"
proof -
  obtain n where "n \<ge> Suc (next_frame w)" and r: "resume_drive (next_frame w) ins (joined a body k fr w) =
      resume_drive (next_frame w) mid (moved (next_frame w) (Return u) (child_frame a body) n (joined a body k fr w))"
    using assms(2) by auto
  then have n: "n \<ge> next_frame w" by simp
  show ?thesis
    by (rule that [OF n _ moved_at_point [OF assms(1) n]])
      (simp add: await_step(1) [OF assms(1)] r join_step [OF assms(1) n])
qed

lemma body_computes:
  assumes "eval body ins = Done v rest" "at_point a body fr w"
  shows "\<exists>n \<ge> next_frame w. resume_drive a ins w = resume_drive a rest (moved a (Return v) fr n w)"
  using assms
proof (induction body arbitrary: ins v rest a fr w)
  case (Return u)
  then show ?case using moved_same [of a "Return u" fr w] by (intro exI [of _ "next_frame w"]) simp
next
  case (Io k)
  then obtain x xs where ins: "ins = x # xs" "eval (k x) xs = Done v rest" by (auto split: list.splits)
  let ?w = "moved a (k x) fr (next_frame w) w"
  have "at_point a (k x) (fr\<lparr>fr_point := At (k x)\<rparr>) ?w" by (rule moved_at_point [OF Io.prems(2) order_refl])
  from Io.IH [OF _ ins(2) this] obtain n where
    "n \<ge> next_frame ?w" "resume_drive a xs ?w = resume_drive a rest (moved a (Return v) fr n w)"
    by (auto simp: moved_moved)
  then show ?case using io_step(1) [OF Io.prems(2), of x xs] ins(1) by (intro exI [of _ n]) (simp add: moved_def)
next
  case (Await body k)
  obtain u mid where e: "eval body ins = Done u mid" "eval (k u) mid = Done v rest"
    using Await.prems(1) by (auto split: outcome.splits)
  obtain n where n: "n \<ge> next_frame w" "resume_drive a ins w = resume_drive a mid (moved a (k u) fr n w)"
    "at_point a (k u) (fr\<lparr>fr_point := At (k u)\<rparr>) (moved a (k u) fr n w)"
    by (rule await_done [OF Await.prems(2) Await.IH(1) [OF e(1) await_step(2) [OF Await.prems(2)]]])
  from Await.IH(2) [OF _ e(2) n(3)] obtain m where
    "m \<ge> next_frame (moved a (k u) fr n w)"
    "resume_drive a mid (moved a (k u) fr n w) = resume_drive a rest (moved a (Return v) fr m w)"
    by (auto simp: moved_moved)
  then show ?case using n(1,2) by (intro exI [of _ m]) (simp add: moved_def)
qed simp_all

lemma yield_step:
  assumes "at_point a (Yield v body) fr w"
  shows "run_frame a w = Inr (set_frame a ((yield_value v fr)\<lparr>fr_point := At body\<rparr>) w, None)"
  using assms by (simp add: run_frame_def with_frame_def at_point_def)

lemma throw_step: "at_point a Throw fr w \<Longrightarrow> resume_drive a ins w = Some (Inl Terminated)"
  by (simp add: resume_drive_def resume.simps [of a] run_frame_def with_frame_def at_point_def)

lemma body_throws:
  assumes "eval body ins = Throws" "at_point a body fr w"
  shows "resume_drive a ins w = Some (Inl Terminated)"
  using assms
proof (induction body arbitrary: ins a fr w)
  case (Io k)
  then obtain x xs where ins: "ins = x # xs" "eval (k x) xs = Throws" by (auto split: list.splits)
  show ?case
    using Io.IH [OF _ ins(2) moved_at_point [OF Io.prems(2) order_refl]] io_step(1) [OF Io.prems(2), of x xs] ins(1) by simp
next
  case (Await body k)
  note st = await_step [OF Await.prems(2)]
  show ?case
  proof (cases "eval body ins")
    case (Done u mid)
    obtain n where n: "resume_drive a ins w = resume_drive a mid (moved a (k u) fr n w)"
      "at_point a (k u) (fr\<lparr>fr_point := At (k u)\<rparr>) (moved a (k u) fr n w)"
      by (rule await_done [OF Await.prems(2) body_computes [OF Done st(2)]])
    have "eval (k u) mid = Throws" using Await.prems(1) Done by simp
    from Await.IH(2) [OF _ this n(2)] show ?thesis using n(1) by simp
  qed (use Await.IH(1) [OF _ st(2)] Await.prems(1) st(1) in auto)
qed (auto dest: throw_step)

lemma yield_stops:
  assumes "at_point a (Yield v body) fr w"
  shows "\<exists>w' fr'. resume_drive a ins w = Some (Inr (w', ins)) \<and> stopped_at (Yields (Some v) ins) (fr_value fr) ins w' fr' \<and>
    frames w' a = Some fr' \<and> (\<forall>b < next_frame w. b \<noteq> a \<longrightarrow> frames w' b = frames w b)"
proof -
  let ?fr = "(yield_value v fr)\<lparr>fr_point := At body\<rparr>"
  have "io_waiting (set_frame a ?fr w) = None" using assms by (simp add: set_frame_def at_point_def)
  then have "resume_drive a ins w = Some (Inr (set_frame a ?fr w, ins))"
    using resume_drive_back [OF yield_step [OF assms]] drive_resting by simp
  then show ?thesis using assms
    by (intro exI [of _ "set_frame a ?fr w"] exI [of _ ?fr]) (simp add: set_frame_def yield_value_def at_point_def)
qed

text \<open>A parent stays suspended on a child that has stopped before its end.\<close>

lemma await_stopped:
  assumes "at_point a (Await body k) fr w" "\<nexists>u mid. eval body ins = Done u mid"
    and "\<exists>w' fr' rest. resume_drive (next_frame w) ins (joined a body k fr w) = Some (Inr (w', rest)) \<and>
      stopped_at (eval body ins) (fr_value (child_frame a body)) rest w' fr' \<and> frames w' (next_frame w) = Some fr' \<and>
      (\<forall>b < next_frame (joined a body k fr w). b \<noteq> next_frame w \<longrightarrow> frames w' b = frames (joined a body k fr w) b)"
  shows "\<exists>w' fr' rest. resume_drive a ins w = Some (Inr (w', rest)) \<and> stopped_at (eval (Await body k) ins) (fr_value fr) rest w' fr' \<and>
    frames w' a = Some fr' \<and> (\<forall>b < next_frame w. b \<noteq> a \<longrightarrow> frames w' b = frames w b)"
proof -
  let ?fr = "fr\<lparr>fr_point := Joining (next_frame w) k\<rparr>"
  obtain w' fr' rest where w': "resume_drive (next_frame w) ins (joined a body k fr w) = Some (Inr (w', rest))"
    "stopped_at (eval body ins) None rest w' fr'"
    "\<forall>b < next_frame (joined a body k fr w). b \<noteq> next_frame w \<longrightarrow> frames w' b = frames (joined a body k fr w) b"
    using assms(3) by (auto simp: child_frame_def)
  have "a < next_frame w" using assms(1) fresh_above_live by (auto simp: at_point_def)
  then have "frames w' a = Some ?fr" "\<forall>b < next_frame w. b \<noteq> a \<longrightarrow> frames w' b = frames w b"
    using w'(3) by (simp_all add: joined_def)
  moreover have "stopped_at (eval (Await body k) ins) (fr_value fr) rest w' ?fr"
    using w'(2) assms(2) by (cases "eval body ins") auto
  ultimately show ?thesis using await_step(1) [OF assms(1)] w'(1)
    by (intro exI [of _ w'] exI [of _ ?fr] exI [of _ rest]) simp
qed

lemma body_stops:
  assumes "at_point a body fr w" "eval body ins = Waits \<or> (\<exists>own r. eval body ins = Yields own r)"
  shows "\<exists>w' fr' rest. resume_drive a ins w = Some (Inr (w', rest)) \<and> stopped_at (eval body ins) (fr_value fr) rest w' fr' \<and>
    frames w' a = Some fr' \<and> (\<forall>b < next_frame w. b \<noteq> a \<longrightarrow> frames w' b = frames w b)"
  using assms
proof (induction body arbitrary: ins a fr w)
  case (Io k)
  show ?case
  proof (cases ins)
    case Nil
    then show ?thesis using io_step(2) [OF Io.prems(1)] Io.prems(1)
      by (intro exI [of _ "w\<lparr>io_waiting := Some a\<rparr>"] exI [of _ fr] exI [of _ "[]"]) (simp add: at_point_def)
  next
    case (Cons x xs)
    let ?w = "moved a (k x) fr (next_frame w) w"
    have "at_point a (k x) (fr\<lparr>fr_point := At (k x)\<rparr>) ?w" by (rule moved_at_point [OF Io.prems(1) order_refl])
    moreover have "eval (k x) xs = eval (Io k) ins" using Cons by simp
    ultimately show ?thesis
      using Io.IH [of "k x" a _ ?w xs] Io.prems(2) io_step(1) [OF Io.prems(1), of x xs] Cons by (fastforce simp: moved_def)
  qed
next
  case (Await body k)
  note st = await_step [OF Await.prems(1)]
  show ?case
  proof (cases "\<exists>u mid. eval body ins = Done u mid")
    case False
    then have "eval body ins = Waits \<or> (\<exists>own r. eval body ins = Yields own r)"
      using Await.prems(2) by (auto split: outcome.splits)
    then show ?thesis using await_stopped [OF Await.prems(1) False Await.IH(1) [OF st(2)]] by blast
  next
    case True
    then obtain u mid where e: "eval body ins = Done u mid" by blast
    then have same: "eval (Await body k) ins = eval (k u) mid" by simp
    obtain n where n: "n \<ge> next_frame w" "resume_drive a ins w = resume_drive a mid (moved a (k u) fr n w)"
      "at_point a (k u) (fr\<lparr>fr_point := At (k u)\<rparr>) (moved a (k u) fr n w)"
      by (rule await_done [OF Await.prems(1) body_computes [OF e st(2)]])
    from Await.IH(2) [OF _ n(3), of mid] obtain w' fr' rest where w': "resume_drive a mid (moved a (k u) fr n w) = Some (Inr (w', rest))"
      "stopped_at (eval (k u) mid) (fr_value fr) rest w' fr'" "frames w' a = Some fr'"
      "\<forall>b < next_frame (moved a (k u) fr n w). b \<noteq> a \<longrightarrow> frames w' b = frames (moved a (k u) fr n w) b"
      using Await.prems(2) same by auto
    then have "\<forall>b < next_frame w. b \<noteq> a \<longrightarrow> frames w' b = frames w b" using n(1) by (simp add: moved_def)
    then show ?thesis using n(2) w' same by (intro exI [of _ w'] exI [of _ fr'] exI [of _ rest]) simp
  qed
next
  case (Yield v body)
  then show ?case using yield_stops [OF Yield.prems(1), of ins] by auto
qed simp_all

section \<open>Properties\<close>

definition detached_frame :: "'v co \<Rightarrow> 'v co_frame" where
  "detached_frame body = \<lparr>fr_point = At body, fr_value = None, fr_continuation = None, fr_detached = True, fr_thrd = - 1\<rparr>"

definition detached_world :: "'v co \<Rightarrow> 'v world \<Rightarrow> 'v world" where
  "detached_world body w = w\<lparr>frames := (frames w)(next_frame w \<mapsto> detached_frame body), next_frame := next_frame w + 1\<rparr>"

lemma detach_new:
  "get_return_object body w = (t, w1) \<Longrightarrow>
    t_handle t = Some (next_frame w) \<and> task_ready t w1 = Inr False \<and> task_detach t w1 = Inr (\<lparr>t_handle = None\<rparr>, detached_world body w)"
  by (auto simp: get_return_object_def task_detach_def task_ready_def with_frame_def set_frame_def promise_detach_def
      detached_world_def detached_frame_def)

lemma detached_point:
  "fresh_above w \<Longrightarrow> io_waiting w = None \<Longrightarrow> at_point (next_frame w) body (detached_frame body) (detached_world body w)"
  by (auto simp: at_point_def detached_world_def detached_frame_def fresh_above_def)

lemma detached_finishes:
  assumes "fresh_above w" "io_waiting w = None" "eval body ins = Done v rest"
  shows "\<exists>w'. resume_drive (next_frame w) ins (detached_world body w) = Some (Inr (w', rest)) \<and>
    frames w' = frames w \<and> io_waiting w' = None"
proof -
  let ?a = "next_frame w"
  obtain n where n: "resume_drive ?a ins (detached_world body w) =
      resume_drive ?a rest (moved ?a (Return v) (detached_frame body) n (detached_world body w))"
    using body_computes [OF assms(3) detached_point [OF assms(1,2)]] by blast
  let ?w = "w\<lparr>next_frame := n\<rparr>"
  have "(frames w)(?a := None) = frames w" using fresh_aboveD [OF assms(1)] by auto
  then have r: "run_frame ?a (moved ?a (Return v) (detached_frame body) n (detached_world body w)) = Inr (?w, None)"
    by (simp add: run_frame_def with_frame_def moved_def detached_world_def detached_frame_def final_suspend_def
        return_value_def set_frame_def destroy_frame_def Let_def)
  have "drive rest ?w = Some (Inr (?w, rest))" using assms(2) by (intro drive_resting) simp
  then show ?thesis using n resume_drive_back [OF r] assms(2) by (intro exI [of _ ?w]) simp
qed

text \<open>What a spawned coroutine does when it is resumed and its I/O is answered by \<open>ins\<close>.\<close>

definition spawned_outcome :: "'v outcome \<Rightarrow> (co_error + 'v world \<times> 'v list) option \<Rightarrow> nat \<Rightarrow> 'v world \<Rightarrow> bool" where
  "spawned_outcome out r a w = (case out of
     Done v rest \<Rightarrow> (\<exists>w3. r = Some (Inr (w3, rest)) \<and> frames w3 = frames w \<and> io_waiting w3 = None)
   | Waits \<Rightarrow> (\<exists>w3. r = Some (Inr (w3, [])) \<and> io_waiting w3 \<noteq> None)
   | Yields own rest \<Rightarrow> (\<exists>w3. r = Some (Inr (w3, rest)) \<and> io_waiting w3 = None \<and> frames w3 a \<noteq> None)
   | Throws \<Rightarrow> r = Some (Inl Terminated))"

lemma spawned_runs:
  assumes "fresh_above w" "io_waiting w = None"
  shows "spawned_outcome (eval body ins) (resume_drive (next_frame w) ins (detached_world body w)) (next_frame w) w"
proof -
  note at = detached_point [OF assms, of body]
  show ?thesis
  proof (cases "eval body ins")
    case (Done v rest)
    then show ?thesis using detached_finishes [OF assms] by (simp add: spawned_outcome_def)
  next
    case Throws
    then show ?thesis using body_throws [OF _ at] by (simp add: spawned_outcome_def)
  qed (use body_stops [OF at, of ins] in \<open>auto simp: spawned_outcome_def\<close>)
qed

text \<open>
  Claim C4. A spawned coroutine runs as its body says, with the frames of all tasks it awaits:
  it is detached and placed in exactly one queue of the pool, and when a worker resumes it
  and the event loop delivers the results of its I/O, then it finishes after the results
  that its body takes, with every frame it used destroyed; or it waits for more I/O; or it
  has yielded, and its frame stays allocated with nobody left to resume it; or its
  exception ends the process. No frame is used after its destruction and control always
  comes back.
\<close>

theorem co_spawn_correct:
  assumes "fresh_above w" "io_waiting w = None" "co_wf p" "\<not> co_stopped p" "get_return_object body w = (t, w1)"
  shows "\<exists>t' w2 p' k item. co_spawn rand lock_free t w1 p = Inr (t', w2, Inr p') \<and> t_handle t' = None \<and>
    k < co_thread_num p \<and> co_queues p' = (co_queues p)[k := bq_push item (co_queues p ! k)] \<and>
    spawned_outcome (eval body ins) (resume_drive (handle item) ins w2) (handle item) w"
proof -
  note d = detach_new [OF assms(5)]
  obtain k item p' where p': "ScheduleById rand lock_free (Some (next_frame w)) (- 1) p = Inr p'" "k < co_thread_num p"
    "handle item = next_frame w" "co_queues p' = (co_queues p)[k := bq_push item (co_queues p ! k)]"
    using ScheduleById_placed [OF assms(3,4), of "- 1" rand lock_free "next_frame w"] by auto
  have "co_spawn rand lock_free t w1 p = Inr (\<lparr>t_handle = None\<rparr>, detached_world body w, Inr p')"
    using d p'(1) by (simp add: co_spawn_def)
  then show ?thesis using p'(2-4) spawned_runs [OF assms(1,2), of body ins] by fastforce
qed

definition empty_world :: "'v world" where
  "empty_world = \<lparr>frames = Map.empty, next_frame = 0, io_waiting = None\<rparr>"

definition sum_body :: "nat co" where
  "sum_body = Await (Io Return) (\<lambda>x. Await (Io Return) (\<lambda>y. Return (x + y)))"

theorem co_spawn_correct_witness:
  "\<exists>t' w2 p' item w3. co_spawn 0 (\<lambda>_. False) (fst (get_return_object sum_body empty_world)) (snd (get_return_object sum_body empty_world))
      (new_co_pool 2 8 True) = Inr (t', w2, Inr p') \<and>
    resume_drive (handle (item :: nat task_item)) [3, 4, 5] w2 = Some (Inr (w3, [5])) \<and> frames w3 = Map.empty"
proof -
  have "fresh_above (empty_world :: nat world)" "io_waiting (empty_world :: nat world) = None"
    "co_wf (new_co_pool 2 8 True :: nat co_pool)" "\<not> co_stopped (new_co_pool 2 8 True :: nat co_pool)"
    by (simp_all add: fresh_above_def empty_world_def co_wf_def new_co_pool_def)
  from co_spawn_correct [OF this, of sum_body "fst (get_return_object sum_body empty_world)" "snd (get_return_object sum_body empty_world)"
      0 "\<lambda>_. False" "[3, 4, 5]"]
  show ?thesis by (auto simp: sum_body_def empty_world_def spawned_outcome_def)
qed

text \<open>
  Claim C35. \<open>Task<T>::run\<close> never returns the value that a coroutine it has to start returns.
  The coroutine is detached first, so when it finishes at once its frame is gone and the
  result is read from destroyed memory; when it waits for I/O the result is read before there
  is one. Only a value that the coroutine yields before anything else comes back.
\<close>

theorem task_run_result_dangles:
  assumes "fresh_above w" "io_waiting w = None" "get_return_object body w = (t, w1)"
  shows "\<exists>w'. task_run t w1 = Some (case eval body [] of
    Done v rest \<Rightarrow> Inl UseAfterFree | Waits \<Rightarrow> Inl NoValue | Throws \<Rightarrow> Inl Terminated
  | Yields own rest \<Rightarrow> (case own of None \<Rightarrow> Inl NoValue | Some v \<Rightarrow> Inr (v, w')))"
proof -
  let ?a = "next_frame w" and ?w = "detached_world body w"
  note d = detach_new [OF assms(3)] and at = detached_point [OF assms(1,2), of body]
  have r: "resume ?a ?w = Some (Inr w')" if "resume_drive ?a [] ?w = Some (Inr (w', rest))" for w' rest
    using that by (auto simp: resume_drive_def split: option.splits sum.splits)
  have reads: "task_run t w1 = Some (with_frame w' ?a (\<lambda>fr. try_bind (promise_result fr) (\<lambda>v. Inr (v, w'))))"
    if "resume_drive ?a [] ?w = Some (Inr (w', rest))" for w' rest
    using d r [OF that] by (simp add: task_run_def)
  show ?thesis
  proof (cases "eval body []")
    case (Done v rest)
    then obtain w' where "resume_drive ?a [] ?w = Some (Inr (w', rest))" "frames w' = frames w"
      using detached_finishes [OF assms(1,2)] by blast
    then show ?thesis using reads Done fresh_aboveD [OF assms(1)] by (simp add: with_frame_def)
  next
    case Throws
    then have "resume ?a ?w = Some (Inl Terminated)"
      using body_throws [OF Throws at] by (auto simp: resume_drive_def split: option.splits sum.splits)
    then show ?thesis using d Throws by (simp add: task_run_def)
  next
    case Waits
    then obtain w' fr' where "resume_drive ?a [] ?w = Some (Inr (w', []))" "frames w' ?a = Some fr'" "fr_value fr' = None"
      using body_stops [OF at, of "[]"] by (auto simp: detached_frame_def)
    then show ?thesis using reads Waits by (simp add: with_frame_def promise_result_def)
  next
    case (Yields own rest)
    then obtain w' fr' where "resume_drive ?a [] ?w = Some (Inr (w', rest))" "frames w' ?a = Some fr'" "fr_value fr' = own"
      using body_stops [OF at, of "[]"] by (auto simp: detached_frame_def split: option.splits)
    then show ?thesis using reads Yields by (cases own) (auto simp: with_frame_def promise_result_def)
  qed
qed

theorem task_run_result_dangles_witness:
  "task_run (fst (get_return_object (Return (7 :: nat)) empty_world)) (snd (get_return_object (Return (7 :: nat)) empty_world)) =
    Some (Inl UseAfterFree)"
  using task_run_result_dangles [of "empty_world :: nat world" "Return 7"] by (simp add: fresh_above_def empty_world_def)

section \<open>Generators\<close>

text \<open>A body that yields values before it returns, and an owner of its task who resumes it
  and reads the result, a number of times.\<close>

fun generator :: "'v list \<Rightarrow> 'v \<Rightarrow> 'v co" where
  "generator [] v = Return v"
| "generator (x # xs) v = Yield x (generator xs v)"

fun pulls :: "nat \<Rightarrow> task \<Rightarrow> 'v world \<Rightarrow> (co_error + 'v list \<times> 'v world) option" where
  "pulls 0 t w = Some (Inr ([], w))"
| "pulls (Suc n) t w = (case task_resume t w of
     None \<Rightarrow> None
   | Some (Inl e) \<Rightarrow> Some (Inl e)
   | Some (Inr w') \<Rightarrow> (case task_result t w' of
       Inl e \<Rightarrow> Some (Inl e)
     | Inr x \<Rightarrow> map_option (\<lambda>r. try_bind r (\<lambda>(xs, w''). Inr (x # xs, w''))) (pulls n t w')))"

lemma set_frame_simps [simp]:
  "frames (set_frame a fr w) b = (if b = a then Some fr else frames w b)"
  "set_frame a fr (set_frame a fr' w) = set_frame a fr w"
  by (simp_all add: set_frame_def)

lemma pulls_generator:
  assumes "frames w a = Some fr" "fr_point fr = At (generator xs v)" "fr_continuation fr = None" "\<not> fr_detached fr"
  shows "\<exists>fr'. pulls (Suc (length xs)) \<lparr>t_handle = Some a\<rparr> w = Some (Inr (xs @ [v], set_frame a fr' w)) \<and> fr_point fr' = Final"
  using assms
proof (induction xs arbitrary: fr w)
  case Nil
  let ?fr = "fr\<lparr>fr_value := Some v, fr_point := Final\<rparr>"
  have "resume a w = Some (Inr (set_frame a ?fr w))"
    using Nil by (simp add: resume.simps [of a] run_frame_def with_frame_def final_suspend_def return_value_def Let_def)
  then show ?case by (intro exI [of _ ?fr]) (simp add: task_resume_def task_result_def with_frame_def promise_result_def)
next
  case (Cons x xs)
  let ?fr = "fr\<lparr>fr_value := Some x, fr_point := At (generator xs v)\<rparr>"
  let ?w = "set_frame a ?fr w"
  have "resume a w = Some (Inr ?w)"
    using Cons.prems by (simp add: resume.simps [of a] run_frame_def with_frame_def yield_value_def)
  moreover obtain fr' where "pulls (Suc (length xs)) \<lparr>t_handle = Some a\<rparr> ?w = Some (Inr (xs @ [v], set_frame a fr' w))" "fr_point fr' = Final"
    using Cons.IH [of ?w ?fr] Cons.prems by (auto simp del: pulls.simps)
  ultimately show ?case
    by (intro exI [of _ fr']) (simp add: task_resume_def task_result_def with_frame_def promise_result_def del: pulls.simps
        add: pulls.simps(2) [of "Suc (length xs)"])
qed

text \<open>
  A task whose body yields is a generator: each \<open>resume\<close> of its owner brings the
  next value, the last one the returned value; then the task is ready, and destroying it
  frees exactly its frame.
\<close>

theorem generator_pulled:
  assumes "fresh_above w" "get_return_object (generator xs v) w = (t, w1)"
  shows "\<exists>w2 w3. pulls (length xs + 1) t w1 = Some (Inr (xs @ [v], w2)) \<and> task_ready t w2 = Inr True \<and>
    task_destroy t w2 = Inr w3 \<and> frames w3 = frames w"
proof -
  let ?a = "next_frame w"
  have t: "t = \<lparr>t_handle = Some ?a\<rparr>" "frames w1 = (frames w)(?a \<mapsto> \<lparr>fr_point = At (generator xs v), fr_value = None,
      fr_continuation = None, fr_detached = False, fr_thrd = - 1\<rparr>)"
    using assms(2) by (auto simp: get_return_object_def set_frame_def)
  obtain fr where fr: "pulls (Suc (length xs)) t w1 = Some (Inr (xs @ [v], set_frame ?a fr w1))" "fr_point fr = Final"
    using pulls_generator [of w1 ?a _ xs v] t by (auto simp del: pulls.simps)
  have "(frames w)(?a := None) = frames w" using fresh_aboveD [OF assms(1)] by auto
  then have "task_destroy t (set_frame ?a fr w1) = Inr (w1\<lparr>frames := frames w\<rparr>)"
    using t by (simp add: task_destroy_def destroy_frame_def with_frame_def set_frame_def)
  then show ?thesis using fr t
    by (intro exI [of _ "set_frame ?a fr w1"] exI [of _ "w1\<lparr>frames := frames w\<rparr>"])
      (simp add: task_ready_def with_frame_def del: pulls.simps)
qed

theorem generator_pulled_witness:
  "\<exists>w2. pulls (length [1, 2 :: nat] + 1) (fst (get_return_object (generator [1, 2] (3 :: nat)) empty_world))
      (snd (get_return_object (generator [1, 2] (3 :: nat)) empty_world)) = Some (Inr ([1, 2, 3], w2))"
proof -
  have "fresh_above (empty_world :: nat world)" by (simp add: fresh_above_def empty_world_def)
  from generator_pulled [OF this prod.collapse [symmetric], of "[1, 2]" 3] show ?thesis by (auto simp del: pulls.simps)
qed

section \<open>The coroutine of a connection\<close>

text \<open>
  Coroutines that await one other coroutine and return its result: the handler of a
  connection around the application's \<open>OnRequest\<close>, and the members of the connection around
  the coroutines of \<open>io_awaiter.h\<close>. The value of a \<open>Task<void>\<close> is any value.
\<close>

definition HandleRequest_body :: "'v co \<Rightarrow> 'v co" where
  "HandleRequest_body OnRequest = Await OnRequest Return"

definition TcpConnection_AsyncRead :: "'v co \<Rightarrow> 'v co" where
  "TcpConnection_AsyncRead net_AsyncRead = Await net_AsyncRead (\<lambda>res. Return res)"

definition TcpConnection_AsyncWrite :: "'v co \<Rightarrow> 'v co" where
  "TcpConnection_AsyncWrite net_AsyncWrite = Await net_AsyncWrite (\<lambda>res. Return res)"

definition TcpConnection_AsyncReadPacket :: "'v co \<Rightarrow> 'v co" where
  "TcpConnection_AsyncReadPacket net_AsyncReadPacket = Await net_AsyncReadPacket (\<lambda>res. Return res)"

definition TcpConnection_AsyncWritePacket :: "'v co \<Rightarrow> 'v co" where
  "TcpConnection_AsyncWritePacket net_AsyncWritePacket = Await net_AsyncWritePacket (\<lambda>res. Return res)"

text \<open>\<open>Task<void>::run\<close> ends with \<open>handle.promise().result()\<close> on a frame that may be destroyed, as
  \<open>Task<T>::run\<close> does. For \<open>void\<close> this call has an empty body (\<open>Result<void>::result\<close>) and reads
  nothing of the frame; although C++ leaves any member call on a destroyed object undefined, the
  model takes it to have no effect. The task is returned with its handle, which the destructor of
  the temporary looks at.\<close>

definition task_run_void :: "task \<Rightarrow> 'v world \<Rightarrow> (co_error + task \<times> 'v world) option" where
  "task_run_void t w = (case task_ready t w of
     Inl e \<Rightarrow> Some (Inl e)
   | Inr rdy \<Rightarrow>
       if rdy then Some (Inr (t, w))
       else case t_handle t of
         None \<Rightarrow> Some (Inl NullHandle)
       | Some a \<Rightarrow> (case task_detach t w of
           Inl e \<Rightarrow> Some (Inl e)
         | Inr (t', w1) \<Rightarrow> map_option (\<lambda>r. try_bind r (\<lambda>w2. Inr (t', w2))) (resume a w1)))"

text \<open>What the acceptor commits to the pool for a connection: \<open>HandleRequest(conn).run()\<close>.\<close>

definition handle_connection :: "'v co \<Rightarrow> 'v world \<Rightarrow> (co_error + 'v world) option" where
  "handle_connection OnRequest w =
     (let (t, w1) = get_return_object (HandleRequest_body OnRequest) w in
      map_option (\<lambda>r. try_bind r (\<lambda>(t', w2). task_destroy t' w2)) (task_run_void t w1))"

lemma forward_outcome:
  "eval (Await body Return) ins = (case eval body ins of Yields own rest \<Rightarrow> Yields None rest | out \<Rightarrow> out)"
  by (simp split: outcome.split)

lemma spawned_outcome_forward:
  "spawned_outcome (eval (HandleRequest_body body) ins) r a w = spawned_outcome (eval body ins) r a w"
  by (simp add: HandleRequest_body_def spawned_outcome_def split: outcome.split)

text \<open>The members of a connection have the outcome of the coroutine they wrap, which for the
  coroutines of \<open>io_awaiter.h\<close>, which never yield, is the same outcome.\<close>

lemma connection_members_forward:
  assumes "f \<in> {TcpConnection_AsyncRead, TcpConnection_AsyncWrite, TcpConnection_AsyncReadPacket, TcpConnection_AsyncWritePacket}"
    and "\<And>own rest. eval body ins \<noteq> Yields own rest"
  shows "eval (f body) ins = eval body ins"
  using assms by (auto simp: TcpConnection_AsyncRead_def TcpConnection_AsyncWrite_def TcpConnection_AsyncReadPacket_def
      TcpConnection_AsyncWritePacket_def split: outcome.split)

lemma handle_connection_resumes:
  "handle_connection body w = resume (next_frame w) (detached_world (HandleRequest_body body) w)"
proof -
  obtain t w1 where t: "get_return_object (HandleRequest_body body) w = (t, w1)" by fastforce
  have "task_run_void t w1 = map_option (\<lambda>r. try_bind r (\<lambda>w2. Inr (\<lparr>t_handle = None\<rparr>, w2)))
      (resume (next_frame w) (detached_world (HandleRequest_body body) w))"
    using detach_new [OF t] by (simp add: task_run_void_def)
  then show ?thesis using t
    by (cases "resume (next_frame w) (detached_world (HandleRequest_body body) w)")
      (auto simp: handle_connection_def task_destroy_def try_bind_def split: sum.split)
qed

text \<open>
  Claim C5. The coroutine of a connection, started by a worker with \<open>HandleRequest(conn).run()\<close>
  and continued by the event loop, does what the application's \<open>OnRequest\<close> says: when that
  finishes, exactly the results it takes have been delivered and every frame (its own, the
  handler's around it and those of all tasks it awaited) is destroyed although nobody holds
  the task; until then the coroutine waits for I/O; an exception ends the process.
\<close>

theorem connection_coroutine_correct:
  assumes "fresh_above w" "io_waiting w = None"
  shows "spawned_outcome (eval OnRequest ins)
    (case handle_connection OnRequest w of
       None \<Rightarrow> None | Some (Inl e) \<Rightarrow> Some (Inl e) | Some (Inr w1) \<Rightarrow> drive ins w1) (next_frame w) w"
  using spawned_runs [OF assms, of "HandleRequest_body OnRequest" ins]
  by (simp add: handle_connection_resumes spawned_outcome_forward flip: resume_drive_def)

theorem connection_coroutine_correct_witness:
  "\<exists>w1 w2. handle_connection sum_body empty_world = Some (Inr w1) \<and> drive [3, 4, 5] w1 = Some (Inr (w2, [5])) \<and> frames w2 = Map.empty"
  using connection_coroutine_correct [of "empty_world :: nat world" sum_body "[3, 4, 5]"]
  by (auto simp: fresh_above_def empty_world_def sum_body_def spawned_outcome_def split: option.splits sum.splits)

end
