(* ===== verification/Fair_Co_Pool.thy ===== *)
theory Fair_Co_Pool
  imports Queue_Pools "HOL-Library.Sublist"
begin

text \<open>
  Infinite runs of the coroutine pool under a fair scheduler: a worker that can resume a
  coroutine keeps its chance until it does. Without stealing every worker empties its own
  queue in order; with stealing a worker prefers what it can steal to the front of its own
  queue, and a coroutine scheduled on it may wait forever.

  Taking an item and resuming it is one step: a resumed coroutine gives control back to its worker,
  at its next suspension or at its end. A coroutine that never does would hold its worker and
  all that is queued on it; runs with such coroutines are not among the runs considered here.
\<close>

definition resumes :: "nat \<Rightarrow> 'c co_run \<Rightarrow> 'c co_run \<Rightarrow> bool" where
  "resumes i r r' \<longleftrightarrow> (\<exists>lock_free k item p. i < co_thread_num (cr_pool r) \<and>
     co_worker lock_free i (cr_pool r) = Some (RunTask (k, item), p) \<and>
     r' = r\<lparr>cr_pool := p, cr_ran := cr_ran r @ [(i, handle item)]\<rparr>)"

definition fair_co_run :: "nat \<Rightarrow> (nat \<Rightarrow> 'c co_run) \<Rightarrow> bool" where
  "fair_co_run n rs \<longleftrightarrow> co_inv n (rs 0) \<and> (\<forall>k. co_step\<^sup>=\<^sup>= (rs k) (rs (Suc k))) \<and> (\<forall>i < n. weakly_fair (resumes i) rs)"

text \<open>What a worker has resumed and what waits in its queue.\<close>

definition resumed_by :: "nat \<Rightarrow> 'c co_run \<Rightarrow> ('c \<times> int) list" where
  "resumed_by i r = map snd (filter (\<lambda>e. fst e = i) (cr_ran r))"

definition queued :: "nat \<Rightarrow> 'c co_run \<Rightarrow> ('c \<times> int) list" where
  "queued i r = map handle (bq_queue (co_queues (cr_pool r) ! i))"

section \<open>Without stealing\<close>

lemma co_worker_own:
  assumes "\<not> enable_work_steal p" "co_worker lock_free i p = Some (RunTask (k, item), p')"
  obtains q where "k = i" "p' = p\<lparr>co_queues := (co_queues p)[i := q]\<rparr>" "bq_queue (co_queues p ! i) = item # bq_queue q"
proof -
  obtain q where q: "bq_pop (co_queues p ! i) = Some (Some item, q)" "k = i" "p' = p\<lparr>co_queues := (co_queues p)[i := q]\<rparr>"
    using assms by (auto simp: co_worker_def split: option.splits if_splits)
  then show ?thesis using that [of q] by (auto simp: bq_pop_def split: list.splits if_splits)
qed

lemma co_step_steal: "co_step r r' \<Longrightarrow> enable_work_steal (cr_pool r') = enable_work_steal (cr_pool r)"
proof (induction rule: co_step.induct)
  case (schedule r rand lock_free c tid p)
  then show ?case by (auto simp: ScheduleById_def try_bind_eq_Inr split: if_splits option.splits)
next
  case (run i r lock_free k item p)
  then show ?case by (auto simp: co_worker_def split: option.splits if_splits)
qed (simp add: destroy_co_pool_def)

text \<open>The history of a queue grows at its end.\<close>

lemma co_step_queue:
  assumes "co_step r r'" "co_inv n r" "\<not> enable_work_steal (cr_pool r)" "i < n"
  shows "prefix (resumed_by i r @ queued i r) (resumed_by i r' @ queued i r')"
  using assms
proof (induction rule: co_step.induct)
  case (schedule r rand lock_free c tid p)
  let ?p = "cr_pool r"
  have wf: "co_wf ?p" using schedule.prems by (simp add: co_inv_def)
  obtain k item where "p = ?p\<lparr>co_queues := (co_queues ?p)[k := bq_push item (co_queues ?p ! k)]\<rparr>" "k < co_thread_num ?p"
    by (rule ScheduleById_worker [OF wf schedule.hyps])
  then show ?case using wf by (auto simp: resumed_by_def queued_def bq_push_def nth_list_update co_wf_def)
next
  case (run j r lock_free k item p)
  let ?p = "cr_pool r"
  obtain q where "k = j" "p = ?p\<lparr>co_queues := (co_queues ?p)[j := q]\<rparr>" "bq_queue (co_queues ?p ! j) = item # bq_queue q"
    by (rule co_worker_own [OF run.prems(2) run.hyps(2)])
  then show ?case using run by (auto simp: resumed_by_def queued_def nth_list_update co_inv_def co_wf_def)
next
  case (stop r)
  then show ?case by (auto simp: resumed_by_def queued_def destroy_co_pool_def bq_set_stop_def co_inv_def co_wf_def)
qed

lemma resumes_step: "resumes i r r' \<Longrightarrow> co_step r r'"
  by (auto simp: resumes_def intro: co_step.run)

lemma co_step_ran: "co_step r r' \<Longrightarrow> \<exists>new. cr_ran r' = cr_ran r @ new"
  by (induction rule: co_step.induct) auto

section \<open>Runs\<close>

lemma fair_co_inv: "fair_co_run n rs \<Longrightarrow> co_inv n (rs k)"
  by (induction k) (auto simp: fair_co_run_def dest: co_step_inv)

lemma fair_co_own:
  assumes "fair_co_run n rs" "\<not> enable_work_steal (cr_pool (rs 0))"
  shows "\<not> enable_work_steal (cr_pool (rs k))"
  using assms by (induction k) (auto simp: fair_co_run_def dest: co_step_steal)

lemma fair_co_queue:
  assumes run: "fair_co_run n rs" and own: "\<not> enable_work_steal (cr_pool (rs 0))" and "i < n" "j \<le> k"
  shows "prefix (resumed_by i (rs j) @ queued i (rs j)) (resumed_by i (rs k) @ queued i (rs k))"
  using assms(4)
proof (induction rule: dec_induct)
  case (step k)
  have "co_step (rs k) (rs (Suc k)) \<or> rs (Suc k) = rs k" using run by (auto simp: fair_co_run_def)
  then show ?case
    using step.IH co_step_queue [OF _ fair_co_inv [OF run] fair_co_own [OF run own] \<open>i < n\<close>, of k "rs (Suc k)"]
      prefix_order.order_trans by auto
qed simp

lemma resumed_by_prefix:
  assumes "fair_co_run n rs" "j \<le> k"
  shows "prefix (resumed_by i (rs j)) (resumed_by i (rs k))"
  using assms(2)
proof (induction rule: dec_induct)
  case (step k)
  have "co_step (rs k) (rs (Suc k)) \<or> rs (Suc k) = rs k" using assms(1) by (auto simp: fair_co_run_def)
  then have "prefix (resumed_by i (rs k)) (resumed_by i (rs (Suc k)))"
    using co_step_ran [of "rs k" "rs (Suc k)"] by (auto simp: resumed_by_def)
  with step.IH show ?case by (rule prefix_order.order_trans)
qed simp

lemma resumed_mono: "fair_co_run n rs \<Longrightarrow> mono (\<lambda>k. length (resumed_by i (rs k)))"
  by (intro monoI prefix_length_le resumed_by_prefix)

text \<open>A worker whose queue stays non-empty resumes a coroutine.\<close>

lemma worker_resumes:
  assumes run: "fair_co_run n rs" and "i < n" and queue: "\<And>j. k \<le> j \<Longrightarrow> queued i (rs j) \<noteq> []"
    and own: "\<not> enable_work_steal (cr_pool (rs 0))"
  obtains j where "k \<le> j" "resumes i (rs j) (rs (Suc j))"
proof (rule weakly_fair_taken [where act = "resumes i" and rs = rs and P = "\<lambda>_. True" and k = k])
  fix j assume "k \<le> j"
  then have "bq_queue (co_queues (cr_pool (rs j)) ! i) \<noteq> []" using queue by (simp add: queued_def)
  then show "\<exists>s. resumes i (rs j) s"
    using fair_co_inv [OF run, of j] fair_co_own [OF run own, of j] \<open>i < n\<close>
    by (auto simp: resumes_def co_worker_def bq_pop_def co_inv_def split: list.splits)
qed (use run assms(2) that in \<open>auto simp: fair_co_run_def\<close>)

lemma resumes_length: "resumes i r r' \<Longrightarrow> length (resumed_by i r') = Suc (length (resumed_by i r))"
  by (auto simp: resumes_def resumed_by_def)

lemma queue_drains:
  assumes run: "fair_co_run n rs" and own: "\<not> enable_work_steal (cr_pool (rs 0))" and i: "i < n"
  shows "\<exists>j \<ge> k. length (resumed_by i (rs k) @ queued i (rs k)) \<le> length (resumed_by i (rs j))"
proof (rule ccontr)
  let ?l = "length (resumed_by i (rs k) @ queued i (rs k))"
  assume no: "\<not> (\<exists>j \<ge> k. ?l \<le> length (resumed_by i (rs j)))"
  have bounded: "length (resumed_by i (rs j)) \<le> ?l" for j
    using no [simplified, rule_format, of "max j k"] monoD [OF resumed_mono [OF run], of j "max j k" i] by simp
  obtain j where j: "k \<le> j" "\<forall>m \<ge> j. length (resumed_by i (rs m)) = length (resumed_by i (rs j))"
    by (rule mono_bounded_stable [where k = k, OF resumed_mono [OF run] bounded])
  have "queued i (rs m) \<noteq> []" if "j \<le> m" for m
  proof
    assume "queued i (rs m) = []"
    then have "?l \<le> length (resumed_by i (rs m))"
      using prefix_length_le [OF fair_co_queue [OF run own i, of k m]] that j(1) by simp
    with no that j(1) show False by (meson le_trans)
  qed
  then obtain m where "j \<le> m" "resumes i (rs m) (rs (Suc m))" by (rule worker_resumes [OF run i _ own])
  then show False using j(2) resumes_length by (metis le_SucI n_not_Suc_n)
qed

lemma queue_resumed:
  assumes run: "fair_co_run n rs" and own: "\<not> enable_work_steal (cr_pool (rs 0))" and i: "i < n"
  shows "\<exists>j \<ge> k. prefix (resumed_by i (rs k) @ queued i (rs k)) (resumed_by i (rs j))"
proof -
  obtain j where j: "k \<le> j" "length (resumed_by i (rs k) @ queued i (rs k)) \<le> length (resumed_by i (rs j))"
    using queue_drains [OF assms] by blast
  have "prefix (resumed_by i (rs j)) (resumed_by i (rs j) @ queued i (rs j))" by simp
  from prefix_length_prefix [OF fair_co_queue [OF run own i j(1)] this j(2)]
  have "prefix (resumed_by i (rs k) @ queued i (rs k)) (resumed_by i (rs j))" .
  then show ?thesis using j(1) by blast
qed

section \<open>All workers together\<close>

lemma mset_by_worker:
  assumes "\<forall>e \<in> set xs. fst e < (n :: nat)"
  shows "mset (map snd xs) = (\<Sum>i<n. mset (map snd (filter (\<lambda>e. fst e = i) xs)))"
  using assms
proof (induction xs)
  case (Cons e xs)
  have "(\<Sum>i<n. mset (map snd (filter (\<lambda>e. fst e = i) (e # xs)))) =
      (\<Sum>i<n. (if i = fst e then {#snd e#} else {#}) + mset (map snd (filter (\<lambda>e. fst e = i) xs)))"
    by (intro sum.cong) auto
  moreover have "(\<Sum>i<n. if i = fst e then {#snd e#} else {#}) = {#snd e#}"
    using Cons.prems by simp
  ultimately show ?case using Cons by (simp add: sum.distrib)
qed simp

lemma waiting_by_worker: "co_inv n r \<Longrightarrow> waiting (cr_pool r) = (\<Sum>i<n. mset (queued i r))"
  by (simp add: waiting_def queued_def co_inv_def co_wf_def sum_list_sum_nth lessThan_atLeast0)

lemma resumed_by_worker: "co_inv n r \<Longrightarrow> mset (map snd (cr_ran r)) = (\<Sum>i<n. mset (resumed_by i r))"
  unfolding resumed_by_def by (intro mset_by_worker) (auto simp: co_inv_def)

lemma scheduled_by_worker:
  assumes "co_inv n r"
  shows "mset (cr_scheduled r) = (\<Sum>i<n. mset (resumed_by i r @ queued i r))"
proof -
  have "mset (cr_scheduled r) = mset (map snd (cr_ran r)) + waiting (cr_pool r)" using assms by (simp add: co_inv_def)
  then show ?thesis by (simp only: resumed_by_worker [OF assms] waiting_by_worker [OF assms] mset_append sum.distrib)
qed

lemma sum_mset_mono:
  assumes "\<And>i. i < n \<Longrightarrow> f i \<subseteq># g i"
  shows "(\<Sum>i<n. f i) \<subseteq># (\<Sum>i<(n :: nat). g i)"
  by (rule mset_subset_eqI) (auto simp: count_sum intro!: sum_mono mset_subset_eq_count assms)

lemma scheduled_resumed:
  assumes run: "fair_co_run n rs" and own: "\<not> enable_work_steal (cr_pool (rs 0))"
  shows "\<exists>j \<ge> k. (\<forall>i < n. prefix (resumed_by i (rs k) @ queued i (rs k)) (resumed_by i (rs j))) \<and>
    mset (cr_scheduled (rs k)) \<subseteq># mset (map snd (cr_ran (rs j)))"
proof -
  let ?Q = "\<lambda>i j. prefix (resumed_by i (rs k) @ queued i (rs k)) (resumed_by i (rs j))"
  have "\<exists>j \<ge> k. \<forall>i \<in> {..<n}. ?Q i j"
  proof (rule eventually_all)
    show "\<exists>j \<ge> k. ?Q i j" if "i \<in> {..<n}" for i using queue_resumed [OF run own, of i k] that by simp
    show "?Q i j'" if "j \<le> j'" "?Q i j" for i j j'
      using that resumed_by_prefix [OF run that(1)] prefix_order.order_trans by blast
  qed simp
  then obtain j where j: "k \<le> j" "\<forall>i < n. ?Q i j" by blast
  have "mset (cr_scheduled (rs k)) = (\<Sum>i<n. mset (resumed_by i (rs k) @ queued i (rs k)))"
    using scheduled_by_worker [OF fair_co_inv [OF run]] .
  also have "\<dots> \<subseteq># (\<Sum>i<n. mset (resumed_by i (rs j)))"
    using j(2) by (intro sum_mset_mono) (auto simp: prefix_def)
  also have "\<dots> = mset (map snd (cr_ran (rs j)))" using resumed_by_worker [OF fair_co_inv [OF run]] by simp
  finally show ?thesis using j by blast
qed

section \<open>Properties\<close>

text \<open>A run of a pool with two workers that resumes a coroutine and then rests.\<close>

definition item_of :: "'h \<Rightarrow> bool \<Rightarrow> 'h task_item" where
  "item_of h steal = \<lparr>handle = h, can_steal = steal\<rparr>"

definition co_state :: "bool \<Rightarrow> (nat \<times> int) task_item list \<Rightarrow> (nat \<times> int) task_item list \<Rightarrow>
    (nat \<times> int) list \<Rightarrow> (nat \<times> (nat \<times> int)) list \<Rightarrow> nat co_run" where
  "co_state steal q0 q1 sc rn = \<lparr>cr_pool = \<lparr>co_queues = [new_queue\<lparr>bq_queue := q0\<rparr>, new_queue\<lparr>bq_queue := q1\<rparr>],
     co_thread_num = 2, co_stopped = False, enable_work_steal = steal\<rparr>, cr_scheduled = sc, cr_ran = rn\<rparr>"

lemma co_state_init: "co_state steal [] [] [] [] = new_co_run 2 8 steal"
  by (simp add: co_state_def new_co_run_def new_co_pool_def new_queue_def numeral_2_eq_2)

lemma co_state_inv0: "co_inv 2 (co_state steal [] [] [] [])"
  unfolding co_state_init by (rule co_sys.inv_reachable [where s = "new_co_run 2 8 steal"]) simp_all

lemma co_state_resumes:
  assumes "resumes i (co_state steal q0 q1 sc rn) s"
  shows "(\<exists>item q. q0 = item # q \<and> (i = 0 \<or> can_steal item)) \<or> (\<exists>item q. q1 = item # q \<and> (i = 1 \<or> can_steal item))"
proof -
  let ?p = "cr_pool (co_state steal q0 q1 sc rn)"
  obtain lock_free k item p where w: "i < co_thread_num ?p" "co_worker lock_free i ?p = Some (RunTask (k, item), p)"
    using assms unfolding resumes_def by blast
  have "co_wf ?p" by (simp add: co_wf_def co_state_def)
  then obtain q where "p = ?p\<lparr>co_queues := (co_queues ?p)[k := q]\<rparr>" "bq_queue (co_queues ?p ! k) = item # bq_queue q"
    "k < co_thread_num ?p" "k = i \<or> can_steal item"
    by (rule co_worker_takes [OF _ w])
  then show ?thesis by (auto simp: co_state_def less_2_cases_iff)
qed

definition co_example :: "nat \<Rightarrow> nat co_run" where
  "co_example k = [co_state False [] [] [] [], co_state False [] [item_of (7, 1) False] [(7, 1)] [],
     co_state False [] [] [(7, 1)] [(1, (7, 1))]] ! min k 2"

lemma pinned_step:
  "co_step (co_state steal q0 q1 sc rn) (co_state steal q0 (q1 @ [item_of (c, 1) False]) (sc @ [(c, 1)]) rn)"
proof -
  let ?r = "co_state steal q0 q1 sc rn" and ?r' = "co_state steal q0 (q1 @ [item_of (c, 1) False]) (sc @ [(c, 1)]) rn"
  have "ScheduleById 0 (\<lambda>_. True) (Some (c, 1)) 1 (cr_pool ?r) = Inr (cr_pool ?r')"
    by (simp add: ScheduleById_def co_state_def push_at_def bq_push_def item_of_def)
  from co_step.schedule [OF _ this] show ?thesis by (simp add: co_state_def)
qed

lemma co_example_fair: "fair_co_run 2 co_example"
proof -
  have rest: "co_example k = co_state False [] [] [(7, 1)] [(1, (7, 1))]" if "2 \<le> k" for k
    using that by (simp add: co_example_def)
  have idle: "\<nexists>s. resumes i (co_state False [] [] [(7, 1)] [(1, (7, 1))]) s" for i
    using co_state_resumes by blast
  have run: "co_step (co_state False [] [item_of (7, 1) False] [(7, 1)] []) (co_state False [] [] [(7, 1)] [(1, (7, 1))])"
    using co_step.run [of 1 "co_state False [] [item_of (7, 1) False] [(7, 1)] []" "\<lambda>_. True" 1 "item_of (7, 1) False"
        "cr_pool (co_state False [] [] [(7, 1)] [(1, (7, 1))])"]
    by (simp add: co_state_def co_worker_def bq_pop_def item_of_def)
  have "co_step\<^sup>=\<^sup>= (co_example k) (co_example (Suc k))" for k
  proof -
    consider "k = 0" | "k = 1" | "2 \<le> k" by linarith
    then show ?thesis
    proof cases
      case 1
      then show ?thesis using pinned_step [of False "[]" "[]" "[]" "[]" 7] by (simp add: co_example_def)
    next
      case 2
      then show ?thesis using run by (simp add: co_example_def)
    qed (simp add: rest)
  qed
  moreover have "weakly_fair (resumes i) co_example" for i
    by (rule weakly_fair_rest [where m = 2 and r = "co_state False [] [] [(7, 1)] [(1, (7, 1))]"]) (rule rest, assumption, rule idle)
  moreover have "co_inv 2 (co_example 0)" using co_state_inv0 by (simp add: co_example_def)
  ultimately show ?thesis by (simp add: fair_co_run_def)
qed

text \<open>
  Claim C22. Without stealing, and under a fair scheduler, no coroutine waits forever: when every
  resumed coroutine gives control back to its worker, then in an infinite run in which a worker that can resume a coroutine eventually does, every
  coroutine scheduled at any time is resumed later, and each worker resumes what waits in
  its queue in the order of the queue.
\<close>

theorem scheduled_coroutines_resumed:
  assumes "fair_co_run n rs" "\<not> enable_work_steal (cr_pool (rs 0))"
  shows "\<exists>j \<ge> k. (\<forall>i < n. prefix (resumed_by i (rs k) @ queued i (rs k)) (resumed_by i (rs j))) \<and>
    mset (cr_scheduled (rs k)) \<subseteq># mset (map snd (cr_ran (rs j)))"
  using assms by (rule scheduled_resumed)

theorem scheduled_coroutines_resumed_witness:
  "\<exists>j \<ge> 1. mset (cr_scheduled (co_example 1)) \<subseteq># mset (map snd (cr_ran (co_example j))) \<and> cr_scheduled (co_example 1) = [(7, 1)]"
proof -
  have "\<not> enable_work_steal (cr_pool (co_example 0))" by (simp add: co_example_def co_state_def)
  from scheduled_coroutines_resumed [OF co_example_fair this, of 1]
  obtain j where "j \<ge> 1" "mset (cr_scheduled (co_example 1)) \<subseteq># mset (map snd (cr_ran (co_example j)))" by blast
  moreover have "cr_scheduled (co_example 1) = [(7, 1)]" by (simp add: co_example_def co_state_def)
  ultimately show ?thesis by blast
qed

section \<open>With stealing\<close>

text \<open>
  The coroutine 7 is scheduled on worker 1. Then, again and again, the coroutine 5 is
  scheduled on any worker, goes to the first queue and is stolen by worker 1.
\<close>

definition starving_wait :: "nat \<Rightarrow> nat co_run" where
  "starving_wait m = co_state True [] [item_of (7, 1) False] ((7, 1) # replicate m (5, - 1)) (replicate m (1, (5, - 1)))"

definition starving_busy :: "nat \<Rightarrow> nat co_run" where
  "starving_busy m =
     co_state True [item_of (5, - 1) True] [item_of (7, 1) False] ((7, 1) # replicate (Suc m) (5, - 1)) (replicate m (1, (5, - 1)))"

definition starving :: "nat \<Rightarrow> nat co_run" where
  "starving k = (case k of 0 \<Rightarrow> co_state True [] [] [] []
     | Suc j \<Rightarrow> if even j then starving_wait (j div 2) else starving_busy (j div 2))"

lemma starving_schedule: "co_step (starving_wait m) (starving_busy m)"
proof -
  have "ScheduleById 0 (\<lambda>_. True) (Some (5, - 1)) (- 1) (cr_pool (starving_wait m)) = Inr (cr_pool (starving_busy m))"
    by (simp add: ScheduleById_def starving_wait_def starving_busy_def co_state_def bq_try_push_def bq_push_def item_of_def
        upt_rec new_queue_def)
  from co_step.schedule [OF _ this] show ?thesis
    by (simp add: starving_wait_def starving_busy_def co_state_def replicate_append_same)
qed

lemma starving_steal: "resumes 1 (starving_busy m) (starving_wait (Suc m))"
proof -
  have "co_worker (\<lambda>_. True) 1 (cr_pool (starving_busy m)) = Some (RunTask (0, item_of (5, - 1) True), cr_pool (starving_wait (Suc m)))"
    by (simp add: co_worker_def starving_wait_def starving_busy_def co_state_def bq_try_pop_if_def item_of_def upt_rec new_queue_def)
  moreover have "1 < co_thread_num (cr_pool (starving_busy m))" by (simp add: starving_busy_def co_state_def)
  moreover have "starving_wait (Suc m) = starving_busy m\<lparr>cr_pool := cr_pool (starving_wait (Suc m)),
      cr_ran := cr_ran (starving_busy m) @ [(1, handle (item_of (5, - 1) True))]\<rparr>"
    by (simp add: starving_wait_def starving_busy_def co_state_def item_of_def replicate_append_same)
  ultimately show ?thesis unfolding resumes_def by blast
qed

lemma starving_run: "co_step (starving k) (starving (Suc k))"
proof (cases k)
  case 0
  then show ?thesis using pinned_step [of True "[]" "[]" "[]" "[]" 7] by (simp add: starving_def starving_wait_def)
next
  case (Suc j)
  have steal: "co_step (starving_busy m) (starving_wait (Suc m))" for m
    by (rule resumes_step [OF starving_steal])
  show ?thesis
    using Suc starving_schedule [of "j div 2"] steal [of "j div 2"] by (auto simp: starving_def elim!: oddE)
qed

lemma starving_fair: "fair_co_run 2 starving"
proof -
  have at: "starving (2 * k + 1) = starving_wait k" "starving (2 * k + 2) = starving_busy k" for k
    by (simp_all add: starving_def)
  have "weakly_fair (resumes 0) starving" unfolding weakly_fair_def
  proof
    fix k
    have "\<nexists>s. resumes 0 (starving_wait k) s"
      using co_state_resumes unfolding starving_wait_def item_of_def by fastforce
    then show "\<exists>j \<ge> k. (\<nexists>s. resumes 0 (starving j) s) \<or> resumes 0 (starving j) (starving (Suc j))"
      using at(1) [of k] by (intro exI [of _ "2 * k + 1"]) simp
  qed
  moreover have "weakly_fair (resumes 1) starving" unfolding weakly_fair_def
  proof
    fix k
    have "resumes 1 (starving (2 * k + 2)) (starving (Suc (2 * k + 2)))"
      using starving_steal [of k] at(2) [of k] at(1) [of "Suc k"] by simp
    then show "\<exists>j \<ge> k. (\<nexists>s. resumes 1 (starving j) s) \<or> resumes 1 (starving j) (starving (Suc j))"
      by (intro exI [of _ "2 * k + 2"]) simp
  qed
  moreover have "co_inv 2 (starving 0)" using co_state_inv0 by (simp add: starving_def)
  ultimately show ?thesis using starving_run by (auto simp: fair_co_run_def less_2_cases_iff)
qed

text \<open>
  Claim C33. With stealing, fairness is not enough: a worker looks for something to steal
  before it looks at the front of its own queue, so a coroutine scheduled on it may wait
  forever. There is a run of a pool with two workers, from its creation and fair to both,
  in which the worker keeps resuming stolen coroutines and never the one scheduled on it.
\<close>

theorem stealing_starves_pinned_coroutine:
  "\<exists>rs :: nat \<Rightarrow> nat co_run. rs 0 = new_co_run 2 8 True \<and> fair_co_run 2 rs \<and> (7, 1) \<in> set (cr_scheduled (rs 1)) \<and>
    (\<forall>k. (7, 1) \<notin> set (map snd (cr_ran (rs k)))) \<and> (\<forall>m. \<exists>k. m \<le> length (resumed_by 1 (rs k)))"
proof (intro exI [of _ starving] conjI allI)
  show "starving 0 = new_co_run 2 8 True" using co_state_init by (simp add: starving_def)
  show "(7, 1) \<in> set (cr_scheduled (starving 1))" by (simp add: starving_def starving_wait_def co_state_def)
  show "(7, 1) \<notin> set (map snd (cr_ran (starving k)))" for k
    by (auto simp: starving_def starving_wait_def starving_busy_def co_state_def split: nat.splits if_splits)
  show "\<exists>k. m \<le> length (resumed_by 1 (starving k))" for m
    by (intro exI [of _ "2 * m + 1"]) (simp add: starving_def starving_wait_def co_state_def resumed_by_def filter_replicate)
qed (rule starving_fair)

end
