(* ===== verification/Io_Buffer.thy ===== *)
theory Io_Buffer
  imports Luce_Prelude
begin

text \<open>
  Buffers and their memory pool: \<open>luce/io/io_buffer.{h,cpp}\<close>.

  A buffer is its memory and two \<open>size_t\<close> indices. The pool keeps one free list per size
  class. What freshly allocated memory contains is the parameter \<open>fresh\<close>. \<open>exit(1)\<close>, a
  failed assertion and a copy past the end of a buffer are errors.
\<close>

datatype buf_error = OutOfMemory | UnknownCapacity | CopyOverrun

section \<open>Buffers\<close>

record iobuf =
  buf_capacity :: nat
  buf_length :: u64
  buf_head :: u64
  buf_data :: bytes

definition IOBuf :: "(nat \<Rightarrow> bytes) \<Rightarrow> nat \<Rightarrow> iobuf" where
  "IOBuf fresh sz = \<lparr>buf_capacity = sz, buf_length = 0, buf_head = 0, buf_data = fresh sz\<rparr>"

definition Clear :: "iobuf \<Rightarrow> iobuf" where
  "Clear b = b\<lparr>buf_length := 0, buf_head := 0\<rparr>"

text \<open>\<open>memmove\<close> and \<open>memcpy\<close> to the start of the memory.\<close>

definition move_front :: "bytes \<Rightarrow> iobuf \<Rightarrow> iobuf" where
  "move_front bs b = b\<lparr>buf_data := bs @ drop (length bs) (buf_data b)\<rparr>"

definition Adjust :: "iobuf \<Rightarrow> iobuf" where
  "Adjust b =
     (if buf_head b \<noteq> 0
      then (if buf_length b \<noteq> 0
            then move_front (take (unat (buf_length b)) (drop (unat (buf_head b)) (buf_data b))) b
            else b)\<lparr>buf_head := 0\<rparr>
      else b)"

definition Copy :: "iobuf \<Rightarrow> iobuf \<Rightarrow> buf_error + iobuf" where
  "Copy other b =
     (if unat (buf_length other) \<le> buf_capacity b
      then Inr ((move_front (take (unat (buf_length other)) (drop (unat (buf_head other)) (buf_data other))) b)
             \<lparr>buf_head := 0, buf_length := buf_length other\<rparr>)
      else Inl CopyOverrun)"

definition buf_pop :: "u64 \<Rightarrow> iobuf \<Rightarrow> iobuf" where
  "buf_pop len b = b\<lparr>buf_length := buf_length b - len, buf_head := buf_head b + len\<rparr>"

section \<open>Size classes\<close>

datatype mem_cap = m4K | m16K | m64K | m256K | m1M | m4M | m8M

fun cap_bytes :: "mem_cap \<Rightarrow> nat" where
  "cap_bytes m4K = 4096"
| "cap_bytes m16K = 16384"
| "cap_bytes m64K = 65536"
| "cap_bytes m256K = 262144"
| "cap_bytes m1M = 1048576"
| "cap_bytes m4M = 4194304"
| "cap_bytes m8M = 8388608"

definition all_caps :: "mem_cap list" where
  "all_caps = [m4K, m16K, m64K, m256K, m1M, m4M, m8M]"

instantiation mem_cap :: linorder
begin

definition less_eq_mem_cap :: "mem_cap \<Rightarrow> mem_cap \<Rightarrow> bool" where
  "less_eq_mem_cap a b \<longleftrightarrow> cap_bytes a \<le> cap_bytes b"

definition less_mem_cap :: "mem_cap \<Rightarrow> mem_cap \<Rightarrow> bool" where
  "less_mem_cap a b \<longleftrightarrow> cap_bytes a < cap_bytes b"

instance
proof
  fix a b c :: mem_cap
  show "a < b \<longleftrightarrow> a \<le> b \<and> \<not> b \<le> a" by (auto simp: less_eq_mem_cap_def less_mem_cap_def)
  show "a \<le> a" by (simp add: less_eq_mem_cap_def)
  show "a \<le> b \<Longrightarrow> b \<le> c \<Longrightarrow> a \<le> c" by (simp add: less_eq_mem_cap_def)
  show "a \<le> b \<Longrightarrow> b \<le> a \<Longrightarrow> a = b" by (cases a; cases b) (simp_all add: less_eq_mem_cap_def)
  show "a \<le> b \<or> b \<le> a" by (auto simp: less_eq_mem_cap_def)
qed

end

section \<open>The pool\<close>

definition MEM_LIMIT :: nat where "MEM_LIMIT = 5 * 1024 * 1024"

record buf_pool =
  pool_free :: "mem_cap \<Rightarrow> iobuf list"
  total_mem :: nat

definition AllocPoolMem :: "(nat \<Rightarrow> bytes) \<Rightarrow> mem_cap \<Rightarrow> nat \<Rightarrow> buf_pool \<Rightarrow> buf_pool" where
  "AllocPoolMem fresh c num p =
     p\<lparr>pool_free := (pool_free p)(c := IOBuf fresh (cap_bytes c) # replicate (num - 1) (IOBuf fresh (cap_bytes c)))\<rparr>"

definition pool_batch :: "(nat \<Rightarrow> bytes) \<Rightarrow> mem_cap \<times> nat \<Rightarrow> buf_pool \<Rightarrow> buf_pool" where
  "pool_batch fresh = (\<lambda>(c, num) p. let p' = AllocPoolMem fresh c num p in
     p'\<lparr>total_mem := total_mem p' + cap_bytes c div 1024 * num\<rparr>)"

definition pool_plan :: "(mem_cap \<times> nat) list" where
  "pool_plan = [(m4K, 5000), (m16K, 1000), (m64K, 500), (m256K, 200), (m1M, 50), (m4M, 20), (m8M, 10)]"

definition BufPool :: "(nat \<Rightarrow> bytes) \<Rightarrow> buf_pool" where
  "BufPool fresh = fold (pool_batch fresh) pool_plan \<lparr>pool_free = (\<lambda>_. []), total_mem = 0\<rparr>"

definition size_class :: "int \<Rightarrow> mem_cap option" where
  "size_class N =
     (if N \<le> int (cap_bytes m4K) then Some m4K
      else if N \<le> int (cap_bytes m16K) then Some m16K
      else if N \<le> int (cap_bytes m64K) then Some m64K
      else if N \<le> int (cap_bytes m256K) then Some m256K
      else if N \<le> int (cap_bytes m1M) then Some m1M
      else if N \<le> int (cap_bytes m4M) then Some m4M
      else if N \<le> int (cap_bytes m8M) then Some m8M
      else None)"

text \<open>The result \<open>Inr (None, p)\<close> is the null pointer.\<close>

definition AllocBuf :: "(nat \<Rightarrow> bytes) \<Rightarrow> int \<Rightarrow> buf_pool \<Rightarrow> buf_error + iobuf option \<times> buf_pool" where
  "AllocBuf fresh N p = (case size_class N of
     None \<Rightarrow> Inr (None, p)
   | Some key \<Rightarrow> (case pool_free p key of
       [] \<Rightarrow> if total_mem p + cap_bytes key div 1024 \<ge> MEM_LIMIT then Inl OutOfMemory
             else Inr (Some (IOBuf fresh (cap_bytes key)), p\<lparr>total_mem := total_mem p + cap_bytes key div 1024\<rparr>)
     | target # rest \<Rightarrow> Inr (Some target, p\<lparr>pool_free := (pool_free p)(key := rest)\<rparr>)))"

definition cap_of :: "nat \<Rightarrow> mem_cap option" where
  "cap_of n = List.find (\<lambda>c. cap_bytes c = n) all_caps"

definition Revert :: "iobuf \<Rightarrow> buf_pool \<Rightarrow> buf_error + buf_pool" where
  "Revert b p = (case cap_of (buf_capacity b) of
     None \<Rightarrow> Inl UnknownCapacity
   | Some key \<Rightarrow> Inr (p\<lparr>pool_free := (pool_free p)(key := b\<lparr>buf_head := 0, buf_length := 0\<rparr> # pool_free p key)\<rparr>))"

section \<open>Buffer contents\<close>

text \<open>The abstract value of a buffer is its unprocessed data.\<close>

definition content :: "iobuf \<Rightarrow> bytes" where
  "content b = take (unat (buf_length b)) (drop (unat (buf_head b)) (buf_data b))"

definition buf_ok :: "iobuf \<Rightarrow> bool" where
  "buf_ok b \<longleftrightarrow> length (buf_data b) = buf_capacity b \<and> unat (buf_head b) + unat (buf_length b) \<le> buf_capacity b \<and>
     buf_capacity b < 2 ^ 64"

lemma content_move_front:
  assumes "length bs \<le> length (buf_data b)"
  shows "content ((move_front bs b)\<lparr>buf_head := 0, buf_length := n\<rparr>) = take (unat n) (bs @ drop (length bs) (buf_data b))"
  by (simp add: content_def move_front_def)

lemma unat_sub_le: "(len :: u64) \<le> n \<Longrightarrow> unat (n - len) = unat n - unat len"
  by (simp add: unat_sub)

lemma unat_add_head:
  assumes "buf_ok b" "len \<le> buf_length b"
  shows "unat (buf_head b + len) = unat (buf_head b) + unat len"
proof -
  have "unat len \<le> unat (buf_length b)" using assms(2) by (simp add: word_le_nat_alt)
  then have "unat (buf_head b) + unat len < 2 ^ 64" using assms(1) by (simp add: buf_ok_def)
  then show ?thesis by (simp add: unat_word_ariths)
qed

section \<open>Pool invariant\<close>

lemma cap_of_cap_bytes [simp]: "cap_of (cap_bytes c) = Some c"
  by (cases c) (simp_all add: cap_of_def all_caps_def)

definition kb :: "iobuf \<Rightarrow> nat" where
  "kb b = buf_capacity b div 1024"

text \<open>The memory accounted for is that of the free lists and of the buffers handed out.\<close>

definition pool_ok :: "buf_pool \<times> iobuf list \<Rightarrow> bool" where
  "pool_ok = (\<lambda>(p, out).
     (\<forall>c. \<forall>b \<in> set (pool_free p c). buf_capacity b = cap_bytes c \<and> content b = []) \<and>
     (\<forall>b \<in> set out. \<exists>c. buf_capacity b = cap_bytes c) \<and>
     total_mem p = (\<Sum>c\<leftarrow>all_caps. \<Sum>b\<leftarrow>pool_free p c. kb b) + (\<Sum>b\<leftarrow>out. kb b) \<and>
     total_mem p < MEM_LIMIT)"

inductive buf_step :: "(nat \<Rightarrow> bytes) \<Rightarrow> buf_pool \<times> iobuf list \<Rightarrow> buf_pool \<times> iobuf list \<Rightarrow> bool" for fresh where
  alloc: "AllocBuf fresh N p = Inr (Some b, p') \<Longrightarrow> buf_step fresh (p, out) (p', b # out)"
| too_big: "AllocBuf fresh N p = Inr (None, p') \<Longrightarrow> buf_step fresh (p, out) (p', out)"
| fill: "buf_capacity b' = buf_capacity b \<Longrightarrow> buf_step fresh (p, xs @ b # ys) (p, xs @ b' # ys)"
| revert: "Revert b p = Inr p' \<Longrightarrow> buf_step fresh (p, xs @ b # ys) (p', xs @ ys)"

lemma sum_caps_update:
  fixes f :: "'a \<Rightarrow> nat"
  shows "(\<Sum>c\<leftarrow>all_caps. f ((g(key := x)) c)) + f (g key) = (\<Sum>c\<leftarrow>all_caps. f (g c)) + f x"
  by (cases key) (simp_all add: all_caps_def)

lemma content_empty [simp]: "buf_length b = 0 \<Longrightarrow> content b = []"
  by (simp add: content_def)

lemma AllocBuf_ok [step_inv]:
  assumes "pool_ok (p, out)" "AllocBuf fresh N p = Inr (Some b, p')"
  shows "pool_ok (p', b # out) \<and> (\<exists>c. size_class N = Some c \<and> buf_capacity b = cap_bytes c) \<and> content b = []"
proof -
  obtain key where key: "size_class N = Some key" using assms(2) by (auto simp: AllocBuf_def split: option.splits)
  show ?thesis
  proof (cases "pool_free p key")
    case Nil
    then show ?thesis using assms key by (auto simp: AllocBuf_def pool_ok_def IOBuf_def kb_def split: if_splits)
  next
    case (Cons t rest)
    then have b: "b = t" and p': "p' = p\<lparr>pool_free := (pool_free p)(key := rest)\<rparr>"
      using assms(2) key by (auto simp: AllocBuf_def)
    from assms(1) have ok: "\<And>c b. b \<in> set (pool_free p c) \<Longrightarrow> buf_capacity b = cap_bytes c \<and> content b = []"
      "\<forall>b \<in> set out. \<exists>c. buf_capacity b = cap_bytes c"
      "total_mem p = (\<Sum>c\<leftarrow>all_caps. \<Sum>b\<leftarrow>pool_free p c. kb b) + (\<Sum>b\<leftarrow>out. kb b)" "total_mem p < MEM_LIMIT"
      by (auto simp: pool_ok_def)
    have t: "buf_capacity t = cap_bytes key \<and> content t = []" using ok(1) [of t key] Cons by simp
    have "buf_capacity x = cap_bytes c \<and> content x = []" if "x \<in> set (pool_free p' c)" for c x
      using ok(1) [of x c] that Cons p' by (cases "c = key") auto
    moreover have "total_mem p' = (\<Sum>c\<leftarrow>all_caps. \<Sum>b\<leftarrow>pool_free p' c. kb b) + (\<Sum>b\<leftarrow>b # out. kb b)"
      using sum_caps_update [where f = "\<lambda>bs. \<Sum>b\<leftarrow>bs. kb b" and g = "pool_free p" and key = key and x = rest] ok(3) p' b Cons
      by simp
    ultimately have "pool_ok (p', b # out)" using ok(2,4) t b p' unfolding pool_ok_def by auto
    then show ?thesis using t b key by blast
  qed
qed

lemma Revert_ok [step_inv]:
  assumes "pool_ok (p, xs @ b # ys)" "Revert b p = Inr p'"
  shows "pool_ok (p', xs @ ys)"
proof -
  let ?b = "b\<lparr>buf_head := 0, buf_length := 0\<rparr>"
  obtain key where key: "buf_capacity b = cap_bytes key" using assms(1) by (auto simp: pool_ok_def)
  then have p': "p' = p\<lparr>pool_free := (pool_free p)(key := ?b # pool_free p key)\<rparr>"
    using assms(2) by (simp add: Revert_def)
  have "kb ?b = kb b" by (simp add: kb_def)
  then show ?thesis
    using assms(1) key p' sum_caps_update [where f = "\<lambda>bs. \<Sum>b\<leftarrow>bs. kb b" and g = "pool_free p" and key = key and x = "?b # pool_free p key"]
    by (auto simp: pool_ok_def)
qed

lemma buf_step_ok: "buf_step fresh s t \<Longrightarrow> pool_ok s \<Longrightarrow> pool_ok t"
proof (induction rule: buf_step.induct)
  case (alloc N p b p' out)
  then show ?case using AllocBuf_ok by blast
next
  case (too_big N p p' out)
  then have "p' = p" by (auto simp: AllocBuf_def split: option.splits list.splits if_splits)
  then show ?case using too_big by simp
next
  case (fill b' b p xs ys)
  then show ?case by (auto simp: pool_ok_def kb_def)
next
  case (revert b p p' xs ys)
  then show ?case using Revert_ok by blast
qed

lemma BufPool_ok: "pool_ok (BufPool fresh, [])"
proof -
  have sum: "(\<Sum>b\<leftarrow>replicate n (IOBuf fresh m). kb b) = n * (m div 1024)" for n m
    by (induction n) (simp_all add: kb_def IOBuf_def)
  have free: "pool_free (BufPool fresh) c = replicate (the (map_of pool_plan c)) (IOBuf fresh (cap_bytes c))" for c
    by (cases c) (simp_all add: BufPool_def pool_plan_def pool_batch_def AllocPoolMem_def Let_def flip: replicate_Suc)
  have "total_mem (BufPool fresh) = 334240"
    by (simp add: BufPool_def pool_plan_def pool_batch_def AllocPoolMem_def Let_def)
  moreover have "(\<Sum>c\<leftarrow>all_caps. \<Sum>b\<leftarrow>pool_free (BufPool fresh) c. kb b) = 334240"
    by (simp only: free sum) (simp add: all_caps_def pool_plan_def)
  ultimately show ?thesis
    by (auto simp: pool_ok_def free IOBuf_def MEM_LIMIT_def)
qed

interpretation buf_sys: step_system "\<lambda>s. s = (BufPool fresh, [])" "buf_step fresh" pool_ok for fresh
  by unfold_locales (use BufPool_ok buf_step_ok in auto)

section \<open>Properties\<close>

text \<open>
  Claim C27. The buffer operations work on the unprocessed data: \<open>pop\<close> drops processed bytes,
  \<open>Adjust\<close> moves the rest to the front without changing it, \<open>Copy\<close> takes over the data of
  another buffer that fits, \<open>Clear\<close> drops everything; each keeps the indices in bounds.
\<close>

theorem buffer_operations_refine:
  assumes "buf_ok b" "buf_ok other" "len \<le> buf_length b" "unat (buf_length other) \<le> buf_capacity b"
  shows "content (buf_pop len b) = drop (unat len) (content b) \<and> buf_ok (buf_pop len b) \<and>
    content (Adjust b) = content b \<and> buf_head (Adjust b) = 0 \<and> buf_ok (Adjust b) \<and>
    (\<exists>b'. Copy other b = Inr b' \<and> content b' = content other \<and> buf_ok b') \<and>
    content (Clear b) = [] \<and> buf_ok (Clear b)"
proof -
  have len: "unat len \<le> unat (buf_length b)" using assms(3) by (simp add: word_le_nat_alt)
  have pop: "content (buf_pop len b) = drop (unat len) (content b)" "buf_ok (buf_pop len b)"
    using unat_sub_le [OF assms(3)] unat_add_head [OF assms(1,3)] assms(1) len
    by (simp_all add: buf_pop_def content_def buf_ok_def drop_take add.commute)
  have adj: "content (Adjust b) = content b" "buf_head (Adjust b) = 0" "buf_ok (Adjust b)"
    using assms(1) by (auto simp: Adjust_def content_def move_front_def buf_ok_def)
  have cp: "\<exists>b'. Copy other b = Inr b' \<and> content b' = content other \<and> buf_ok b'"
    using assms(1,2,4) by (auto simp: Copy_def content_def move_front_def buf_ok_def)
  have "content (Clear b) = [] \<and> buf_ok (Clear b)" using assms(1) by (simp add: Clear_def buf_ok_def)
  with pop adj cp show ?thesis by blast
qed

theorem buffer_operations_refine_witness:
  "content (buf_pop 1 \<lparr>buf_capacity = 4, buf_length = 2, buf_head = 1, buf_data = [1, 2, 3, 4]\<rparr>) =
     drop (unat (1 :: u64)) (content \<lparr>buf_capacity = 4, buf_length = 2, buf_head = 1, buf_data = [1, 2, 3, 4]\<rparr>)"
  using buffer_operations_refine [of "\<lparr>buf_capacity = 4, buf_length = 2, buf_head = 1, buf_data = [1, 2, 3, 4]\<rparr>"
      "\<lparr>buf_capacity = 4, buf_length = 2, buf_head = 1, buf_data = [1, 2, 3, 4]\<rparr>" 1]
  by (simp add: buf_ok_def)

text \<open>
  Claim C26. In every state of the pool the memory it accounts for is exactly that of the free
  buffers and of the buffers handed out, and it stays below the limit. A request for at
  most 8M gives an empty buffer of the smallest class that fits.
\<close>

theorem pool_accounting:
  assumes "(buf_step fresh)\<^sup>*\<^sup>* (BufPool fresh, []) (p, out)" "AllocBuf fresh N p = Inr (Some b, p')"
  shows "total_mem p = (\<Sum>c\<leftarrow>all_caps. \<Sum>b\<leftarrow>pool_free p c. kb b) + (\<Sum>b\<leftarrow>out. kb b) \<and> total_mem p < MEM_LIMIT \<and>
    content b = [] \<and> (\<exists>c. buf_capacity b = cap_bytes c \<and> N \<le> int (cap_bytes c) \<and> (\<forall>d. N \<le> int (cap_bytes d) \<longrightarrow> c \<le> d))"
proof -
  have ok: "pool_ok (p, out)" by (rule buf_sys.inv_reachable [OF refl assms(1)])
  obtain c where c: "size_class N = Some c" "buf_capacity b = cap_bytes c" "content b = []"
    using AllocBuf_ok [OF ok assms(2)] by blast
  have "N \<le> int (cap_bytes c)" using c(1) by (auto simp: size_class_def split: if_splits)
  moreover have "c \<le> d" if "N \<le> int (cap_bytes d)" for d
    using c(1) that by (cases d) (auto simp: size_class_def less_eq_mem_cap_def split: if_splits)
  ultimately show ?thesis using ok c by (auto simp: pool_ok_def)
qed

theorem pool_accounting_witness:
  "total_mem (BufPool (\<lambda>n. replicate n 0)) =
     (\<Sum>c\<leftarrow>all_caps. \<Sum>b\<leftarrow>pool_free (BufPool (\<lambda>n. replicate n 0)) c. kb b) + (\<Sum>b\<leftarrow>[]. kb b)"
proof -
  have "\<exists>b p'. AllocBuf (\<lambda>n. replicate n 0) 10 (BufPool (\<lambda>n. replicate n 0)) = Inr (Some b, p')"
    by (simp add: AllocBuf_def size_class_def BufPool_def pool_plan_def pool_batch_def AllocPoolMem_def Let_def)
  then show ?thesis using pool_accounting [of "\<lambda>n. replicate n 0" "BufPool (\<lambda>n. replicate n 0)" "[]" 10] by blast
qed

end
