(* ===== verification/Json.thy ===== *)
theory Json
  imports String_Util "HOL-Library.List_Lexorder" "HOL-Library.Char_ord"
begin

text \<open>
  JSON values and their parser: \<open>luce/common/json/JObject.{h,cpp}\<close> and
  \<open>luce/common/json/Parser.{h,cpp}\<close>.

  A value is a tagged variant; a dictionary (\<open>std::map\<close>) is an association list sorted by
  key. The parser works on the text and an index into it, as the code does; reading at the
  size of the text gives the terminating zero, reading past it is \<open>Undefined\<close>. Thrown
  exceptions are \<open>LogicError\<close> and \<open>StdOutOfRange\<close>. The conversions of floating point numbers
  belong to the C library and are parameters: \<open>strtod\<close> from text, \<open>show_double\<close> to text.
  Because the comment skipper can loop forever, the parser takes fuel; \<open>None\<close> is running
  out of it.
\<close>

datatype json_error = LogicError | StdOutOfRange | Undefined

datatype 'd json = JNull | JBool bool | JInt "32 word" | JDouble 'd | JStr string
  | JList "'d json list" | JDict "(string \<times> 'd json) list"

section \<open>Values\<close>

text \<open>\<open>Value<V>()\<close> checks the tag.\<close>

definition as_str :: "'d json \<Rightarrow> json_error + string" where
  "as_str v = (case v of JStr s \<Rightarrow> Inr s | _ \<Rightarrow> Inl LogicError)"

definition as_int :: "'d json \<Rightarrow> json_error + 32 word" where
  "as_int v = (case v of JInt i \<Rightarrow> Inr i | _ \<Rightarrow> Inl LogicError)"

definition as_bool :: "'d json \<Rightarrow> json_error + bool" where
  "as_bool v = (case v of JBool b \<Rightarrow> Inr b | _ \<Rightarrow> Inl LogicError)"

definition as_double :: "'d json \<Rightarrow> json_error + 'd" where
  "as_double v = (case v of JDouble d \<Rightarrow> Inr d | _ \<Rightarrow> Inl LogicError)"

definition as_list :: "'d json \<Rightarrow> json_error + 'd json list" where
  "as_list v = (case v of JList vs \<Rightarrow> Inr vs | _ \<Rightarrow> Inl LogicError)"

definition as_dict :: "'d json \<Rightarrow> json_error + (string \<times> 'd json) list" where
  "as_dict v = (case v of JDict kvs \<Rightarrow> Inr kvs | _ \<Rightarrow> Inl LogicError)"

text \<open>Assignment through \<open>std::map::operator[]\<close>: the entry keeps its place in key order.\<close>

fun dict_set :: "string \<Rightarrow> 'v \<Rightarrow> (string \<times> 'v) list \<Rightarrow> (string \<times> 'v) list" where
  "dict_set k v [] = [(k, v)]"
| "dict_set k v ((k', v') # kvs) =
     (if k < k' then (k, v) # (k', v') # kvs
      else if k = k' then (k, v) # kvs
      else (k', v') # dict_set k v kvs)"

definition dict_get :: "(string \<times> 'v) list \<Rightarrow> string \<Rightarrow> 'v option" where
  "dict_get kvs k = map_of kvs k"

text \<open>Reading \<open>obj[key]\<close> inserts a null entry when there is none.\<close>

definition obj_index :: "string \<Rightarrow> 'd json \<Rightarrow> json_error + 'd json \<times> 'd json" where
  "obj_index key v = try_bind (as_dict v) (\<lambda>kvs. case dict_get kvs key of
     Some x \<Rightarrow> Inr (x, v)
   | None \<Rightarrow> Inr (JNull, JDict (dict_set key JNull kvs)))"

definition push_back :: "'d json \<Rightarrow> 'd json \<Rightarrow> json_error + 'd json" where
  "push_back item v = try_bind (as_list v) (\<lambda>vs. Inr (JList (vs @ [item])))"

definition pop_back :: "'d json \<Rightarrow> json_error + 'd json" where
  "pop_back v = try_bind (as_list v) (\<lambda>vs. if vs = [] then Inl Undefined else Inr (JList (butlast vs)))"

fun ToString :: "('d \<Rightarrow> string) \<Rightarrow> 'd json \<Rightarrow> string" where
  "ToString show_double JNull = ''null''"
| "ToString show_double (JBool b) = (if b then ''true'' else ''false'')"
| "ToString show_double (JInt i) = to_string (sint i)"
| "ToString show_double (JDouble d) = show_double d"
| "ToString show_double (JStr s) = [CHR 0x22] @ s @ [CHR 0x22]"
| "ToString show_double (JList vs) = ''['' @ Join (map (ToString show_double) vs) '','' @ '']''"
| "ToString show_double (JDict kvs) =
     ''{'' @ Join (map (\<lambda>(k, v). [CHR 0x22] @ k @ [CHR 0x22] @ '':'' @ ToString show_double v) kvs) '','' @ ''}''"

section \<open>Reading characters\<close>

definition char_at :: "string \<Rightarrow> nat \<Rightarrow> json_error + char" where
  "char_at s i = (if i < length s then Inr (s ! i) else if i = length s then Inr (CHR 0x00) else Inl Undefined)"

text \<open>\<open>str_.compare(idx, n, lit) == 0\<close> with \<open>n\<close> the length of the literal.\<close>

definition compare_at :: "string \<Rightarrow> nat \<Rightarrow> string \<Rightarrow> json_error + bool" where
  "compare_at s i lit = (if i > length s then Inl StdOutOfRange else Inr (take (length lit) (drop i s) = lit))"

text \<open>The loops that skip characters of a class; the zero at the end stops them.\<close>

function skip_while :: "(char \<Rightarrow> bool) \<Rightarrow> string \<Rightarrow> nat \<Rightarrow> json_error + nat" where
  "skip_while P s i =
     (if i < length s then (if P (s ! i) then skip_while P s (i + 1) else Inr i)
      else if i = length s then Inr i else Inl Undefined)"
  by pat_completeness auto
termination by (relation "measure (\<lambda>(_, s, i). length s - i)") auto

declare skip_while.simps [simp del]

type_synonym 'a parse_result = "(json_error + 'a) option"

definition pbind :: "'a parse_result \<Rightarrow> ('a \<Rightarrow> 'b parse_result) \<Rightarrow> 'b parse_result" where
  "pbind m f = (case m of None \<Rightarrow> None | Some (Inl e) \<Rightarrow> Some (Inl e) | Some (Inr x) \<Rightarrow> f x)"

lemma pbind_simps [simp]:
  "pbind None f = None" "pbind (Some (Inl e)) f = Some (Inl e)" "pbind (Some (Inr x)) f = f x"
  by (simp_all add: pbind_def)

text \<open>\<open>SkipComment\<close>, from the point where the text has a comment: \<open>npos + 1\<close> is 0.\<close>

fun comment_lines :: "nat \<Rightarrow> string \<Rightarrow> nat \<Rightarrow> nat parse_result" where
  "comment_lines 0 s i = None"
| "comment_lines (Suc n) s i =
     (let next_pos = find_from [CHR 0x0A] s i in
      if next_pos = Some (length s) then Some (Inl LogicError)
      else pbind (Some (skip_while is_space s (case next_pos of Some pos \<Rightarrow> pos + 1 | None \<Rightarrow> 0))) (\<lambda>i2.
        pbind (Some (compare_at s i2 ''//'')) (\<lambda>more.
          if \<not> more then Some (Inr i2) else comment_lines n s i2)))"

definition SkipComment :: "nat \<Rightarrow> string \<Rightarrow> nat \<Rightarrow> nat parse_result" where
  "SkipComment n s i = pbind (Some (compare_at s i ''//'')) (\<lambda>c.
     if c then comment_lines n s i else Some (Inr i))"

definition GetNextToken :: "nat \<Rightarrow> string \<Rightarrow> nat \<Rightarrow> (char \<times> nat) parse_result" where
  "GetNextToken n s i =
     pbind (Some (skip_while is_space s i)) (\<lambda>i1.
     if i1 \<ge> length s then Some (Inl LogicError)
     else pbind (SkipComment n s i1) (\<lambda>i2.
       pbind (Some (char_at s i2)) (\<lambda>c. Some (Inr (c, i2)))))"

section \<open>Scalars\<close>

definition ParseNull :: "string \<Rightarrow> nat \<Rightarrow> json_error + 'd json \<times> nat" where
  "ParseNull s i = try_bind (compare_at s i ''null'') (\<lambda>c. if c then Inr (JNull, i + 4) else Inl LogicError)"

definition ParseBool :: "string \<Rightarrow> nat \<Rightarrow> json_error + 'd json \<times> nat" where
  "ParseBool s i =
     try_bind (compare_at s i ''true'') (\<lambda>t. if t then Inr (JBool True, i + 4)
     else try_bind (compare_at s i ''false'') (\<lambda>f. if f then Inr (JBool False, i + 5) else Inl LogicError))"

text \<open>\<open>strtol\<close> saturates at the largest \<open>long\<close>; the cast keeps the low 32 bits.\<close>

definition long_to_int :: "int \<Rightarrow> 32 word" where
  "long_to_int v = of_int (min v (2 ^ 63 - 1))"

definition ParseNumber :: "(string \<Rightarrow> 'd) \<Rightarrow> string \<Rightarrow> nat \<Rightarrow> json_error + 'd json \<times> nat" where
  "ParseNumber strtod s start =
     try_bind (char_at s start) (\<lambda>c0.
     if \<not> is_digit c0 then Inl LogicError
     else try_bind (skip_while is_digit s start) (\<lambda>i.
       try_bind (char_at s i) (\<lambda>c.
       if c \<noteq> CHR ''.'' then Inr (JInt (long_to_int (digits_value (take (i - start) (drop start s)))), i)
       else try_bind (char_at s (i + 1)) (\<lambda>c1.
         if \<not> is_digit c1 then Inl LogicError
         else try_bind (skip_while is_digit s (i + 1)) (\<lambda>j. Inr (JDouble (strtod (drop start s)), j))))))"

text \<open>\<open>IsEscConsume\<close>: whether the run of backslashes that ends at \<open>pos\<close> has even length.\<close>

fun backslashes :: "string \<Rightarrow> nat \<Rightarrow> json_error + nat" where
  "backslashes s 0 = (if s ! 0 = CHR 0x5C then Inl Undefined else Inr 0)"
| "backslashes s (Suc pos) =
     (if s ! Suc pos = CHR 0x5C then try_bind (backslashes s pos) (\<lambda>n. Inr (n + 1)) else Inr 0)"

definition IsEscConsume :: "string \<Rightarrow> nat \<Rightarrow> json_error + bool" where
  "IsEscConsume s pos = try_bind (backslashes s pos) (\<lambda>cnt. Inr (cnt mod 2 = 0))"

lemma find_from_bound: "find_from pat s i = Some p \<Longrightarrow> pat \<noteq> [] \<Longrightarrow> i \<le> p \<and> p < length s"
proof -
  assume f: "find_from pat s i = Some p" and "pat \<noteq> []"
  then obtain q where "p = i + q" "find_sub pat (drop i s) = Some q" "i \<le> length s"
    by (auto simp: find_from_def split: if_splits)
  moreover have "0 < length pat" using \<open>pat \<noteq> []\<close> by simp
  moreover have "q + length pat \<le> length (drop i s)" using find_sub_SomeD \<open>find_sub pat (drop i s) = Some q\<close> by blast
  ultimately show "i \<le> p \<and> p < length s" by (simp only: length_drop) linarith
qed

function string_end :: "string \<Rightarrow> nat \<Rightarrow> json_error + nat" where
  "string_end s pos =
     (if s ! (pos - 1) \<noteq> CHR 0x5C then Inr pos
      else try_bind (IsEscConsume s (pos - 1)) (\<lambda>consumed.
        if consumed then Inr pos
        else case find_from [CHR 0x22] s (pos + 1) of
          None \<Rightarrow> Inl LogicError
        | Some pos' \<Rightarrow> string_end s pos'))"
  by pat_completeness auto
termination
  by (relation "measure (\<lambda>(s, pos). length s - pos)") (auto dest!: find_from_bound)

declare string_end.simps [simp del]

definition ParseString :: "string \<Rightarrow> nat \<Rightarrow> json_error + 'd json \<times> nat" where
  "ParseString s i =
     (let pre_pos = i + 1 in
      case find_from [CHR 0x22] s pre_pos of
        None \<Rightarrow> Inl LogicError
      | Some pos0 \<Rightarrow> try_bind (string_end s pos0) (\<lambda>pos.
          Inr (JStr (take (pos - pre_pos) (drop pre_pos s)), pos + 1)))"

section \<open>The parser\<close>

text \<open>\<open>ParseList\<close> and \<open>ParseDict\<close> call \<open>Parse\<close> for their elements: the argument \<open>parse\<close>. The
  fuel bounds the nesting, the rounds of each loop and the comment lines.\<close>

primrec list_items :: "(nat \<Rightarrow> ('d json \<times> nat) parse_result) \<Rightarrow> nat \<Rightarrow> string \<Rightarrow> nat \<Rightarrow> 'd json list \<Rightarrow>
    ('d json \<times> nat) parse_result" where
  "list_items parse 0 s i arr = None"
| "list_items parse (Suc n) s i arr = pbind (parse i) (\<lambda>(v, i1).
     pbind (GetNextToken n s i1) (\<lambda>(ch, i2).
       if ch = CHR '']'' then Some (Inr (JList (arr @ [v]), i2 + 1))
       else if ch \<noteq> CHR '','' then Some (Inl LogicError)
       else list_items parse n s (i2 + 1) (arr @ [v])))"

definition ParseList :: "(nat \<Rightarrow> ('d json \<times> nat) parse_result) \<Rightarrow> nat \<Rightarrow> string \<Rightarrow> nat \<Rightarrow> ('d json \<times> nat) parse_result" where
  "ParseList parse n s i = pbind (GetNextToken n s (i + 1)) (\<lambda>(ch, i1).
     if ch = CHR '']'' then Some (Inr (JList [], i1 + 1)) else list_items parse n s i1 [])"

primrec dict_items :: "(nat \<Rightarrow> ('d json \<times> nat) parse_result) \<Rightarrow> nat \<Rightarrow> string \<Rightarrow> nat \<Rightarrow> (string \<times> 'd json) list \<Rightarrow>
    ('d json \<times> nat) parse_result" where
  "dict_items parse 0 s i dict = None"
| "dict_items parse (Suc n) s i dict = pbind (parse i) (\<lambda>(kv, i1).
     pbind (Some (as_str kv)) (\<lambda>key.
     pbind (GetNextToken n s i1) (\<lambda>(ch, i2).
     if ch \<noteq> CHR '':'' then Some (Inl LogicError)
     else pbind (parse (i2 + 1)) (\<lambda>(v, i3).
       pbind (GetNextToken n s i3) (\<lambda>(ch', i4).
         if ch' = CHR ''}'' then Some (Inr (JDict (dict_set key v dict), i4 + 1))
         else if ch' \<noteq> CHR '','' then Some (Inl LogicError)
         else dict_items parse n s (i4 + 1) (dict_set key v dict))))))"

definition ParseDict :: "(nat \<Rightarrow> ('d json \<times> nat) parse_result) \<Rightarrow> nat \<Rightarrow> string \<Rightarrow> nat \<Rightarrow> ('d json \<times> nat) parse_result" where
  "ParseDict parse n s i = pbind (GetNextToken n s (i + 1)) (\<lambda>(ch, i1).
     if ch = CHR ''}'' then Some (Inr (JDict [], i1 + 1)) else dict_items parse n s i1 [])"

primrec ParseJson :: "(string \<Rightarrow> 'd) \<Rightarrow> nat \<Rightarrow> string \<Rightarrow> nat \<Rightarrow> ('d json \<times> nat) parse_result" where
  "ParseJson strtod 0 s i = None"
| "ParseJson strtod (Suc n) s i = pbind (GetNextToken n s i) (\<lambda>(token, i1).
     if token = CHR ''n'' then Some (ParseNull s i1)
     else if token = CHR ''t'' \<or> token = CHR ''f'' then Some (ParseBool s i1)
     else if token = CHR ''-'' \<or> is_digit token then Some (ParseNumber strtod s i1)
     else if token = CHR 0x22 then Some (ParseString s i1)
     else if token = CHR ''['' then ParseList (ParseJson strtod n s) n s i1
     else if token = CHR ''{'' then ParseDict (ParseJson strtod n s) n s i1
     else Some (Inl LogicError))"

definition TrimRight :: "string \<Rightarrow> string" where
  "TrimRight s = rev (dropWhile is_space (rev s))"

text \<open>\<open>Init\<close> sets the text and the index of the parser.\<close>

definition Init :: "string \<Rightarrow> string \<times> nat" where
  "Init src = (TrimRight src, 0)"

definition FromString :: "(string \<Rightarrow> 'd) \<Rightarrow> nat \<Rightarrow> string \<Rightarrow> 'd json parse_result" where
  "FromString strtod fuel content =
     (let (s, i) = Init content in pbind (ParseJson strtod fuel s i) (\<lambda>(v, _). Some (Inr v)))"

text \<open>
  \<open>ToJSON\<close> and \<open>FromJson\<close> for application types, whose \<open>_to_json\<close> and \<open>_from_json\<close> methods
  are arguments: the first fills a dictionary, the second reads one.
\<close>

definition ToJSON :: "('d \<Rightarrow> string) \<Rightarrow> ('s \<Rightarrow> 'd json \<Rightarrow> json_error + 'd json) \<Rightarrow> 's \<Rightarrow> json_error + string" where
  "ToJSON show_double to_json src = try_bind (to_json src (JDict [])) (\<lambda>obj. Inr (ToString show_double obj))"

definition FromJson :: "(string \<Rightarrow> 'd) \<Rightarrow> nat \<Rightarrow> ('d json \<Rightarrow> json_error + 's) \<Rightarrow> string \<Rightarrow> 's parse_result" where
  "FromJson strtod fuel from_json src = pbind (FromString strtod fuel src) (\<lambda>obj.
     case obj of JDict _ \<Rightarrow> Some (from_json obj) | _ \<Rightarrow> Some (Inl LogicError))"

text \<open>The macro \<open>to(key)\<close>: assignment to a member of the dictionary.\<close>

definition obj_set :: "string \<Rightarrow> 'd json \<Rightarrow> 'd json \<Rightarrow> json_error + 'd json" where
  "obj_set key x v = try_bind (as_dict v) (\<lambda>kvs. Inr (JDict (dict_set key x kvs)))"


section \<open>Scanning rendered text\<close>

lemma GetNextToken_at:
  assumes "i < length s" "\<not> is_space (s ! i)" "s ! i \<noteq> CHR ''/''"
  shows "GetNextToken n s i = Some (Inr (s ! i, i))"
proof -
  have "drop i s = s ! i # drop (Suc i) s" using assms(1) by (simp add: Cons_nth_drop_Suc)
  then show ?thesis
    using assms by (simp add: GetNextToken_def skip_while.simps SkipComment_def compare_at_def char_at_def)
qed

lemma GetNextToken_append:
  assumes "\<not> is_space c" "c \<noteq> CHR ''/''"
  shows "GetNextToken n (pre @ c # post) (length pre) = Some (Inr (c, length pre))"
  using GetNextToken_at [of "length pre" "pre @ c # post" n] assms by simp

lemma skip_while_append:
  assumes "\<forall>c \<in> set ds. P c" "post = [] \<or> \<not> P (hd post)"
  shows "skip_while P (pre @ ds @ post) (length pre) = Inr (length pre + length ds)"
  using assms
proof (induction ds arbitrary: pre)
  case Nil
  then show ?case by (cases post) (auto simp: skip_while.simps)
next
  case (Cons d ds)
  then show ?case using Cons.IH [of "pre @ [d]"] by (simp add: skip_while.simps [of _ _ "length pre"])
qed

lemma ParseNumber_show:
  assumes "0 \<le> sint i" "post = [] \<or> \<not> is_digit (hd post) \<and> hd post \<noteq> CHR ''.''"
  shows "ParseNumber strtod (pre @ to_string (sint i) @ post) (length pre) =
    Inr (JInt i, length pre + length (to_string (sint i)))"
proof -
  let ?ds = "show_nat (nat (sint i))"
  have d: "\<forall>c \<in> set ?ds. is_digit c" "?ds \<noteq> []" "digits_value ?ds = sint i"
    using show_nat_digits [of "nat (sint i)"] assms(1) by auto
  have t: "to_string (sint i) = ?ds" using assms(1) by (simp add: to_string_def)
  obtain c cs where ds: "?ds = c # cs" using d(2) by (cases ?ds) auto
  have first: "char_at (pre @ ?ds @ post) (length pre) = Inr c" by (simp add: char_at_def ds)
  have skip: "skip_while is_digit (pre @ ?ds @ post) (length pre) = Inr (length pre + length ?ds)"
    using d(1) assms(2) by (intro skip_while_append) auto
  have after: "\<exists>x. char_at (pre @ ?ds @ post) (length pre + length ?ds) = Inr x \<and> x \<noteq> CHR ''.''"
    using assms(2) by (cases post) (auto simp: char_at_def nth_append)
  have "sint i < 2 ^ 63" using sint_lt [of i] by simp
  then have "long_to_int (sint i) = i" by (simp add: long_to_int_def min_def)
  then show ?thesis
    using first skip after d ds unfolding t by (auto simp: ParseNumber_def)
qed

definition plain_str :: "string \<Rightarrow> bool" where
  "plain_str k \<longleftrightarrow> CHR 0x22 \<notin> set k \<and> CHR 0x5C \<notin> set k"

lemma ParseString_plain:
  assumes "plain_str k"
  shows "ParseString (pre @ [CHR 0x22] @ k @ [CHR 0x22] @ post) (length pre) = Inr (JStr k, length pre + length k + 2)"
proof -
  let ?s = "pre @ [CHR 0x22] @ k @ [CHR 0x22] @ post"
  have "find_sub [CHR 0x22] (k @ CHR 0x22 # post) = Some (length k)"
    using assms by (intro find_sub_char) (simp add: plain_str_def)
  then have f: "find_from [CHR 0x22] ?s (length pre + 1) = Some (length pre + 1 + length k)"
    by (simp add: find_from_def)
  have "?s ! (length pre + length k) \<noteq> CHR 0x5C"
    using assms by (cases k rule: rev_cases) (auto simp: plain_str_def nth_append)
  then have "string_end ?s (length pre + 1 + length k) = Inr (length pre + 1 + length k)"
    by (subst string_end.simps) simp
  then show ?thesis using f by (simp add: ParseString_def)
qed

section \<open>Printable values\<close>

text \<open>Values whose text the parser reads back: no negative and no floating point numbers, no
  quotes or backslashes in strings, dictionaries in key order.\<close>

fun printable :: "'d json \<Rightarrow> bool" where
  "printable JNull \<longleftrightarrow> True"
| "printable (JBool b) \<longleftrightarrow> True"
| "printable (JInt i) \<longleftrightarrow> 0 \<le> sint i"
| "printable (JDouble d) \<longleftrightarrow> False"
| "printable (JStr s) \<longleftrightarrow> plain_str s"
| "printable (JList vs) \<longleftrightarrow> (\<forall>v \<in> set vs. printable v)"
| "printable (JDict kvs) \<longleftrightarrow> sorted_wrt (<) (map fst kvs) \<and> (\<forall>(k, v) \<in> set kvs. plain_str k \<and> printable v)"

fun fuel_of :: "'d json \<Rightarrow> nat" where
  "fuel_of (JList vs) = Suc (\<Sum>v\<leftarrow>vs. Suc (fuel_of v))"
| "fuel_of (JDict kvs) = Suc (\<Sum>(k, v)\<leftarrow>kvs. Suc (Suc (fuel_of v)))"
| "fuel_of _ = 1"

definition token_start :: "char \<Rightarrow> bool" where
  "token_start c \<longleftrightarrow> is_digit c \<or> c \<in> {CHR ''n'', CHR ''t'', CHR ''f'', CHR 0x22, CHR ''['', CHR ''{''}"

lemma token_start_facts:
  assumes "token_start c"
  shows "\<not> is_space c" "c \<noteq> CHR ''/''" "c \<noteq> CHR '']''" "c \<noteq> CHR ''}''" "c \<noteq> CHR '',''" "c \<noteq> CHR '':''"
  using assms by (auto simp: token_start_def is_digit_def is_space_def)

lemma ToString_start:
  assumes "printable v"
  obtains c cs where "ToString sd v = c # cs" "token_start c"
proof (cases v)
  case (JBool b)
  then show ?thesis using that by (cases b) (auto simp: token_start_def)
next
  case (JInt i)
  then have "to_string (sint i) = show_nat (nat (sint i))" using assms by (simp add: to_string_def)
  then show ?thesis using that show_nat_digits [of "nat (sint i)"] JInt
    by (cases "show_nat (nat (sint i))") (auto simp: token_start_def)
qed (use assms that in \<open>auto simp: token_start_def split: if_splits\<close>)

lemma list_items_render:
  assumes "vs \<noteq> []" "length vs \<le> n" "\<forall>v \<in> set vs. printable v"
    and "\<And>v pre post. v \<in> set vs \<Longrightarrow> s = pre @ ToString sd v @ post \<Longrightarrow> post \<noteq> [] \<Longrightarrow> hd post \<in> {CHR '','', CHR '']''} \<Longrightarrow>
      parse (length pre) = Some (Inr (v, length pre + length (ToString sd v)))"
    and "s = pre @ join_ref '','' (map (ToString sd) vs) @ '']'' @ post"
  shows "list_items parse n s (length pre) arr =
    Some (Inr (JList (arr @ vs), length pre + length (join_ref '','' (map (ToString sd) vs)) + 1))"
  using assms
proof (induction vs arbitrary: n pre arr)
  case (Cons v vs)
  obtain m where n: "n = Suc m" "length vs \<le> m" using Cons.prems(2) by (cases n) auto
  let ?t = "ToString sd v"
  show ?case
  proof (cases "vs = []")
    case True
    have s: "s = pre @ ?t @ '']'' @ post" using Cons.prems(5) True by simp
    then have p: "parse (length pre) = Some (Inr (v, length pre + length ?t))" using Cons.prems(4) by simp
    have "GetNextToken m s (length (pre @ ?t)) = Some (Inr (CHR '']'', length (pre @ ?t)))"
      using GetNextToken_append [of "CHR '']''" m "pre @ ?t" post] s by (simp add: is_space_def)
    then show ?thesis using n p True by simp
  next
    case False
    let ?r = "join_ref '','' (map (ToString sd) vs)"
    have s: "s = pre @ ?t @ '','' @ ?r @ '']'' @ post" using Cons.prems(5) False by (simp add: join_ref_Cons)
    then have p: "parse (length pre) = Some (Inr (v, length pre + length ?t))" using Cons.prems(4) by simp
    have "GetNextToken m s (length (pre @ ?t)) = Some (Inr (CHR '','', length (pre @ ?t)))"
      using GetNextToken_append [of "CHR '',''" m "pre @ ?t" "?r @ '']'' @ post"] s by (simp add: is_space_def)
    moreover have "list_items parse m s (length (pre @ ?t @ '','')) (arr @ [v]) =
        Some (Inr (JList ((arr @ [v]) @ vs), length (pre @ ?t @ '','') + length ?r + 1))"
      by (rule Cons.IH) (use False n Cons.prems s in auto)
    ultimately show ?thesis using n p False by (simp add: join_ref_Cons)
  qed
qed simp

abbreviation pair_text :: "('d \<Rightarrow> string) \<Rightarrow> string \<times> 'd json \<Rightarrow> string" where
  "pair_text sd \<equiv> \<lambda>(k, v). [CHR 0x22] @ k @ [CHR 0x22] @ '':'' @ ToString sd v"

text \<open>Setting keys in increasing order appends them.\<close>

lemma dict_set_last: "\<forall>k' \<in> set (map fst dict). k' < k \<Longrightarrow> dict_set k v dict = dict @ [(k, v)]"
  by (induction dict) auto

lemma dict_items_render:
  assumes "kvs \<noteq> []" "length kvs \<le> n" "sorted_wrt (<) (map fst (dict @ kvs))"
    and "\<And>k pre post. k \<in> fst ` set kvs \<Longrightarrow> s = pre @ ([CHR 0x22] @ k @ [CHR 0x22]) @ post \<Longrightarrow>
      parse (length pre) = Some (Inr (JStr k, length pre + length k + 2))"
    and "\<And>v pre post. v \<in> snd ` set kvs \<Longrightarrow> s = pre @ ToString sd v @ post \<Longrightarrow> post \<noteq> [] \<Longrightarrow> hd post \<in> {CHR '','', CHR ''}''} \<Longrightarrow>
      parse (length pre) = Some (Inr (v, length pre + length (ToString sd v)))"
    and "s = pre @ join_ref '','' (map (pair_text sd) kvs) @ ''}'' @ post"
  shows "dict_items parse n s (length pre) dict =
    Some (Inr (JDict (dict @ kvs), length pre + length (join_ref '','' (map (pair_text sd) kvs)) + 1))"
  using assms
proof (induction kvs arbitrary: n pre dict)
  case (Cons kv kvs)
  obtain k v where kv: "kv = (k, v)" by (cases kv)
  obtain m where n: "n = Suc m" "length kvs \<le> m" using Cons.prems(2) by (cases n) auto
  let ?k = "[CHR 0x22] @ k @ [CHR 0x22]" and ?t = "ToString sd v"
  let ?rest = "if kvs = [] then ''}'' @ post else '','' @ join_ref '','' (map (pair_text sd) kvs) @ ''}'' @ post"
  have s: "s = pre @ ?k @ '':'' @ ?t @ ?rest" using Cons.prems(6) kv by (cases kvs) (auto simp: join_ref_Cons)
  have p1: "parse (length pre) = Some (Inr (JStr k, length pre + length k + 2))"
    by (rule Cons.prems(4)) (use kv s in auto)
  have t1: "GetNextToken m s (length pre + length k + 2) = Some (Inr (CHR '':'', length pre + length k + 2))"
    using GetNextToken_append [of "CHR '':''" m "pre @ ?k" "?t @ ?rest"] s by (simp add: is_space_def add.commute add.left_commute)
  have p2: "parse (length (pre @ ?k @ '':'')) = Some (Inr (v, length (pre @ ?k @ '':'') + length ?t))"
    by (rule Cons.prems(5) [of v "pre @ ?k @ '':''" ?rest]) (use kv s in auto)
  have set: "dict_set k v dict = dict @ [(k, v)]"
    using Cons.prems(3) kv by (intro dict_set_last) (auto simp: sorted_wrt_append)
  let ?c = "if kvs = [] then CHR ''}'' else CHR '',''"
  have t2: "GetNextToken m s (length (pre @ ?k @ '':'' @ ?t)) = Some (Inr (?c, length (pre @ ?k @ '':'' @ ?t)))"
    using GetNextToken_append [of ?c m "pre @ ?k @ '':'' @ ?t" "tl ?rest"] s by (cases "kvs = []") (simp_all add: is_space_def)
  show ?case
  proof (cases "kvs = []")
    case True
    then show ?thesis using n kv p1 t1 p2 t2 set by (simp add: as_str_def add.assoc)
  next
    case False
    have "dict_items parse m s (length (pre @ ?k @ '':'' @ ?t @ '','')) (dict @ [(k, v)]) =
        Some (Inr (JDict ((dict @ [(k, v)]) @ kvs), length (pre @ ?k @ '':'' @ ?t @ '','') + length (join_ref '','' (map (pair_text sd) kvs)) + 1))"
      by (rule Cons.IH) (use False n Cons.prems s kv in auto)
    then show ?thesis using n kv p1 t1 p2 t2 set False by (simp add: as_str_def join_ref_Cons add.assoc)
  qed
qed simp

lemma sum_list_member: "x \<in> set xs \<Longrightarrow> f x \<le> (\<Sum>x\<leftarrow>xs. f x :: nat)"
  by (induction xs) auto

lemma length_le_sum_list: "(\<And>x. x \<in> set xs \<Longrightarrow> 1 \<le> f x) \<Longrightarrow> length xs \<le> (\<Sum>x\<leftarrow>xs. f x :: nat)"
  by (induction xs) (auto, fastforce)

definition ends_value :: "string \<Rightarrow> bool" where
  "ends_value post \<longleftrightarrow> post = [] \<or> hd post \<in> {CHR '','', CHR '']'', CHR ''}'', CHR '':''}"

lemma ends_value_number: "ends_value post \<Longrightarrow> post = [] \<or> \<not> is_digit (hd post) \<and> hd post \<noteq> CHR ''.''"
  by (auto simp: ends_value_def is_digit_def)

lemma ParseJson_token:
  assumes "printable v" "ToString sd v = c # cs"
  shows "GetNextToken m (pre @ ToString sd v @ post) (length pre) = Some (Inr (c, length pre))"
proof -
  obtain c' cs' where "ToString sd v = c' # cs'" "token_start c'" using ToString_start [OF assms(1)] by blast
  with assms(2) show ?thesis
    using GetNextToken_append [of c m pre "cs @ post"] token_start_facts by auto
qed

lemma ParseJson_list:
  assumes pr: "printable (JList vs)" and fuel: "fuel_of (JList vs) \<le> Suc m"
    and IH: "\<And>v n pre post. v \<in> set vs \<Longrightarrow> printable v \<Longrightarrow> fuel_of v \<le> n \<Longrightarrow> ends_value post \<Longrightarrow>
      ParseJson strtod n (pre @ ToString sd v @ post) (length pre) = Some (Inr (v, length pre + length (ToString sd v)))"
  shows "ParseJson strtod (Suc m) (pre @ ToString sd (JList vs) @ post) (length pre) =
    Some (Inr (JList vs, length pre + length (ToString sd (JList vs))))"
proof -
  let ?s = "pre @ ToString sd (JList vs) @ post" and ?j = "join_ref '','' (map (ToString sd) vs)"
  have s: "?s = (pre @ ''['') @ ?j @ '']'' @ post" by (simp add: Join_eq)
  have tok: "GetNextToken m ?s (length pre) = Some (Inr (CHR ''['', length pre))"
    using ParseJson_token [OF pr] by simp
  have len: "length vs \<le> m" using fuel length_le_sum_list [of vs "\<lambda>v. Suc (fuel_of v)"] by simp
  have fv: "fuel_of v \<le> m" if "v \<in> set vs" for v
    using fuel sum_list_member [OF that, of "\<lambda>v. Suc (fuel_of v)"] by simp
  have "ParseList (ParseJson strtod m ?s) m ?s (length pre) = Some (Inr (JList vs, length pre + length ?j + 2))"
  proof (cases "vs = []")
    case True
    then show ?thesis
      using GetNextToken_append [of "CHR '']''" m "pre @ ''[''" post] by (simp add: ParseList_def is_space_def Join_eq)
  next
    case False
    then obtain v ws where vs: "vs = v # ws" by (cases vs) auto
    then obtain c cs where c: "ToString sd v = c # cs" "token_start c" using pr ToString_start [of v sd] by auto
    then obtain r where j: "?j = c # r" using vs by (cases ws) auto
    have "GetNextToken m ?s (length (pre @ ''['')) = Some (Inr (c, length (pre @ ''[''))) "
      using GetNextToken_append [of c m "pre @ ''[''" "r @ '']'' @ post"] token_start_facts [OF c(2)] s j by simp
    moreover have "list_items (ParseJson strtod m ?s) m ?s (length (pre @ ''['')) [] =
        Some (Inr (JList ([] @ vs), length (pre @ ''['') + length ?j + 1))"
    proof (rule list_items_render [OF False len _ _ s])
      show "\<forall>v \<in> set vs. printable v" using pr by simp
      fix v p q assume "v \<in> set vs" "?s = p @ ToString sd v @ q" "q \<noteq> []" "hd q \<in> {CHR '','', CHR '']''}"
      then show "ParseJson strtod m ?s (length p) = Some (Inr (v, length p + length (ToString sd v)))"
        using IH [of v m q p] pr fv by (auto simp: ends_value_def)
    qed
    ultimately show ?thesis using token_start_facts(3) [OF c(2)] by (simp add: ParseList_def)
  qed
  then show ?thesis using tok by (simp add: Join_eq is_digit_def)
qed

lemma ParseJson_dict:
  assumes pr: "printable (JDict kvs)" and fuel: "fuel_of (JDict kvs) \<le> Suc m"
    and IH: "\<And>v n pre post. v \<in> snd ` set kvs \<Longrightarrow> printable v \<Longrightarrow> fuel_of v \<le> n \<Longrightarrow> ends_value post \<Longrightarrow>
      ParseJson strtod n (pre @ ToString sd v @ post) (length pre) = Some (Inr (v, length pre + length (ToString sd v)))"
  shows "ParseJson strtod (Suc m) (pre @ ToString sd (JDict kvs) @ post) (length pre) =
    Some (Inr (JDict kvs, length pre + length (ToString sd (JDict kvs))))"
proof -
  let ?s = "pre @ ToString sd (JDict kvs) @ post" and ?j = "join_ref '','' (map (pair_text sd) kvs)"
  have s: "?s = (pre @ ''{'') @ ?j @ ''}'' @ post" by (simp add: Join_eq)
  have tok: "GetNextToken m ?s (length pre) = Some (Inr (CHR ''{'', length pre))"
    using ParseJson_token [OF pr] by simp
  have len: "length kvs \<le> m" using fuel length_le_sum_list [of kvs "\<lambda>(k, v). Suc (Suc (fuel_of v))"] by (simp add: case_prod_unfold)
  have fv: "Suc (Suc (fuel_of v)) \<le> m" if "v \<in> snd ` set kvs" for v
  proof -
    obtain k where "(k, v) \<in> set kvs" using \<open>v \<in> snd ` set kvs\<close> by auto
    then show ?thesis using fuel sum_list_member [of "(k, v)" kvs "\<lambda>(k, v). Suc (Suc (fuel_of v))"] by simp
  qed
  have "ParseDict (ParseJson strtod m ?s) m ?s (length pre) = Some (Inr (JDict kvs, length pre + length ?j + 2))"
  proof (cases "kvs = []")
    case True
    then show ?thesis
      using GetNextToken_append [of "CHR ''}''" m "pre @ ''{''" post] by (simp add: ParseDict_def is_space_def Join_eq)
  next
    case False
    then obtain r where j: "?j = CHR 0x22 # r" by (cases kvs rule: remdups_adj.cases) auto
    have "GetNextToken m ?s (length (pre @ ''{'')) = Some (Inr (CHR 0x22, length (pre @ ''{'')))"
      using GetNextToken_append [of "CHR 0x22" m "pre @ ''{''" "r @ ''}'' @ post"] s j by (simp add: is_space_def)
    moreover have "dict_items (ParseJson strtod m ?s) m ?s (length (pre @ ''{'')) [] =
        Some (Inr (JDict ([] @ kvs), length (pre @ ''{'') + length ?j + 1))"
    proof (rule dict_items_render [OF False len _ _ _ s])
      show "sorted_wrt (<) (map fst ([] @ kvs))" using pr by simp
      fix k p q assume k: "k \<in> fst ` set kvs" "?s = p @ ([CHR 0x22] @ k @ [CHR 0x22]) @ q"
      have "plain_str k" using k(1) pr by auto
      moreover obtain m' where "m = Suc m'" using k(1) fv by (cases m) force+
      ultimately show "ParseJson strtod m ?s (length p) = Some (Inr (JStr k, length p + length k + 2))"
        using ParseString_plain [of k p q] GetNextToken_append [of "CHR 0x22" m' p "k @ [CHR 0x22] @ q"] unfolding k(2)
        by (simp add: is_space_def is_digit_def)
    next
      fix v p q assume v: "v \<in> snd ` set kvs" "?s = p @ ToString sd v @ q" "q \<noteq> []" "hd q \<in> {CHR '','', CHR ''}''}"
      then show "ParseJson strtod m ?s (length p) = Some (Inr (v, length p + length (ToString sd v)))"
        using IH [of v m q p] pr fv [of v] by (auto simp: ends_value_def)
    qed
    ultimately show ?thesis by (simp add: ParseDict_def)
  qed
  then show ?thesis using tok by (simp add: Join_eq is_digit_def)
qed

lemma ParseJson_ToString:
  "printable v \<Longrightarrow> fuel_of v \<le> n \<Longrightarrow> ends_value post \<Longrightarrow>
   ParseJson strtod n (pre @ ToString sd v @ post) (length pre) = Some (Inr (v, length pre + length (ToString sd v)))"
proof (induction sd v arbitrary: n pre post rule: ToString.induct)
  case (1 sd)
  then show ?case
    using ParseJson_token [of JNull sd _ _ "n - 1" pre post] by (cases n) (simp_all add: ParseNull_def compare_at_def)
next
  case (2 sd b)
  then show ?case
    using ParseJson_token [of "JBool b" sd _ _ "n - 1" pre post]
    by (cases n; cases b) (simp_all add: ParseBool_def compare_at_def)
next
  case (3 sd i)
  then obtain c cs where c: "ToString sd (JInt i) = c # cs" "token_start c" using ToString_start [of "JInt i" sd] by blast
  have "is_digit c" using show_nat_digits [of "nat (sint i)"] c(1) 3(1) by (simp add: to_string_def)
  moreover from this have "c \<notin> {CHR ''n'', CHR ''t'', CHR ''f''}" by (auto simp: is_digit_def)
  ultimately show ?case
    using ParseJson_token [OF 3(1) c(1), of "n - 1" pre post] ParseNumber_show [of i post strtod pre] ends_value_number [OF 3(3)] 3(1,2)
    by (cases n) simp_all
next
  case (5 sd k)
  then show ?case
    using ParseJson_token [of "JStr k" sd _ _ "n - 1" pre post] ParseString_plain [of k pre post]
    by (cases n) (simp_all add: is_digit_def)
next
  case (6 sd vs)
  then obtain m where "n = Suc m" by (cases n) auto
  then show ?case using ParseJson_list [of vs m strtod sd pre post] 6 by blast
next
  case (7 sd kvs)
  then obtain m where "n = Suc m" by (cases n) auto
  moreover have "ParseJson strtod l (p @ ToString sd v @ q) (length p) = Some (Inr (v, length p + length (ToString sd v)))"
    if "v \<in> snd ` set kvs" "printable v" "fuel_of v \<le> l" "ends_value q" for v l p q
    using 7(1) that by fastforce
  ultimately show ?case using ParseJson_dict [of kvs m strtod sd pre post] 7(2,3) by blast
qed simp

text \<open>The parser keeps dictionaries in key order, whatever the text.\<close>

fun ordered :: "'d json \<Rightarrow> bool" where
  "ordered (JList vs) \<longleftrightarrow> (\<forall>v \<in> set vs. ordered v)"
| "ordered (JDict kvs) \<longleftrightarrow> sorted_wrt (<) (map fst kvs) \<and> (\<forall>v \<in> snd ` set kvs. ordered v)"
| "ordered _ \<longleftrightarrow> True"

lemma dict_set_keys: "fst ` set (dict_set k v kvs) = insert k (fst ` set kvs)"
  by (induction k v kvs rule: dict_set.induct) (simp_all add: insert_commute)

lemma dict_set_sorted: "sorted_wrt (<) (map fst kvs) \<Longrightarrow> sorted_wrt (<) (map fst (dict_set k v kvs))"
proof (induction kvs)
  case (Cons kv kvs)
  obtain k' v' where kv: "kv = (k', v')" by (cases kv)
  consider "k < k'" | "k = k'" | "k' < k" by (rule linorder_cases)
  then show ?case
  proof cases
    case 3
    then show ?thesis using Cons kv dict_set_keys [of k v kvs] by auto
  qed (use Cons kv in \<open>auto dest: order.strict_trans\<close>)
qed simp

lemma dict_set_values: "snd ` set (dict_set k v kvs) \<subseteq> insert v (snd ` set kvs)"
  by (induction k v kvs rule: dict_set.induct) (simp_all, blast)

interpretation dicts: key_table "\<lambda>_. True" dict_set dict_get
proof
  show "dict_get (dict_set k v t) k' = (if k' = k then Some v else dict_get t k')" for k k' :: string and v :: 'v and t
    by (induction t) (auto simp: dict_get_def)
qed

lemma pbind_eq_Inr: "pbind m f = Some (Inr y) \<longleftrightarrow> (\<exists>x. m = Some (Inr x) \<and> f x = Some (Inr y))"
  by (auto simp: pbind_def split: option.splits sum.splits)

lemma list_items_ordered:
  assumes "\<And>i v j. parse i = Some (Inr (v, j)) \<Longrightarrow> ordered v"
  shows "list_items parse n s i arr = Some (Inr (v, j)) \<Longrightarrow> \<forall>v \<in> set arr. ordered v \<Longrightarrow> ordered v"
proof (induction n arbitrary: i arr)
  case (Suc n)
  then obtain x i1 ch i2 where x: "parse i = Some (Inr (x, i1))" and g: "GetNextToken n s i1 = Some (Inr (ch, i2))"
    by (auto simp: pbind_eq_Inr)
  have "\<forall>v \<in> set (arr @ [x]). ordered v" using assms [OF x] Suc.prems(2) by simp
  then show ?case using Suc.IH [of "i2 + 1" "arr @ [x]"] Suc.prems(1) x g by (auto split: if_splits)
qed simp

lemma dict_items_ordered:
  assumes "\<And>i v j. parse i = Some (Inr (v, j)) \<Longrightarrow> ordered v"
  shows "dict_items parse n s i dict = Some (Inr (v, j)) \<Longrightarrow> ordered (JDict dict) \<Longrightarrow> ordered v"
proof (induction n arbitrary: i dict)
  case (Suc n)
  then obtain kv i1 key ch i2 x i3 ch' i4 where 1: "parse i = Some (Inr (kv, i1))" "as_str kv = Inr key"
    "GetNextToken n s i1 = Some (Inr (ch, i2))" "ch = CHR '':''" "parse (i2 + 1) = Some (Inr (x, i3))"
    "GetNextToken n s i3 = Some (Inr (ch', i4))"
    by (auto simp: pbind_eq_Inr split: if_splits)
  have "ordered x" by (rule assms [OF 1(5)])
  then have "\<forall>y \<in> snd ` set (dict_set key x dict). ordered y"
    using Suc.prems(2) dict_set_values [of key x dict] by (simp only: ordered.simps) blast
  then have "ordered (JDict (dict_set key x dict))"
    using Suc.prems(2) dict_set_sorted [of dict key x] by simp
  then show ?case using Suc.IH [of "i4 + 1" "dict_set key x dict"] Suc.prems(1) 1 by (auto split: if_splits)
qed simp

lemma ParseJson_ordered: "ParseJson strtod n s i = Some (Inr (v, j)) \<Longrightarrow> ordered v"
proof (induction n arbitrary: i v j)
  case (Suc n)
  then obtain c i1 where c: "GetNextToken n s i = Some (Inr (c, i1))" by (auto simp: pbind_eq_Inr)
  have l: "ParseList (ParseJson strtod n s) n s i1 = Some (Inr (v, j)) \<Longrightarrow> ordered v"
    using list_items_ordered [of "ParseJson strtod n s"] Suc.IH by (fastforce simp: ParseList_def pbind_eq_Inr split: if_splits)
  have d: "ParseDict (ParseJson strtod n s) n s i1 = Some (Inr (v, j)) \<Longrightarrow> ordered v"
    using dict_items_ordered [of "ParseJson strtod n s"] Suc.IH by (fastforce simp: ParseDict_def pbind_eq_Inr split: if_splits)
  have "ParseNull s i1 = Inr (v, j) \<or> ParseBool s i1 = Inr (v, j) \<or> ParseNumber strtod s i1 = Inr (v, j) \<or> ParseString s i1 = Inr (v, j) \<Longrightarrow> ordered v"
    by (auto simp: ParseNull_def ParseBool_def ParseNumber_def ParseString_def Let_def try_bind_eq_Inr split: if_splits option.splits)
  then show ?case using Suc.prems c l d by (auto split: if_splits)
qed simp

lemma ToString_last:
  assumes "printable v"
  shows "ToString sd v \<noteq> [] \<and> \<not> is_space (last (ToString sd v))"
proof (cases v)
  case (JInt i)
  then show ?thesis using assms show_nat_digits [of "nat (sint i)"] last_in_set [of "show_nat (nat (sint i))"]
    by (fastforce simp: to_string_def is_digit_def is_space_def)
qed (use assms in \<open>auto simp: is_space_def\<close>)

lemma TrimRight_id: "s \<noteq> [] \<Longrightarrow> \<not> is_space (last s) \<Longrightarrow> TrimRight s = s"
  by (cases s rule: rev_cases) (auto simp: TrimRight_def)

lemma TrimRight_append: "s \<noteq> [] \<Longrightarrow> \<not> is_space (last s) \<Longrightarrow> TrimRight (s @ post) = s @ TrimRight post"
  by (cases s rule: rev_cases) (auto simp: TrimRight_def dropWhile_append)

lemma TrimRight_prefix: "\<exists>rest. s = TrimRight s @ rest"
  unfolding TrimRight_def by (metis rev_append rev_rev_ident takeWhile_dropWhile_id)

lemma ends_value_TrimRight: "ends_value post \<Longrightarrow> ends_value (TrimRight post)"
proof -
  assume e: "ends_value post"
  obtain rest where "post = TrimRight post @ rest" using TrimRight_prefix by blast
  then have "TrimRight post = [] \<or> post \<noteq> [] \<and> hd (TrimRight post) = hd post" by (metis append_is_Nil_conv hd_append2)
  then show ?thesis using e by (auto simp: ends_value_def)
qed

lemma FromString_prefix:
  assumes "printable v" "fuel_of v \<le> fuel" "ends_value post"
  shows "FromString strtod fuel (ToString show_double v @ post) = Some (Inr v)"
proof -
  have "TrimRight (ToString show_double v @ post) = ToString show_double v @ TrimRight post"
    using TrimRight_append ToString_last [OF assms(1)] by blast
  then show ?thesis
    using ParseJson_ToString [OF assms(1,2) ends_value_TrimRight [OF assms(3)], of strtod "[]" show_double]
    by (simp add: FromString_def Init_def)
qed

lemma FromString_ToString:
  assumes "printable v" "fuel_of v \<le> fuel"
  shows "FromString strtod fuel (ToString show_double v) = Some (Inr v)"
  using FromString_prefix [OF assms, of "[]"] by (simp add: ends_value_def)

text \<open>A \<open>_to_json\<close> method written with the macros is a sequence of assignments.\<close>

primrec set_fields :: "(string \<times> 'd json) list \<Rightarrow> 'd json \<Rightarrow> json_error + 'd json" where
  "set_fields [] obj = Inr obj"
| "set_fields (kv # fields) obj = try_bind (obj_set (fst kv) (snd kv) obj) (set_fields fields)"

abbreviation set_all :: "(string \<times> 'd json) list \<Rightarrow> (string \<times> 'd json) list \<Rightarrow> (string \<times> 'd json) list" where
  "set_all \<equiv> fold (\<lambda>(k, v). dict_set k v)"

lemma set_fields_eq: "set_fields fields (JDict kvs) = Inr (JDict (set_all fields kvs))"
  by (induction fields arbitrary: kvs) (auto simp: obj_set_def as_dict_def)

lemma dict_set_printable:
  "printable (JDict kvs) \<Longrightarrow> plain_str k \<Longrightarrow> printable v \<Longrightarrow> printable (JDict (dict_set k v kvs))"
proof -
  assume "printable (JDict kvs)" and kv: "plain_str k" "printable v"
  then have "sorted_wrt (<) (map fst (dict_set k v kvs))" "\<forall>(k, v) \<in> set kvs. plain_str k \<and> printable v"
    by (simp_all add: dict_set_sorted)
  moreover have "set (dict_set k v kvs) \<subseteq> insert (k, v) (set kvs)"
    by (induction k v kvs rule: dict_set.induct) auto
  ultimately show "printable (JDict (dict_set k v kvs))" using kv by auto
qed

lemma dict_set_fuel: "fuel_of (JDict (dict_set k v kvs)) \<le> fuel_of (JDict kvs) + Suc (Suc (fuel_of v))"
  by (induction k v kvs rule: dict_set.induct) auto

lemma set_all_printable:
  "printable (JDict kvs) \<Longrightarrow> \<forall>(k, v) \<in> set fields. plain_str k \<and> printable v \<Longrightarrow> printable (JDict (set_all fields kvs))"
proof (induction fields arbitrary: kvs)
  case (Cons kv fields)
  have "plain_str (fst kv)" "printable (snd kv)" "\<forall>(k, v) \<in> set fields. plain_str k \<and> printable v"
    using Cons.prems(2) by (cases kv, simp)+
  then have "printable (JDict (set_all fields (dict_set (fst kv) (snd kv) kvs)))"
    using Cons.IH dict_set_printable [OF Cons.prems(1)] by blast
  then show ?case by (cases kv) (simp del: printable.simps)
qed simp

lemma set_all_fuel: "fuel_of (JDict (set_all fields kvs)) \<le> fuel_of (JDict kvs) + (\<Sum>(k, v)\<leftarrow>fields. Suc (Suc (fuel_of v)))"
proof (induction fields arbitrary: kvs)
  case (Cons kv fields)
  show ?case
    using order_trans [OF Cons.IH [of "dict_set (fst kv) (snd kv) kvs"] add_right_mono [OF dict_set_fuel [of "fst kv" "snd kv" kvs]]]
    by (cases kv) simp
qed simp

section \<open>Properties\<close>

text \<open>
  Claim C8. Parsing the text of a value gives the value back, with fuel for its nesting and
  its elements: for nested lists and dictionaries of non-negative integers, booleans,
  nulls and strings without quotes and backslashes.
\<close>

theorem json_roundtrip:
  assumes "printable v" "fuel_of v \<le> fuel"
  shows "FromString strtod fuel (ToString show_double v) = Some (Inr v)"
  using assms by (rule FromString_ToString)

theorem json_roundtrip_witness:
  "FromString (\<lambda>s. ()) 20 (ToString (\<lambda>d :: unit. ''0.5'') (JDict [(''a'', JList [JInt 7, JNull]), (''b'', JBool True)])) =
    Some (Inr (JDict [(''a'', JList [JInt 7, JNull]), (''b'', JBool True)]))"
  by (rule json_roundtrip) (simp_all add: plain_str_def)

text \<open>
  Whatever the text, a value that the parser returns has its dictionaries in
  strict key order at every level, so each key occurs once.
\<close>

theorem parsed_dicts_ordered:
  assumes "FromString strtod fuel content = Some (Inr v)"
  shows "ordered v"
  using assms ParseJson_ordered by (fastforce simp: FromString_def Init_def pbind_eq_Inr)

theorem parsed_dicts_ordered_witness:
  "ordered (JDict [(''a'', JList [JInt 7, JNull]), (''b'', JBool True)] :: unit json)"
  by (rule parsed_dicts_ordered [of "\<lambda>s. ()" 20 "ToString (\<lambda>d :: unit. ''0.5'') (JDict [(''a'', JList [JInt 7, JNull]), (''b'', JBool True)])"])
    (rule FromString_ToString, simp_all add: plain_str_def)

text \<open>
  An application type goes through JSON text and back: whatever fields \<open>_to_json\<close>
  assigns, in whatever order, reading a member of the object parsed from the text gives the
  value last assigned to it. The fuel covers the sum of the fields.
\<close>

theorem struct_fields_roundtrip:
  assumes "\<forall>(k, v) \<in> set fields. plain_str k \<and> printable v" "map_of (rev fields) key = Some x"
    and "fuel_of (JDict fields) \<le> fuel"
  shows "\<exists>content. ToJSON show_double set_fields fields = Inr content \<and>
    FromJson strtod fuel (\<lambda>obj. try_bind (obj_index key obj) (\<lambda>(y, _). Inr y)) content = Some (Inr x)"
proof -
  let ?kvs = "set_all fields []"
  have "printable (JDict ?kvs)" using set_all_printable [of "[]" fields] assms(1) by simp
  moreover have "fuel_of (JDict ?kvs) \<le> fuel" using set_all_fuel [of fields "[]"] assms(3) by simp
  ultimately have "FromString strtod fuel (ToString show_double (JDict ?kvs)) = Some (Inr (JDict ?kvs))"
    by (rule FromString_ToString)
  moreover have "dict_get ?kvs key = Some x"
    using dicts.find_fold [where k = key and kvs = fields and t = "[]"] assms(2) by simp
  ultimately show ?thesis
    by (auto simp: ToJSON_def FromJson_def set_fields_eq obj_index_def as_dict_def)
qed

theorem struct_fields_roundtrip_witness:
  "\<exists>content. ToJSON (\<lambda>d :: unit. ''0'') set_fields [(''b'', JInt 7), (''a'', JNull)] = Inr content \<and>
    FromJson (\<lambda>_. ()) 20 (\<lambda>obj. try_bind (obj_index ''b'' obj) (\<lambda>(y, _). Inr y)) content = Some (Inr (JInt 7))"
  by (rule struct_fields_roundtrip) (simp_all add: plain_str_def)

text \<open>
  A negative integer does not survive: its text is dispatched to the number parser,
  which insists on a digit and throws.
\<close>

theorem negative_int_rejected:
  assumes "sint i < 0"
  shows "FromString strtod (Suc fuel) (ToString show_double (JInt i)) = Some (Inl LogicError)"
proof -
  let ?ds = "show_nat (nat (- sint i))"
  have t: "ToString show_double (JInt i) = CHR ''-'' # ?ds" using assms by (simp add: to_string_def)
  have "\<not> is_space (last ?ds)"
    using show_nat_digits [of "nat (- sint i)"] last_in_set [of ?ds] by (fastforce simp: is_digit_def is_space_def)
  then have "TrimRight (CHR ''-'' # ?ds) = CHR ''-'' # ?ds"
    using show_nat_digits [of "nat (- sint i)"] by (intro TrimRight_id) auto
  moreover have "GetNextToken fuel (CHR ''-'' # ?ds) 0 = Some (Inr (CHR ''-'', 0))"
    using GetNextToken_append [of "CHR ''-''" fuel "[]" ?ds] by (simp add: is_space_def)
  ultimately show ?thesis unfolding t by (simp add: FromString_def Init_def ParseNumber_def char_at_def is_digit_def)
qed

theorem negative_int_rejected_witness:
  "FromString (\<lambda>s. ()) (Suc 5) (ToString (\<lambda>d :: unit. ''0.5'') (JInt (- 3))) = Some (Inl LogicError)"
  by (rule negative_int_rejected) simp

text \<open>
  Claim C40. A text that starts with a comment and has no line break is never parsed: the
  failed search for the end of the line sends the index back to the start, and no amount
  of fuel gives a result.
\<close>

theorem unterminated_comment_diverges:
  assumes "CHR 0x0A \<notin> set rest"
  shows "FromString strtod fuel (''//'' @ rest) = None"
proof -
  let ?r = "if \<forall>x \<in> set (rev rest). is_space x then [] else TrimRight rest"
  have t: "TrimRight (''//'' @ rest) = ''//'' @ ?r"
    by (simp only: TrimRight_def rev_append dropWhile_append) (simp add: is_space_def)
  have "CHR 0x0A \<notin> set ?r" using assms by (auto simp: TrimRight_def dest: set_dropWhileD)
  then have n: "find_from [CHR 0x0A] (''//'' @ ?r) 0 = None"
    using find_sub_char_None [of "CHR 0x0A" "''//'' @ ?r"] by (simp add: find_from_def)
  have sk: "skip_while is_space (''//'' @ ?r) 0 = Inr 0" by (subst skip_while.simps) (simp add: is_space_def)
  have "comment_lines n (''//'' @ ?r) 0 = None" for n
    using n sk by (induction n) (simp_all add: compare_at_def Let_def)
  then have "GetNextToken n (''//'' @ ?r) 0 = None" for n
    using sk by (simp add: GetNextToken_def SkipComment_def compare_at_def)
  then have "ParseJson strtod fuel (''//'' @ ?r) 0 = None" by (cases fuel) simp_all
  then show ?thesis by (simp only: FromString_def Init_def t pbind_simps Let_def prod.case)
qed

theorem unterminated_comment_diverges_witness:
  "FromString (\<lambda>s. ()) 1000 (''//'' @ '' no line break'') = None"
  by (rule unterminated_comment_diverges) simp

text \<open>
  Text after a complete value is accepted: whatever follows the value, starting with a comma,
  a colon or a closing bracket, is never looked at.
\<close>

theorem trailing_text_ignored:
  assumes "printable v" "fuel_of v \<le> fuel" "c \<in> {CHR '','', CHR '']'', CHR ''}'', CHR '':''}"
  shows "FromString strtod fuel (ToString show_double v @ c # junk) = Some (Inr v)"
  using FromString_prefix [OF assms(1,2), of "c # junk"] assms(3) by (simp add: ends_value_def)

theorem trailing_text_ignored_witness:
  "FromString (\<lambda>s. ()) 5 (ToString (\<lambda>d :: unit. ''0.5'') (JList [JNull]) @ CHR '']'' # ''}:::'') = Some (Inr (JList [JNull]))"
  by (rule trailing_text_ignored) simp_all

end
