(* ===== verification/Json_Total.thy ===== *)
theory Json_Total
  imports Json
begin

text \<open>
  Termination of the JSON parser (\<open>luce/common/json/Parser.cpp\<close>) on every text in which each
  comment the parser can meet is followed by a line break. Each parser moves the index forward inside the text, so fuel for the characters that
  are left is enough; and more fuel never changes a result.
\<close>

lemma string_end_bound: "string_end s pos = Inr q \<Longrightarrow> pos < length s \<Longrightarrow> pos \<le> q \<and> q < length s"
proof (induction s pos rule: string_end.induct)
  case (1 s pos)
  show ?case using 1(2) 
    by (subst (asm) string_end.simps)
      (use 1 in \<open>auto simp: try_bind_eq_Inr split: if_splits option.splits dest!: find_from_bound; fastforce\<close>)
qed

text \<open>
  Every comment that the parser can meet from index \<open>i\<close> on is followed by a line break. Where the
  text goes on is decided as the parser does it: after a comment behind the line break, after a
  string behind its closing quote, so that slashes inside a string are no comment; a string
  without a closing quote ends the parser, and what follows does not matter.
\<close>

function comments_end :: "string \<Rightarrow> nat \<Rightarrow> bool" where
  "comments_end s i =
     (if length s \<le> i then True
      else if take 2 (drop i s) = ''//'' then
        (case find_from [CHR 0x0A] s i of None \<Rightarrow> False | Some q \<Rightarrow> comments_end s (q + 1))
      else if s ! i = CHR 0x22 then
        (case find_from [CHR 0x22] s (i + 1) of
           None \<Rightarrow> True
         | Some q \<Rightarrow> (case string_end s q of Inl e \<Rightarrow> True | Inr p \<Rightarrow> comments_end s (p + 1)))
      else comments_end s (i + 1))"
  by pat_completeness auto
termination
  by (relation "measure (\<lambda>(s, i). length s - i)") (auto dest!: find_from_bound string_end_bound)

declare comments_end.simps [simp del]

lemma comment_head: "take 2 (drop i s) = ''//'' \<Longrightarrow> i < length s \<and> s ! i = CHR ''/''"
  by (cases "drop i s") (auto simp: numeral_2_eq_2 dest: nth_via_drop intro: ccontr)

lemma comments_end_next:
  "comments_end s j \<Longrightarrow> j < length s \<Longrightarrow> take 2 (drop j s) \<noteq> ''//'' \<Longrightarrow> s ! j \<noteq> CHR 0x22 \<Longrightarrow> comments_end s (j + 1)"
  by (simp add: comments_end.simps [of s j])

lemma comments_end_plain:
  assumes "comments_end s i" "i \<le> j" "j \<le> length s" "\<forall>k. i \<le> k \<and> k < j \<longrightarrow> s ! k \<noteq> CHR ''/'' \<and> s ! k \<noteq> CHR 0x22"
  shows "comments_end s j"
  using assms(2-)
proof (induction rule: dec_induct)
  case (step n)
  then have "comments_end s n" "n < length s" "take 2 (drop n s) \<noteq> ''//''" "s ! n \<noteq> CHR 0x22"
    using comment_head [of n s] by auto
  then show ?case using comments_end_next by simp
qed (rule assms(1))

lemma space_digit_plain [dest]: "is_space c \<Longrightarrow> c \<noteq> CHR ''/'' \<and> c \<noteq> CHR 0x22" "is_digit c \<Longrightarrow> c \<noteq> CHR ''/'' \<and> c \<noteq> CHR 0x22"
  by (auto simp: is_space_def is_digit_def)

text \<open>A parser that was started at index \<open>i\<close> returns, and with a value it has moved on.\<close>

fun advances :: "string \<Rightarrow> nat \<Rightarrow> ('a \<times> nat) parse_result \<Rightarrow> bool" where
  "advances s i None \<longleftrightarrow> False"
| "advances s i (Some (Inl e)) \<longleftrightarrow> True"
| "advances s i (Some (Inr (x, j))) \<longleftrightarrow> i < j \<and> j \<le> length s \<and> comments_end s j"

lemma advances_mono: "advances s j r \<Longrightarrow> i \<le> j \<Longrightarrow> advances s i r"
  by (cases "(s, i, r)" rule: advances.cases) auto

lemma advances_if: "(c \<Longrightarrow> advances s i a) \<Longrightarrow> (\<not> c \<Longrightarrow> advances s i b) \<Longrightarrow> advances s i (if c then a else b)"
  by simp

lemma advances_pbind:
  assumes "advances s i m"
    "\<And>x j. m = Some (Inr (x, j)) \<Longrightarrow> i < j \<Longrightarrow> j \<le> length s \<Longrightarrow> comments_end s j \<Longrightarrow> advances s i' (f (x, j))"
  shows "advances s i' (pbind m f)"
  using assms by (cases "(s, i, m)" rule: advances.cases) auto

section \<open>Tokens\<close>

lemma skip_while_returns:
  "i \<le> length s \<Longrightarrow> \<exists>j. skip_while P s i = Inr j \<and> i \<le> j \<and> j \<le> length s \<and> (j < length s \<longrightarrow> \<not> P (s ! j)) \<and> (\<forall>k. i \<le> k \<and> k < j \<longrightarrow> P (s ! k))"
proof (induction P s i rule: skip_while.induct)
  case (1 P s i)
  show ?case
  proof (cases "i < length s \<and> P (s ! i)")
    case True
    then obtain j where "skip_while P s (i + 1) = Inr j" "i + 1 \<le> j" "j \<le> length s" "j < length s \<longrightarrow> \<not> P (s ! j)"
      "\<forall>k. i + 1 \<le> k \<and> k < j \<longrightarrow> P (s ! k)" using 1 by auto
    then show ?thesis using True by (subst skip_while.simps) (auto simp: le_eq_less_or_eq [of i] Suc_le_eq)
  next
    case False
    then show ?thesis using 1(2) by (subst skip_while.simps) auto
  qed
qed

lemma compare_comment: "j \<le> length s \<Longrightarrow> compare_at s j ''//'' = Inr (take 2 (drop j s) = ''//'')"
  by (simp add: compare_at_def numeral_2_eq_2)

lemma skip_spaces:
  assumes "comments_end s i" "i \<le> length s"
  obtains j where "skip_while is_space s i = Inr j" "i \<le> j" "j \<le> length s" "comments_end s j"
  using skip_while_returns [OF assms(2), of is_space] comments_end_plain [OF assms(1)] by blast

lemma comment_lines_returns:
  assumes "comments_end s i" "take 2 (drop i s) = ''//''" "length s - i \<le> n"
  shows "\<exists>j. comment_lines n s i = Some (Inr j) \<and> i < j \<and> j \<le> length s \<and> comments_end s j \<and> take 2 (drop j s) \<noteq> ''//''"
  using assms
proof (induction n arbitrary: i)
  case 0
  then show ?case using comment_head [of i s] by simp
next
  case (Suc n)
  obtain q where q: "find_from [CHR 0x0A] s i = Some q" "comments_end s (q + 1)"
    using Suc.prems(1,2) comment_head [of i s] by (auto simp: comments_end.simps [of s i] split: option.splits)
  then have b: "i \<le> q" "q < length s" using find_from_bound by blast+
  obtain j where j: "skip_while is_space s (q + 1) = Inr j" "q + 1 \<le> j" "j \<le> length s" "comments_end s j"
    by (rule skip_spaces [OF q(2)]) (use b in auto)
  show ?case
  proof (cases "take 2 (drop j s) = ''//''")
    case True
    have "length s - j \<le> n" using Suc.prems(3) b j(2,3) by linarith
    then obtain k where "comment_lines n s j = Some (Inr k)" "j < k" "k \<le> length s" "comments_end s k" "take 2 (drop k s) \<noteq> ''//''"
      using Suc.IH [of j] j(4) True by blast
    then show ?thesis using q b j True by (auto simp: compare_comment)
  next
    case False
    then show ?thesis using q b j by (auto simp: compare_comment)
  qed
qed

text \<open>A token was read at or behind \<open>i\<close>; a string starts there if it is a quote, and otherwise the
  text goes on behind it.\<close>

fun token_at :: "string \<Rightarrow> nat \<Rightarrow> (char \<times> nat) parse_result \<Rightarrow> bool" where
  "token_at s i None \<longleftrightarrow> False"
| "token_at s i (Some (Inl e)) \<longleftrightarrow> True"
| "token_at s i (Some (Inr (c, j))) \<longleftrightarrow> i \<le> j \<and> (j < length s \<and> c = s ! j \<or> j = length s \<and> c = CHR 0x00) \<and>
     comments_end s j \<and> take 2 (drop j s) \<noteq> ''//''"

lemma GetNextToken_returns:
  assumes "comments_end s i" "i \<le> length s" "length s - i \<le> n"
  shows "token_at s i (GetNextToken n s i)"
proof -
  obtain i1 where i1: "skip_while is_space s i = Inr i1" "i \<le> i1" "i1 \<le> length s" "comments_end s i1"
    by (rule skip_spaces [OF assms(1,2)])
  show ?thesis
  proof (cases "take 2 (drop i1 s) = ''//''")
    case True
    moreover have "length s - i1 \<le> n" using i1(2) assms(3) by linarith
    ultimately obtain j where "comment_lines n s i1 = Some (Inr j)" "i1 < j" "j \<le> length s" "comments_end s j"
      "take 2 (drop j s) \<noteq> ''//''" using comment_lines_returns [OF i1(4), of n] by blast
    then show ?thesis using True i1 comment_head [OF True]
      by (auto simp: GetNextToken_def SkipComment_def compare_comment char_at_def)
  next
    case False
    then show ?thesis using i1 by (auto simp: GetNextToken_def SkipComment_def compare_comment char_at_def)
  qed
qed

lemma token_pbind:
  assumes "token_at s i m" "\<And>c j. m = Some (Inr (c, j)) \<Longrightarrow> i \<le> j \<Longrightarrow> j \<le> length s \<Longrightarrow> comments_end s j \<Longrightarrow>
      (c \<noteq> CHR 0x00 \<Longrightarrow> j < length s \<and> c = s ! j) \<Longrightarrow>
      (c \<noteq> CHR 0x00 \<Longrightarrow> c \<noteq> CHR 0x22 \<Longrightarrow> comments_end s (j + 1)) \<Longrightarrow> advances s i' (f (c, j))"
  shows "advances s i' (pbind m f)"
  using assms by (cases "(s, i, m)" rule: token_at.cases) (auto dest: comments_end_next)

section \<open>Scalars\<close>

lemma compare_at_length: "compare_at s i lit = Inr True \<Longrightarrow> i + length lit \<le> length s"
proof -
  assume "compare_at s i lit = Inr True"
  then have "i \<le> length s" "take (length lit) (drop i s) = lit" by (auto simp: compare_at_def split: if_splits)
  then show ?thesis using length_take [of "length lit" "drop i s"] by auto
qed

lemma compare_at_plain:
  assumes "compare_at s i lit = Inr True" "comments_end s i" "\<forall>c \<in> set lit. c \<noteq> CHR ''/'' \<and> c \<noteq> CHR 0x22"
  shows "comments_end s (i + length lit)"
proof (rule comments_end_plain [OF assms(2)])
  have l: "i + length lit \<le> length s" by (rule compare_at_length [OF assms(1)])
  then show "i \<le> i + length lit" "i + length lit \<le> length s" by simp_all
  have t: "take (length lit) (drop i s) = lit" using assms(1) by (auto simp: compare_at_def split: if_splits)
  have "s ! k = lit ! (k - i)" if "i \<le> k" "k < i + length lit" for k
    using that l arg_cong [OF t, of "\<lambda>xs. xs ! (k - i)"] by simp
  then show "\<forall>k. i \<le> k \<and> k < i + length lit \<longrightarrow> s ! k \<noteq> CHR ''/'' \<and> s ! k \<noteq> CHR 0x22"
    using assms(3) nth_mem by (metis add.commute less_diff_conv2)
qed

lemma ParseNull_advances: "comments_end s i \<Longrightarrow> advances s i (Some (ParseNull s i))"
  using compare_at_length [of s i "''null''"] compare_at_plain [of s i "''null''"]
  by (cases "compare_at s i ''null''") (auto simp: ParseNull_def eval_nat_numeral)

lemma ParseBool_advances: "comments_end s i \<Longrightarrow> advances s i (Some (ParseBool s i))"
  using compare_at_length [of s i "''true''"] compare_at_length [of s i "''false''"]
    compare_at_plain [of s i "''true''"] compare_at_plain [of s i "''false''"]
  by (cases "compare_at s i ''true''"; cases "compare_at s i ''false''") (auto simp: ParseBool_def eval_nat_numeral)

lemma skip_digits:
  assumes "comments_end s i" "i \<le> length s"
  obtains j where "skip_while is_digit s i = Inr j" "i \<le> j" "j \<le> length s" "comments_end s j"
    "j < length s \<longrightarrow> \<not> is_digit (s ! j)"
  using skip_while_returns [OF assms(2), of is_digit] comments_end_plain [OF assms(1)] by blast

lemma ParseNumber_advances:
  assumes "comments_end s i" "i \<le> length s"
  shows "advances s i (Some (ParseNumber strtod s i))"
proof -
  obtain j where j: "skip_while is_digit s i = Inr j" "i \<le> j" "j \<le> length s" "comments_end s j"
    "j < length s \<longrightarrow> \<not> is_digit (s ! j)" by (rule skip_digits [OF assms])
  show ?thesis
  proof (cases "i < length s \<and> is_digit (s ! i)")
    case True
    then have ij: "i < j" using j by (metis le_neq_implies_less)
    show ?thesis
    proof (cases "j < length s \<and> s ! j = CHR ''.''")
      case True
      then have "comments_end s (j + 1)" using comment_head [of j s] by (intro comments_end_next [OF j(4)]) auto
      then obtain k where "skip_while is_digit s (j + 1) = Inr k" "j + 1 \<le> k" "k \<le> length s" "comments_end s k"
        by (rule skip_digits) (use True in auto)
      then show ?thesis using \<open>i < length s \<and> is_digit (s ! i)\<close> j ij True by (simp add: ParseNumber_def char_at_def)
    next
      case False
      then show ?thesis using \<open>i < length s \<and> is_digit (s ! i)\<close> j ij by (auto simp: ParseNumber_def char_at_def)
    qed
  next
    case False
    then show ?thesis using assms by (auto simp: ParseNumber_def char_at_def is_digit_def)
  qed
qed

lemma ParseString_advances:
  assumes "comments_end s i" "i < length s" "s ! i = CHR 0x22"
  shows "advances s i (Some (ParseString s i))"
proof (cases "find_from [CHR 0x22] s (i + 1)")
  case (Some q)
  then have "i + 1 \<le> q" "q < length s" using find_from_bound by blast+
  moreover have "take 2 (drop i s) \<noteq> ''//''" using comment_head [of i s] assms(3) by auto
  ultimately show ?thesis using assms Some string_end_bound [of s q]
    by (cases "string_end s q") (auto simp: ParseString_def comments_end.simps [of s i])
qed (simp add: ParseString_def)

section \<open>Lists and dictionaries\<close>

lemma list_items_advances:
  assumes "\<And>j. i \<le> j \<Longrightarrow> j \<le> length s \<Longrightarrow> comments_end s j \<Longrightarrow> advances s j (parse j)"
    and "i \<le> j" "j \<le> length s" "comments_end s j" "length s - j < m"
  shows "advances s j (list_items parse m s j arr)"
  using assms(2-)
proof (induction m arbitrary: j arr)
  case (Suc m)
  show ?case unfolding list_items.simps
  proof (rule advances_pbind [OF assms(1) [OF Suc.prems(1-3)]], unfold prod.case)
    fix v k assume k: "j < k" "k \<le> length s" "comments_end s k"
    have "token_at s k (GetNextToken m s k)"
      using GetNextToken_returns [OF k(3,2)] Suc.prems k by simp
    then show "advances s j (pbind (GetNextToken m s k) (\<lambda>(ch, i2). if ch = CHR '']'' then Some (Inr (JList (arr @ [v]), i2 + 1))
        else if ch \<noteq> CHR '','' then Some (Inl LogicError) else list_items parse m s (i2 + 1) (arr @ [v])))"
    proof (rule token_pbind, unfold prod.case)
      fix c q assume q: "k \<le> q" "c \<noteq> CHR 0x00 \<Longrightarrow> q < length s \<and> c = s ! q"
        "c \<noteq> CHR 0x00 \<Longrightarrow> c \<noteq> CHR 0x22 \<Longrightarrow> comments_end s (q + 1)"
      have "c = CHR '','' \<Longrightarrow> comments_end s (q + 1)" "c = CHR '']'' \<Longrightarrow> comments_end s (q + 1)" using q(3) by simp_all
      then show "advances s j (if c = CHR '']'' then Some (Inr (JList (arr @ [v]), q + 1))
          else if c \<noteq> CHR '','' then Some (Inl LogicError) else list_items parse m s (q + 1) (arr @ [v]))"
        using q(1,2) k Suc.prems advances_mono [OF Suc.IH [of "q + 1" "arr @ [v]"], of j] by auto
    qed
  qed
qed simp

lemma ParseList_advances:
  assumes "comments_end s (i + 1)" "\<And>j. i < j \<Longrightarrow> j \<le> length s \<Longrightarrow> comments_end s j \<Longrightarrow> advances s j (parse j)"
    and "i < length s" "length s - i \<le> n"
  shows "advances s i (ParseList parse n s i)"
  unfolding ParseList_def
proof (rule token_pbind, unfold prod.case)
  show "token_at s (i + 1) (GetNextToken n s (i + 1))" using GetNextToken_returns [OF assms(1)] assms(3,4) by simp
  fix c q assume q: "i + 1 \<le> q" "q \<le> length s" "comments_end s q" "c \<noteq> CHR 0x00 \<Longrightarrow> q < length s \<and> c = s ! q"
    "c \<noteq> CHR 0x00 \<Longrightarrow> c \<noteq> CHR 0x22 \<Longrightarrow> comments_end s (q + 1)"
  have "advances s q (list_items parse n s q [])"
    by (rule list_items_advances [where i = "i + 1"]) (use q assms(2-4) in auto)
  then show "advances s i (if c = CHR '']'' then Some (Inr (JList [], q + 1)) else list_items parse n s q [])"
    using q advances_mono [of s q _ i] by auto
qed

lemma dict_items_advances:
  assumes "\<And>j. i \<le> j \<Longrightarrow> j \<le> length s \<Longrightarrow> comments_end s j \<Longrightarrow> advances s j (parse j)"
    and "i \<le> j" "j \<le> length s" "comments_end s j" "length s - j < m"
  shows "advances s j (dict_items parse m s j dict)"
  using assms(2-)
proof (induction m arbitrary: j dict)
  case (Suc m)
  show ?case unfolding dict_items.simps
  proof (rule advances_pbind [OF assms(1) [OF Suc.prems(1-3)]], unfold prod.case)
    fix kv k assume k: "j < k" "k \<le> length s" "comments_end s k"
    have tok: "token_at s q (GetNextToken m s q)" if "k \<le> q" "q \<le> length s" "comments_end s q" for q
      using GetNextToken_returns [OF that(3,2)] Suc.prems k that(1) by simp
    have last: "advances s j (pbind (GetNextToken m s q) (\<lambda>(ch', i4). if ch' = CHR ''}'' then Some (Inr (JDict (dict_set key v dict), i4 + 1))
        else if ch' \<noteq> CHR '','' then Some (Inl LogicError) else dict_items parse m s (i4 + 1) (dict_set key v dict)))"
      if "k < q" "q \<le> length s" "comments_end s q" for q key v
    proof (rule token_pbind [OF tok], unfold prod.case)
      fix c p assume p: "q \<le> p" "c \<noteq> CHR 0x00 \<Longrightarrow> p < length s \<and> c = s ! p"
        "c \<noteq> CHR 0x00 \<Longrightarrow> c \<noteq> CHR 0x22 \<Longrightarrow> comments_end s (p + 1)"
      have "c = CHR '','' \<Longrightarrow> comments_end s (p + 1)" "c = CHR ''}'' \<Longrightarrow> comments_end s (p + 1)" using p(3) by simp_all
      then show "advances s j (if c = CHR ''}'' then Some (Inr (JDict (dict_set key v dict), p + 1))
          else if c \<noteq> CHR '','' then Some (Inl LogicError) else dict_items parse m s (p + 1) (dict_set key v dict))"
        using p(1,2) that k Suc.prems advances_mono [OF Suc.IH [of "p + 1" "dict_set key v dict"], of j] by auto
    qed (use that in auto)
    have rest: "advances s j (pbind (GetNextToken m s k) (\<lambda>(ch, i2). if ch \<noteq> CHR '':'' then Some (Inl LogicError)
        else pbind (parse (i2 + 1)) (\<lambda>(v, i3). pbind (GetNextToken m s i3) (\<lambda>(ch', i4).
          if ch' = CHR ''}'' then Some (Inr (JDict (dict_set key v dict), i4 + 1))
          else if ch' \<noteq> CHR '','' then Some (Inl LogicError) else dict_items parse m s (i4 + 1) (dict_set key v dict)))))" for key
    proof (rule token_pbind [OF tok [OF order_refl k(2,3)]], unfold prod.case)
      fix c q assume q: "k \<le> q" "c \<noteq> CHR 0x00 \<Longrightarrow> q < length s \<and> c = s ! q"
        "c \<noteq> CHR 0x00 \<Longrightarrow> c \<noteq> CHR 0x22 \<Longrightarrow> comments_end s (q + 1)"
      have "advances s (q + 1) (parse (q + 1))" if "c = CHR '':''"
      proof (rule assms(1))
        show "comments_end s (q + 1)" using q(3) that by simp
      qed (use q(1,2) k Suc.prems that in auto)
      then have "advances s j (pbind (parse (q + 1)) (\<lambda>(v, i3). pbind (GetNextToken m s i3) (\<lambda>(ch', i4).
            if ch' = CHR ''}'' then Some (Inr (JDict (dict_set key v dict), i4 + 1))
            else if ch' \<noteq> CHR '','' then Some (Inl LogicError) else dict_items parse m s (i4 + 1) (dict_set key v dict))))"
        if "c = CHR '':''" by (rule advances_pbind) (use that last q(1) in simp_all)
      then show "advances s j (if c \<noteq> CHR '':'' then Some (Inl LogicError)
          else pbind (parse (q + 1)) (\<lambda>(v, i3). pbind (GetNextToken m s i3) (\<lambda>(ch', i4).
            if ch' = CHR ''}'' then Some (Inr (JDict (dict_set key v dict), i4 + 1))
            else if ch' \<noteq> CHR '','' then Some (Inl LogicError) else dict_items parse m s (i4 + 1) (dict_set key v dict))))"
        by (simp only: advances.simps split: if_split) simp
    qed
    then show "advances s j (pbind (Some (as_str kv)) (\<lambda>key. pbind (GetNextToken m s k) (\<lambda>(ch, i2). if ch \<noteq> CHR '':'' then Some (Inl LogicError)
        else pbind (parse (i2 + 1)) (\<lambda>(v, i3). pbind (GetNextToken m s i3) (\<lambda>(ch', i4).
          if ch' = CHR ''}'' then Some (Inr (JDict (dict_set key v dict), i4 + 1))
          else if ch' \<noteq> CHR '','' then Some (Inl LogicError) else dict_items parse m s (i4 + 1) (dict_set key v dict))))))"
      by (cases "as_str kv") simp_all
  qed
qed simp

lemma ParseDict_advances:
  assumes "comments_end s (i + 1)" "\<And>j. i < j \<Longrightarrow> j \<le> length s \<Longrightarrow> comments_end s j \<Longrightarrow> advances s j (parse j)"
    and "i < length s" "length s - i \<le> n"
  shows "advances s i (ParseDict parse n s i)"
  unfolding ParseDict_def
proof (rule token_pbind, unfold prod.case)
  show "token_at s (i + 1) (GetNextToken n s (i + 1))" using GetNextToken_returns [OF assms(1)] assms(3,4) by simp
  fix c q assume q: "i + 1 \<le> q" "q \<le> length s" "comments_end s q" "c \<noteq> CHR 0x00 \<Longrightarrow> q < length s \<and> c = s ! q"
    "c \<noteq> CHR 0x00 \<Longrightarrow> c \<noteq> CHR 0x22 \<Longrightarrow> comments_end s (q + 1)"
  have "advances s q (dict_items parse n s q [])"
    by (rule dict_items_advances [where i = "i + 1"]) (use q assms(2-4) in auto)
  then show "advances s i (if c = CHR ''}'' then Some (Inr (JDict [], q + 1)) else dict_items parse n s q [])"
    using q advances_mono [of s q _ i] by auto
qed

lemma ParseJson_advances:
  assumes "comments_end s i" "i \<le> length s" "length s - i < n"
  shows "advances s i (ParseJson strtod n s i)"
  using assms
proof (induction n arbitrary: i)
  case (Suc n)
  have "token_at s i (GetNextToken n s i)" using GetNextToken_returns [OF Suc.prems(1,2)] Suc.prems(3) by simp
  then show ?case unfolding ParseJson.simps
  proof (rule token_pbind, unfold prod.case)
    fix c q assume q: "i \<le> q" "q \<le> length s" "comments_end s q" "c \<noteq> CHR 0x00 \<Longrightarrow> q < length s \<and> c = s ! q"
      "c \<noteq> CHR 0x00 \<Longrightarrow> c \<noteq> CHR 0x22 \<Longrightarrow> comments_end s (q + 1)"
    have IH: "advances s j (ParseJson strtod n s j)" if "q < j" "j \<le> length s" "comments_end s j" for j
      using Suc.IH [of j] Suc.prems that q(1) by simp
    note scalars = ParseNull_advances [OF q(3)] ParseBool_advances [OF q(3)] ParseNumber_advances [OF q(3,2)]
    have "advances s q (if c = CHR ''n'' then Some (ParseNull s q)
      else if c = CHR ''t'' \<or> c = CHR ''f'' then Some (ParseBool s q)
      else if c = CHR ''-'' \<or> is_digit c then Some (ParseNumber strtod s q)
      else if c = CHR 0x22 then Some (ParseString s q)
      else if c = CHR ''['' then ParseList (ParseJson strtod n s) n s q
      else if c = CHR ''{'' then ParseDict (ParseJson strtod n s) n s q
      else Some (Inl LogicError))"
    proof (cases "c = CHR 0x00")
      case True
      then show ?thesis by (simp add: is_digit_def)
    next
      case False
      have n: "length s - q \<le> n" using Suc.prems q(1) by simp
      have "q < length s" "c = s ! q" using q(4) [OF False] by simp_all
      then have "advances s q (Some (ParseString s q))" if "c = CHR 0x22" using ParseString_advances [OF q(3)] that by simp
      moreover have "advances s q (ParseList (ParseJson strtod n s) n s q)" if "c \<noteq> CHR 0x22"
        by (rule ParseList_advances [OF q(5) [OF False that] IH \<open>q < length s\<close> n])
      moreover have "advances s q (ParseDict (ParseJson strtod n s) n s q)" if "c \<noteq> CHR 0x22"
        by (rule ParseDict_advances [OF q(5) [OF False that] IH \<open>q < length s\<close> n])
      ultimately show ?thesis by (intro advances_if scalars) simp_all
    qed
    then show "advances s i (if c = CHR ''n'' then Some (ParseNull s q)
      else if c = CHR ''t'' \<or> c = CHR ''f'' then Some (ParseBool s q)
      else if c = CHR ''-'' \<or> is_digit c then Some (ParseNumber strtod s q)
      else if c = CHR 0x22 then Some (ParseString s q)
      else if c = CHR ''['' then ParseList (ParseJson strtod n s) n s q
      else if c = CHR ''{'' then ParseDict (ParseJson strtod n s) n s q
      else Some (Inl LogicError))" by (rule advances_mono [OF _ q(1)])
  qed
qed simp

section \<open>More fuel\<close>

text \<open>The flat order on results: no result yet is below every result.\<close>

definition below :: "'a option \<Rightarrow> 'a option \<Rightarrow> bool" where
  "below a b \<longleftrightarrow> a = None \<or> a = b"

lemma below_refl [simp]: "below a a" and below_None [simp]: "below None a"
  by (simp_all add: below_def)

lemma below_pbind: "below m m' \<Longrightarrow> (\<And>x. below (f x) (f' x)) \<Longrightarrow> below (pbind m f) (pbind m' f')"
  by (auto simp: below_def pbind_def split: option.splits sum.splits)

lemma below_if: "below a a' \<Longrightarrow> below b b' \<Longrightarrow> below (if c then a else b) (if c then a' else b')"
  by simp

lemmas below_intros = below_pbind below_if below_refl

lemma comment_lines_mono: "n \<le> m \<Longrightarrow> below (comment_lines n s i) (comment_lines m s i)"
proof (induction n arbitrary: m i)
  case (Suc n)
  then obtain k where m: "m = Suc k" "n \<le> k" by (cases m) auto
  show ?case unfolding m(1) comment_lines.simps Let_def by (intro below_intros Suc.IH [OF m(2)])
qed simp

lemma GetNextToken_mono: "n \<le> m \<Longrightarrow> below (GetNextToken n s i) (GetNextToken m s i)"
  unfolding GetNextToken_def SkipComment_def by (intro below_intros comment_lines_mono)

lemma list_items_mono:
  assumes "\<And>j. below (parse j) (parse' j)"
  shows "n \<le> m \<Longrightarrow> below (list_items parse n s i arr) (list_items parse' m s i arr)"
proof (induction n arbitrary: m i arr)
  case (Suc n)
  then obtain k where m: "m = Suc k" "n \<le> k" by (cases m) auto
  show ?case unfolding m(1) list_items.simps split_beta by (intro below_intros assms GetNextToken_mono [OF m(2)] Suc.IH [OF m(2)])
qed simp

lemma dict_items_mono:
  assumes "\<And>j. below (parse j) (parse' j)"
  shows "n \<le> m \<Longrightarrow> below (dict_items parse n s i dict) (dict_items parse' m s i dict)"
proof (induction n arbitrary: m i dict)
  case (Suc n)
  then obtain k where m: "m = Suc k" "n \<le> k" by (cases m) auto
  show ?case unfolding m(1) dict_items.simps split_beta by (intro below_intros assms GetNextToken_mono [OF m(2)] Suc.IH [OF m(2)])
qed simp

lemma ParseJson_mono: "n \<le> m \<Longrightarrow> below (ParseJson strtod n s i) (ParseJson strtod m s i)"
proof (induction n arbitrary: m i)
  case (Suc n)
  then obtain k where m: "m = Suc k" "n \<le> k" by (cases m) auto
  show ?case unfolding m(1) ParseJson.simps ParseList_def ParseDict_def split_beta
    by (intro below_intros GetNextToken_mono [OF m(2)] list_items_mono [OF Suc.IH [OF m(2)] m(2)] dict_items_mono [OF Suc.IH [OF m(2)] m(2)])
qed simp

lemma FromString_mono: "n \<le> m \<Longrightarrow> below (FromString strtod n content) (FromString strtod m content)"
  unfolding FromString_def Init_def Let_def prod.case by (intro below_intros ParseJson_mono)

section \<open>Properties\<close>

lemma length_TrimRight: "length (TrimRight s) \<le> length s"
  using TrimRight_prefix [of s] by (metis length_append le_add1)

lemma FromString_returns:
  assumes "comments_end (TrimRight content) 0"
  shows "FromString strtod (Suc (length content)) content \<noteq> None"
proof -
  have "length (TrimRight content) - 0 < Suc (length content)" using length_TrimRight [of content] by simp
  then have "advances (TrimRight content) 0 (ParseJson strtod (Suc (length content)) (TrimRight content) 0)"
    by (intro ParseJson_advances assms) simp_all
  then show ?thesis
    by (cases "(TrimRight content, 0 :: nat, ParseJson strtod (Suc (length content)) (TrimRight content) 0)" rule: advances.cases)
      (auto simp: FromString_def Init_def)
qed

text \<open>
  Claim C9. Trim the blanks at the end of a text, as the parser does. If each comment the parser can
  meet in the trimmed text is followed by a line break (slashes inside strings are no comment; a
  comment in the last line is not followed by one, since trimming removes the break), the parser
  terminates, well formed or not: there is one result, a value or an exception, that every amount
  of fuel above the length of the text gives.
\<close>

theorem json_parser_total:
  assumes "comments_end (TrimRight content) 0"
  shows "\<exists>r. \<forall>fuel > length content. FromString strtod fuel content = Some r"
proof -
  obtain r where r: "FromString strtod (Suc (length content)) content = Some r" using FromString_returns [OF assms] by blast
  have "FromString strtod fuel content = Some r" if "length content < fuel" for fuel
    using FromString_mono [of "Suc (length content)" fuel strtod content] that r by (simp add: below_def)
  then show ?thesis by blast
qed

theorem json_parser_total_witness:
  "\<exists>r. \<forall>fuel > length [CHR ''['', CHR 0x22, CHR ''/'', CHR ''/'', CHR 0x22, CHR '','', CHR ''/'', CHR ''/'', CHR 0x0A, CHR ''1''].
    FromString (\<lambda>s. ()) fuel [CHR ''['', CHR 0x22, CHR ''/'', CHR ''/'', CHR 0x22, CHR '','', CHR ''/'', CHR ''/'', CHR 0x0A, CHR ''1''] = Some r"
  by (rule json_parser_total) code_simp

end
