(* ===== verification/Spec2Isabelle.thy ===== *)
theory Spec2Isabelle
  imports TinyPB Http_Server Sys_Util Server_Run Reactor Echo_Server Co_Task Fair_Co_Pool Io_Buffer Json_Total
begin

text \<open>
  Verification of luce, a network library in C++20 coroutines (\<open>src/luce\<close>).

  \<^bold>\<open>The program.\<close> A \<open>TcpServer\<close> accepts connections in a coroutine and commits the handling of
  each to a thread pool. Handlers are coroutines too: the HTTP server parses requests, routes
  them and sends responses; the RPC server reads length-prefixed packets, calls bound
  functions and sends their results. Reading and writing go through awaiters that register
  the suspended coroutine with an epoll based event manager and are resumed by its loop.
  Timers close idle connections. Below these are the codecs (the serializer of RPC, the TinyPB
  packet format, JSON), string functions, queues, pools and buffers.

  \<^bold>\<open>Theories and sources.\<close>
  \<^item> \<open>Luce_Prelude\<close>: byte strings and words in little-endian order, results with errors
    (\<open>try_bind\<close>), text of numbers, and the interfaces \<open>step_system\<close> (an invariant of a step
    relation holds in all reachable states), \<open>refinement_map\<close> (runs of one relation are runs of
    another) and \<open>key_table\<close> (the last insertion wins); weak fairness of an action in an infinite
    run, and the rule that an action which stays enabled is taken.
  \<^item> \<open>Serializer\<close> (\<open>codec/serializer.h\<close>, \<open>type_helper.h\<close>): the overload set as a recursion over a
    datatype of C++ types. Interface \<open>codec\<close>, interpreted for every width and type, and
    \<open>canonical_codec\<close>, which extends it: no proper prefix of an encoding is read as a value.
  \<^item> \<open>TinyPB\<close> (\<open>codec/tinypb_*\<close>, \<open>net/util.h\<close>): encoder and decoder; reads and stack copies that
    the code does not check are error values.
  \<^item> \<open>Timer_Manager\<close> (\<open>timer/timer.h\<close>): the array heap with 32-bit indices and the tick loop.
    Interface \<open>timer_service\<close>, used by the HTTP server; the order of the heap is an invariant
    of the runs in which no timer is cancelled.
  \<^item> \<open>String_Util\<close> (\<open>common/string_util.*\<close>): all functions of the namespace.
  \<^item> \<open>Json\<close> (\<open>common/json/*\<close>): values, printer and recursive parser. \<open>Json_Total\<close> shows that the
    parser returns: what each of its functions consumes, and that more fuel changes no result.
  \<^item> \<open>Blocking_Queue\<close> (\<open>common/blocking_queue.h\<close>, \<open>count_down_latch.h\<close>): interface \<open>fifo_queue\<close>, with
    the waiting and the non-blocking calls.
  \<^item> \<open>Thread_Pool\<close> (\<open>common/thread_pool.h\<close>): callers and workers as an interleaving of critical
    sections, a step relation with a history of the tasks. Interface
    \<open>task_sink\<close>, used by the accept loop. \<open>Fair_Pool\<close> has its infinite runs under a fair scheduler.
  \<^item> \<open>Queue_Pools\<close> (\<open>common/blocking_queue_thread_pool.h\<close>, \<open>co/co_thread_pool.*\<close>): the pools with
    a queue per worker, random choice, work stealing and core bindings, and the runs of the
    coroutine pool with the history of what was scheduled and resumed. \<open>Fair_Co_Pool\<close> has its
    infinite runs under a fair scheduler, with and without stealing.
  \<^item> \<open>Co_Task\<close> (\<open>co/task.h\<close>, \<open>co/scheduler.*\<close>): coroutine frames by address with promise,
    continuation and owner; awaiting, yielding, exceptions, final suspension, detaching,
    destruction and spawning, and the coroutine of a connection
    (\<open>net/tcp/tcp_application.cpp\<close>, \<open>tcp_connection.cpp\<close>).
  \<^item> \<open>Io_Buffer\<close> (\<open>io/io_buffer.*\<close>): buffers and the memory pool by size class.
  \<^item> \<open>Event_Manager\<close> (\<open>net/event_manager.*\<close>, \<open>net/socket.h\<close>, \<open>net/tcp/tcp_connection.*\<close>): the
    registration of sockets, the event loop, closing and destruction of connections.
  \<^item> \<open>Reactor\<close> (the same files): all sockets of one event manager, accepted, waited on, closed and
    destroyed in any order, with the pointer that the kernel keeps for each descriptor and the
    operations in progress, which interleave between their accesses to the interest list and the
    coroutine handles; run without interruption they are the operations of \<open>Event_Manager\<close>.
  \<^item> \<open>Io_Awaiter\<close> (\<open>io/io_awaiter.*\<close>, \<open>net/tcp/tcp_acceptor.cpp\<close>): reading, writing, packets
    and accepting over traces of system call results; after the event manager is shut down nothing
    that waits is resumed.
  \<^item> \<open>Tcp_Server\<close> (\<open>net/tcp/tcp_server.*\<close>, \<open>tcp_acceptor.cpp\<close>, \<open>tcp_application.cpp\<close>): the
    constructor, the accept loop with the server it leaves behind, the sub reactors, \<open>Shutdown\<close>.
  \<^item> \<open>Server_Run\<close>: all of \<open>TcpServer\<close> running, the accept loop, the two pools, the timer thread and
    \<open>Shutdown\<close> as interleaved steps, with handlers that return or spin. A refinement map to the runs of the thread pool carries the
    pool's invariant over, and fair runs of the server to fair runs of the pool; the theorems
    are at the end of this theory.
  \<^item> \<open>Http_Message\<close>, \<open>Http_Router\<close>, \<open>Http_Server\<close> (\<open>net/http/*\<close>): requests and responses, contexts
    and routes, the request loop.
  \<^item> \<open>Rpc\<close> (\<open>net/rpc/*\<close>): responses, server and blocking client.
  \<^item> \<open>Echo_Server\<close> (\<open>example/echo_server.cpp\<close>): the handler of the example application.
  \<^item> \<open>Sys_Util\<close> (\<open>net/inet_address.h\<close>, \<open>common/Timestamp.*\<close>, \<open>common/logger.h\<close>, \<open>common/singleton.h\<close>):
    socket addresses, time stamps, the logging macros and the singleton.

  \<^bold>\<open>Conventions.\<close> A C++ class is a record, its methods are functions that return the new state.
  \<open>size_t\<close>, \<open>uint32_t\<close> and \<open>int32_t\<close> are words where wrap-around matters. Exceptions, fatal
  logging and undefined behaviour (reads out of range, dangling references, missing returns)
  are constructors of error types, never a made-up value, with two exceptions, where every
  compilation does the same: the HTTP server stores the byte behind its request one past the size
  of the vector but inside its allocation (\<open>c_text\<close>), and \<open>Task<void>::run\<close> calls an empty member
  function of a promise that may be destroyed (\<open>task_run_void\<close>); both are taken to have no other
  effect. A \<open>std::unordered_map\<close> that is iterated (the headers of a response) is a list in the
  order of insertion, an order that C++ leaves open. System calls are not called:
  their results are arguments, either single values or traces consumed one by one, and a
  coroutine whose trace has ended is \<open>Suspended\<close>. The kernel's interest list is a parameter with
  the documented laws of \<open>epoll_ctl\<close> (\<open>epoll_laws\<close>), which the map of descriptors to masks
  satisfies (\<open>map_epoll_laws\<close>). Functions bound by an application, route handlers, coroutine
  bodies, number formatting, \<open>strtod\<close>, \<open>inet_addr\<close>, \<open>localtime\<close> and the logging library are
  parameters. Operations under one mutex are atomic
  steps; a wait on a condition variable whose predicate is false is \<open>None\<close>. The event manager has no
  mutex: in \<open>Reactor\<close> its operations interleave access by access. Two kinds of code need not
  return: the handler of a connection, which may keep its worker forever (the parameter \<open>spins\<close>
  of \<open>Server_Run\<close>), and a resumed coroutine of the coroutine pool, for which the theorems on that
  pool assume that it gives control back.

  \<^bold>\<open>What the lemmas show.\<close> Codecs: what is written is read back, over every type, with nothing
  left over, successful reads are canonical and a buffer cut short is never read as a value;
  the JSON parser returns on every text whose comments, once the blanks at the end are trimmed, are
  followed by line breaks. Transport: buffers and the bodies of packets arrive whole
  over every fragmentation with short transfers and interrupted calls, packets if their four-byte
  header is transferred by one call; on an event manager
  with any number of connections, in orderly runs, every event finds an open socket, and its coroutine
  except in the windows of an operation in progress on it. RPC: a call through client, wire and server returns the function's
  value, and pipelined requests are answered in order. HTTP: parsing inverts rendering,
  exactly the texts with a blank line and three words in the first line are parsed at all, and a
  round of the server sends exactly the routed response. Coroutines: a spawned coroutine with
  all tasks it awaits behaves as its body says (it returns, waits, yields or throws), frees
  every frame it used and never touches a destroyed one; so does the coroutine of a
  connection that a worker starts with \<open>run\<close> and the event loop continues. Pools and queues: no task is lost, duplicated or overtaken, shutting down
  completes the accepted tasks, scheduling places an item once, pinned items are not stolen,
  and without stealing a fair scheduler resumes every scheduled coroutine. The server: accepted connections
  are handled once and in order beside a timer loop that holds a worker; a shutdown can
  complete unless the handler of an accepted connection spins; and under a fair scheduler every
  connection whose handler returns is handled, as long as the spinning ones leave a worker. The echo
  server returns every byte it is sent.
  Timers: the heap operations keep order and content. Buffers: the memory accounted for is
  the memory allocated. Several theorems state how the code fails; they are the ones named
  in the findings, such as the timer whose handler is replaced by its successor's, the header
  read that is not checked, the result that \<open>run\<close> reads from a destroyed frame, the requests
  cut short that the HTTP and the RPC server do not survive, and the pinned coroutine that
  stealing starves.

  \<^bold>\<open>Fuel and loops.\<close> Loops that end have a measure. \<open>Split\<close>, \<open>HeapifyDown\<close>, the loop
  for HTTP bodies, the RPC request loop and the resumption of coroutines are partial functions
  whose result \<open>None\<close> is a loop without end; that they return is proved where it is claimed. The JSON parser has
  fuel for nesting and items: \<open>fuel_of v\<close>, one unit per nesting level and item, is enough for
  the text of \<open>v\<close>; fuel above the length of the text is enough for every text that satisfies
  \<open>comments_end\<close> after trimming, and all such fuel gives the same result; the theorem on unterminated comments holds for
  all fuel.

  \<^bold>\<open>Not modelled.\<close> The branch of \<open>logger.h\<close> for \<open>USE_ORIGINAL\<close>, which declares a class that is
  implemented nowhere; the pools that are commented out in \<open>thread_pool.h\<close> and
  \<open>blocking_queue_thread_pool.h\<close> and the singleton that is commented out in \<open>singleton.h\<close>; the
  template code that cannot be instantiated (the stream operators of \<open>RpcResponse\<close>, \<open>Bind\<close> with
  an object, reading a \<open>std::map\<close>); class declarations and include lists; and weak memory:
  atomics are read and written in the order of the steps.
\<close>

section \<open>The server as a whole\<close>

text \<open>
  Claim C11. In every run of a server, whatever the interleaving of the accept loop, the
  workers, the timers and \<open>Shutdown\<close>, the work pool inside it behaves as a run of the pool
  alone: the connections are started in the order in which they were accepted, behind the
  timer loop, and each accepted connection is queued, handled by one worker or finished once.
  A connection is dropped only after \<open>Shutdown\<close> was called. When the work pool is joined, every
  accepted connection has been handled exactly once.
\<close>

theorem server_handles_connections:
  assumes "started_server thread_num r0" "(server_step ctl h spins)\<^sup>*\<^sup>* r0 r"
  shows "pool_step\<^sup>*\<^sup>* (new_run (unat thread_num)) (work_run r) \<and>
    sr_started r @ pool_tasks (work_thread_pool (sr_server r)) = TickJob # map HandleRequest (sr_accepted r) \<and>
    mset (sr_started r) = mset (sr_finished r) + busy (work_thread_pool (sr_server r)) \<and>
    (sr_dropped r \<noteq> [] \<longrightarrow> srv_shutdown (sr_server r)) \<and>
    (Shutdown_joined (work_thread_pool (sr_server r)) \<longrightarrow>
      mset (sr_finished r) = mset (TickJob # map HandleRequest (sr_accepted r)))"
proof -
  have inv: "server_inv spins (unat thread_num) r" by (rule server_sys.inv_reachable [OF assms])
  then have p: "pool_inv (unat thread_num) (work_run r)" by (simp add: server_inv_def)
  have "pool_step\<^sup>*\<^sup>* (new_run (unat thread_num)) (work_run r)" by (rule started_server_work [OF assms])
  moreover have "sr_started r @ pool_tasks (work_thread_pool (sr_server r)) = TickJob # map HandleRequest (sr_accepted r)"
    "mset (sr_started r) = mset (sr_finished r) + busy (work_thread_pool (sr_server r))"
    using p by (simp_all add: pool_inv_def work_run_def)
  moreover have "sr_dropped r \<noteq> [] \<longrightarrow> srv_shutdown (sr_server r)" using inv by (auto simp: server_inv_def)
  moreover have "mset (sr_finished r) = mset (TickJob # map HandleRequest (sr_accepted r))"
    if "Shutdown_joined (work_thread_pool (sr_server r))"
    using joined_finished [OF p] that by (simp add: work_run_def)
  ultimately show ?thesis by blast
qed

theorem server_handles_connections_witness:
  "\<exists>r :: (unit, int \<rightharpoonup> u32, unit) server_run. map (\<lambda>c. sock_fd (fst (conn_net c))) (sr_accepted r) = [7] \<and>
    sr_started r @ pool_tasks (work_thread_pool (sr_server r)) = TickJob # map HandleRequest (sr_accepted r)"
proof -
  obtain r0 r :: "(unit, int \<rightharpoonup> u32, unit) server_run" where r: "started_server 4 r0" "(server_step map_ctl () (\<lambda>_. False))\<^sup>*\<^sup>* r0 r"
    "map (\<lambda>c. sock_fd (fst (conn_net c))) (sr_accepted r) = [7]" using example_server_runs [of "\<lambda>_. False"] by (elim exE conjE)
  from server_handles_connections [OF r(1,2)] r(3) show ?thesis by (elim conjE) (intro exI conjI)
qed

text \<open>
  Claim C12. A server does not get stuck on its timer loop or on connections whose handlers never
  return, as long as one worker is left. From every state it can reach: when the accepted
  connections whose handlers spin, together with the timer loop, are fewer than the worker
  threads (so with at least two threads when no handler spins), the workers alone can finish
  exactly the jobs of all other accepted connections; when no accepted connection spins,
  \<open>Shutdown\<close> can complete: both pools are joined and every accepted connection was handled; and
  when one does spin, the work pool is never joined, so \<open>Shutdown\<close> does not return. A job is
  handled when its \<open>run\<close> has returned, at the first suspension of the handler or at its end.
\<close>

theorem server_serves_and_stops:
  assumes "started_server thread_num r0" "(server_step ctl h spins)\<^sup>*\<^sup>* r0 r" "0 < thread_num"
  shows "(1 + length (filter spins (sr_accepted r)) < unat thread_num \<longrightarrow>
      (\<exists>r'. (server_step ctl h spins)\<^sup>*\<^sup>* r r' \<and> same_server r r' \<and>
        {#t \<in># mset (sr_finished r'). t \<noteq> TickJob#} = mset (map HandleRequest (filter (\<lambda>c. \<not> spins c) (sr_accepted r))))) \<and>
    ((\<forall>c \<in> set (sr_accepted r). \<not> spins c) \<longrightarrow>
      (\<exists>r'. (server_step ctl h spins)\<^sup>*\<^sup>* r r' \<and> sr_accepted r' = sr_accepted r \<and> srv_shutdown (sr_server r') \<and>
        Shutdown_joined (reactor_thread_pool (sr_server r')) \<and> Shutdown_joined (work_thread_pool (sr_server r')) \<and>
        mset (sr_finished r') = mset (TickJob # map HandleRequest (sr_accepted r)))) \<and>
    ((\<exists>c \<in> set (sr_accepted r). spins c) \<longrightarrow>
      (\<forall>r'. (server_step ctl h spins)\<^sup>*\<^sup>* r r' \<longrightarrow> \<not> Shutdown_joined (work_thread_pool (sr_server r'))))"
proof (intro conjI impI)
  have inv: "server_inv spins (unat thread_num) r" by (rule server_sys.inv_reachable [OF assms(1,2)])
  show "\<exists>r'. (server_step ctl h spins)\<^sup>*\<^sup>* r r' \<and> same_server r r' \<and>
      {#t \<in># mset (sr_finished r'). t \<noteq> TickJob#} = mset (map HandleRequest (filter (\<lambda>c. \<not> spins c) (sr_accepted r)))"
    if "1 + length (filter spins (sr_accepted r)) < unat thread_num"
    by (rule server_serves [OF inv that])
  show "\<exists>r'. (server_step ctl h spins)\<^sup>*\<^sup>* r r' \<and> sr_accepted r' = sr_accepted r \<and> srv_shutdown (sr_server r') \<and>
      Shutdown_joined (reactor_thread_pool (sr_server r')) \<and> Shutdown_joined (work_thread_pool (sr_server r')) \<and>
      mset (sr_finished r') = mset (TickJob # map HandleRequest (sr_accepted r))"
    if none: "\<forall>c \<in> set (sr_accepted r). \<not> spins c"
  proof -
    have "0 < unat thread_num" using assms(3) by (simp add: unat_gt_0)
    from server_shuts_down [OF inv this none, of ctl h] obtain r' where r': "(server_step ctl h spins)\<^sup>*\<^sup>* r r'"
      "sr_accepted r' = sr_accepted r" "srv_shutdown (sr_server r')"
      "Shutdown_joined (reactor_thread_pool (sr_server r'))" "Shutdown_joined (work_thread_pool (sr_server r'))" by blast
    have "pool_inv (unat thread_num) (work_run r')" using server_steps_inv [OF r'(1) inv] by (simp add: server_inv_def)
    then have "mset (sr_finished r') = mset (TickJob # map HandleRequest (sr_accepted r))"
      using joined_finished [of "unat thread_num" "work_run r'"] r'(2,5) by (simp add: work_run_def)
    with r' show ?thesis by blast
  qed
  show "\<forall>r'. (server_step ctl h spins)\<^sup>*\<^sup>* r r' \<longrightarrow> \<not> Shutdown_joined (work_thread_pool (sr_server r'))"
    if "\<exists>c \<in> set (sr_accepted r). spins c"
    using that inv accepted_stay_steps server_steps_inv spinning_blocks_join by (meson subsetD)
qed

theorem server_serves_and_stops_witness:
  "\<exists>r r' r'' :: (unit, int \<rightharpoonup> u32, unit) server_run. map (\<lambda>c. sock_fd (fst (conn_net c))) (sr_accepted r) = [7] \<and>
    (server_step map_ctl () (\<lambda>c. sock_fd (fst (conn_net c)) = 8))\<^sup>*\<^sup>* r r' \<and>
    {#t \<in># mset (sr_finished r'). t \<noteq> TickJob#} = mset (map HandleRequest (sr_accepted r)) \<and>
    (server_step map_ctl () (\<lambda>c. sock_fd (fst (conn_net c)) = 8))\<^sup>*\<^sup>* r r'' \<and> Shutdown_joined (work_thread_pool (sr_server r'')) \<and>
    mset (sr_finished r'') = mset (TickJob # map HandleRequest (sr_accepted r))"
proof -
  let ?spins = "\<lambda>c :: (unit, int \<rightharpoonup> u32) tcp_connection. sock_fd (fst (conn_net c)) = 8"
  obtain r0 r :: "(unit, int \<rightharpoonup> u32, unit) server_run" where r: "started_server 4 r0" "(server_step map_ctl () ?spins)\<^sup>*\<^sup>* r0 r"
    "map (\<lambda>c. sock_fd (fst (conn_net c))) (sr_accepted r) = [7]"
    using example_server_runs [of ?spins] by (elim exE conjE)
  have c: "\<forall>c \<in> set (sr_accepted r). \<not> ?spins c"
    using r(3) by (auto simp: map_eq_Cons_conv)
  then have f: "filter ?spins (sr_accepted r) = []" "filter (\<lambda>c. \<not> ?spins c) (sr_accepted r) = sr_accepted r"
    by (simp_all add: filter_empty_conv)
  have "(0 :: u64) < 4" by simp
  note sv = server_serves_and_stops [OF r(1,2) this]
  have "1 + length (filter ?spins (sr_accepted r)) < unat (4 :: u64)" using f(1) by simp
  from sv [THEN conjunct1, rule_format, OF this] obtain r' where r': "(server_step map_ctl () ?spins)\<^sup>*\<^sup>* r r'"
    "{#t \<in># mset (sr_finished r'). t \<noteq> TickJob#} = mset (map HandleRequest (filter (\<lambda>c. \<not> ?spins c) (sr_accepted r)))"
    by (elim exE conjE)
  from sv [THEN conjunct2, THEN conjunct1, THEN mp, OF c] obtain r'' where r'': "(server_step map_ctl () ?spins)\<^sup>*\<^sup>* r r''"
    "Shutdown_joined (work_thread_pool (sr_server r''))"
    "mset (sr_finished r'') = mset (TickJob # map HandleRequest (sr_accepted r))" by (elim exE conjE)
  show ?thesis using r(3) r' r'' f(2) by (intro exI conjI) simp_all
qed

text \<open>
  Claim C13. Under a fair scheduler the server handles the connections it accepts: take an
  infinite run of a server in which its worker threads are scheduled fairly, the jobs of the
  connections in \<open>spins\<close> never return and every other started job of a connection is not kept
  from returning forever. If at all times the accepted spinning connections and the timer loop
  are fewer than the worker threads (two threads are enough when none spins), then all other
  connections accepted at any time have been handled at some later time, although the timer
  loop never gives its thread back and new connections keep coming.
\<close>

theorem fair_server_handles_all:
  assumes "fair_server_run ctl h spins thread_num rs"
    and "\<forall>k. 1 + length (filter spins (sr_accepted (rs k))) < unat thread_num"
  shows "\<exists>j \<ge> k. mset (map HandleRequest (filter (\<lambda>c. \<not> spins c) (sr_accepted (rs k)))) \<subseteq># mset (sr_finished (rs j))"
  using assms by (rule fair_server_handles)

theorem fair_server_handles_all_witness:
  "\<exists>(rs :: nat \<Rightarrow> (unit, int \<rightharpoonup> u32, unit) server_run) k j. map (\<lambda>c. sock_fd (fst (conn_net c))) (sr_accepted (rs k)) = [7] \<and>
    k \<le> j \<and> mset (map HandleRequest (sr_accepted (rs k))) \<subseteq># mset (sr_finished (rs j))"
proof -
  obtain rs :: "nat \<Rightarrow> (unit, int \<rightharpoonup> u32, unit) server_run" and k where rs: "fair_server_run map_ctl () (\<lambda>_. False) 4 rs"
    "map (\<lambda>c. sock_fd (fst (conn_net c))) (sr_accepted (rs k)) = [7]"
    using example_fair_server [of "\<lambda>_. False"] by (elim exE conjE)
  have "\<forall>k. 1 + length (filter (\<lambda>_. False) (sr_accepted (rs k))) < unat (4 :: u64)" by simp
  from fair_server_handles_all [OF rs(1) this, of k] rs(2) show ?thesis by (simp, elim exE conjE) (intro exI conjI)
qed

end
